(* ===== verification/Prelude.thy ===== *)
theory Prelude
  imports Complex_Main "HOL-Library.AList" "HOL-Library.Multiset" "HOL-Library.Monad_Syntax"
    "HOL-Library.List_Lexorder" "HOL-Library.Char_ord" "HOL-Library.Word"
begin

text \<open>
  What the components share: the reading of Go's library types that the sources use, the lemmas on
  them, and two interfaces proved once.

  \<^item> A \<^verbatim>\<open>time.Time\<close> is an \<open>int\<close> (nanoseconds), with 0 for the zero time. A
    \<^verbatim>\<open>time.Duration\<close> is an \<open>int\<close> too, and \<open>time_sub\<close> saturates the way
    \<^verbatim>\<open>Time.Sub\<close> does.
  \<^item> A Go map is an association list with distinct keys. The order of the list stands for one
    order in which \<^verbatim>\<open>range\<close> may visit the entries; the theorems quantify over
    the state, so over every such order.
  \<^item> A slice is a list; \<open>slice_at\<close> reads it and is \<open>None\<close> where Go panics, so a result
    of type \<open>'s option\<close> is \<open>None\<close> exactly where the code would panic.
  \<^item> \<^verbatim>\<open>sort.Slice\<close> and \<^verbatim>\<open>slices.SortFunc\<close> are \<open>go_sort\<close>.
  \<^item> The locale \<open>strict_weak\<close> is the contract of a comparison function that the sorts and
    the "keep the best so far" loops rely on; \<open>panic_free_step\<close> is the contract of an
    operation that, on a well-formed state, returns and keeps the state well formed.
\<close>

section \<open>Time\<close>

type_synonym time = int
type_synonym duration = int
type_synonym u64 = "64 word"

definition max_duration :: duration where
  "max_duration = 2 ^ 63 - 1"

definition min_duration :: duration where
  "min_duration = - (2 ^ 63)"

definition time_sub :: "time \<Rightarrow> time \<Rightarrow> duration" where
  "time_sub t u = max min_duration (min max_duration (t - u))"

definition is_zero :: "time \<Rightarrow> bool" where
  "is_zero t \<longleftrightarrow> t = 0"

definition second :: duration where
  "second = 1000000000"

definition minute :: duration where
  "minute = 60 * second"

text \<open>Integer division of Go truncates towards zero; \<open>None\<close> is the panic on a zero divisor.\<close>

definition go_div :: "int \<Rightarrow> int \<Rightarrow> int option" where
  "go_div a b = (if b = 0 then None else Some (sgn a * sgn b * (\<bar>a\<bar> div \<bar>b\<bar>)))"

lemma go_div_pos: "0 \<le> a \<Longrightarrow> 0 < b \<Longrightarrow> go_div a b = Some (a div b)"
  by (cases "a = 0") (auto simp: go_div_def)

lemma time_sub_self [simp]: "time_sub t t = 0"
  by (simp add: time_sub_def max_duration_def min_duration_def)

lemma time_sub_ge_iff: "min_duration < d \<Longrightarrow> d \<le> max_duration \<Longrightarrow> d \<le> time_sub t u \<longleftrightarrow> d \<le> t - u"
  by (auto simp: time_sub_def)

lemma time_sub_gt_iff: "min_duration \<le> d \<Longrightarrow> d < max_duration \<Longrightarrow> d < time_sub t u \<longleftrightarrow> d < t - u"
  by (auto simp: time_sub_def)

lemma time_sub_mono: "t \<le> t' \<Longrightarrow> time_sub t u \<le> time_sub t' u"
  by (auto simp: time_sub_def)

section \<open>Slices\<close>

definition slice_at :: "'a list \<Rightarrow> int \<Rightarrow> 'a option" where
  "slice_at xs i = (if 0 \<le> i \<and> i < int (length xs) then Some (xs ! nat i) else None)"

fun slices_index :: "'a list \<Rightarrow> 'a \<Rightarrow> int" where
  "slices_index [] x = -1"
| "slices_index (y # ys) x =
     (if y = x then 0 else let i = slices_index ys x in if i < 0 then -1 else i + 1)"

lemma slice_at_Some: "0 \<le> i \<Longrightarrow> i < int (length xs) \<Longrightarrow> slice_at xs i = Some (xs ! nat i)"
  by (simp add: slice_at_def)

lemma slice_at_in_set: "slice_at xs i = Some x \<Longrightarrow> x \<in> set xs"
  by (auto simp: slice_at_def split: if_splits)

lemma slices_index_range: "-1 \<le> slices_index xs x \<and> slices_index xs x < int (length xs)"
  by (induction xs) (auto simp: Let_def)

lemma slices_index_nonneg_iff: "0 \<le> slices_index xs x \<longleftrightarrow> x \<in> set xs"
  by (induction xs) (auto simp: Let_def)

lemma slices_index_at: "x \<in> set xs \<Longrightarrow> slice_at xs (slices_index xs x) = Some x"
proof (induction xs)
  case Nil
  then show ?case by simp
next
  case (Cons y ys)
  show ?case
  proof (cases "y = x")
    case True
    then show ?thesis by (simp add: slice_at_def)
  next
    case False
    with Cons have m: "x \<in> set ys" and IH: "slice_at ys (slices_index ys x) = Some x" by auto
    from m have nn: "0 \<le> slices_index ys x" by (simp add: slices_index_nonneg_iff)
    then have "nat (slices_index ys x + 1) = Suc (nat (slices_index ys x))" by simp
    with IH nn False show ?thesis
      by (auto simp: slice_at_def Let_def split: if_splits)
  qed
qed

lemma slices_index_valid:
  "x \<in> set xs \<Longrightarrow> 0 \<le> slices_index xs x \<and> slices_index xs x < int (length xs)"
  using slices_index_range [of xs x] slices_index_nonneg_iff [of xs x] by simp

section \<open>Maps\<close>

type_synonym ('k, 'v) gomap = "('k \<times> 'v) list"

abbreviation gm_get :: "('k, 'v) gomap \<Rightarrow> 'k \<Rightarrow> 'v option" where
  "gm_get \<equiv> map_of"

abbreviation gm_put :: "'k \<Rightarrow> 'v \<Rightarrow> ('k, 'v) gomap \<Rightarrow> ('k, 'v) gomap" where
  "gm_put \<equiv> AList.update"

abbreviation gm_del :: "'k \<Rightarrow> ('k, 'v) gomap \<Rightarrow> ('k, 'v) gomap" where
  "gm_del \<equiv> AList.delete"

abbreviation gm_keys :: "('k, 'v) gomap \<Rightarrow> 'k list" where
  "gm_keys m \<equiv> map fst m"

text \<open>\<^verbatim>\<open>m[k]\<close> read as a value: the zero value where the key is absent.\<close>

definition gm_get0 :: "'v \<Rightarrow> ('k, 'v) gomap \<Rightarrow> 'k \<Rightarrow> 'v" where
  "gm_get0 z m k = (case gm_get m k of None \<Rightarrow> z | Some v \<Rightarrow> v)"

lemma gm_get_put: "gm_get (gm_put k v m) k' = (if k' = k then Some v else gm_get m k')"
  by (simp add: update_conv')

lemma gm_get_del: "gm_get (gm_del k m) k' = (if k' = k then None else gm_get m k')"
  by (simp add: delete_conv')

lemma gm_del_keys: "set (gm_keys (gm_del k m)) = set (gm_keys m) - {k}"
  by (simp add: delete_keys)

lemma gm_put_keys: "set (gm_keys (gm_put k v m)) = insert k (set (gm_keys m))"
  by (auto simp: update_keys)

lemma gm_put_distinct [simp]: "distinct (gm_keys m) \<Longrightarrow> distinct (gm_keys (gm_put k v m))"
  by (rule distinct_update)

lemma gm_del_distinct [simp]: "distinct (gm_keys m) \<Longrightarrow> distinct (gm_keys (gm_del k m))"
  by (rule distinct_delete)

lemma gm_get_None_iff: "gm_get m k = None \<longleftrightarrow> k \<notin> set (gm_keys m)"
  by (simp add: map_of_eq_None_iff)

lemma gm_get_in_keys: "gm_get m k = Some v \<Longrightarrow> k \<in> set (gm_keys m)"
  by (metis gm_get_None_iff option.distinct(1))

lemma gm_length_del:
  "distinct (gm_keys m) \<Longrightarrow> k \<in> set (gm_keys m) \<Longrightarrow> length (gm_del k m) = length m - 1"
proof (induction m)
  case Nil
  then show ?case by simp
next
  case (Cons p m)
  obtain a b where p: "p = (a, b)" by (cases p)
  show ?case
  proof (cases "a = k")
    case True
    with Cons.prems p have "k \<notin> fst ` set m" by auto
    then have "gm_del k m = m" by (simp add: delete_idem)
    with True p show ?thesis by simp
  next
    case False
    with Cons p have "length (gm_del k m) = length m - 1" and "m \<noteq> []" by auto
    with False p show ?thesis by (cases m) auto
  qed
qed

lemma gm_length_put:
  "length (gm_put k v m) = (if k \<in> set (gm_keys m) then length m else Suc (length m))"
  by (induction m) auto

lemma set_gm_put: "set (gm_put k c cs) \<subseteq> insert (k, c) (set cs)"
  by (induction cs) auto

lemma gm_entry_in: "gm_get m k = Some v \<Longrightarrow> (k, v) \<in> set m"
  by (rule map_of_SomeD)

lemma gm_get_entry: "distinct (gm_keys m) \<Longrightarrow> (k, v) \<in> set m \<Longrightarrow> gm_get m k = Some v"
  by (rule map_of_is_SomeI)

lemma gm_get_fold_del: "gm_get (fold gm_del ks m) a = (if a \<in> set ks then None else gm_get m a)"
  by (induction ks arbitrary: m) (auto simp: gm_get_del)

lemma gm_fold_del_distinct: "distinct (gm_keys m) \<Longrightarrow> distinct (gm_keys (fold gm_del ks m))"
  by (induction ks arbitrary: m) auto

lemma gm_length_fold_del:
  "distinct ks \<Longrightarrow> set ks \<subseteq> set (gm_keys m) \<Longrightarrow> distinct (gm_keys m) \<Longrightarrow>
   length (fold gm_del ks m) = length m - length ks"
proof (induction ks arbitrary: m)
  case Nil
  then show ?case by simp
next
  case (Cons k ks)
  then have "length (gm_del k m) = length m - 1" by (simp add: gm_length_del)
  moreover have "set ks \<subseteq> set (gm_keys (gm_del k m))" using Cons.prems unfolding gm_del_keys by auto
  ultimately show ?case using Cons by simp
qed

lemma gm_put_fresh: "k \<notin> set (gm_keys m) \<Longrightarrow> gm_put k v m = m @ [(k, v)]"
  by (induction m) auto

lemmas gm_rules = gm_get_put gm_get_del gm_put_keys gm_del_keys

section \<open>Loops\<close>

lemma fold_invariant: "P s \<Longrightarrow> (\<And>x s. x \<in> set xs \<Longrightarrow> P s \<Longrightarrow> P (f x s)) \<Longrightarrow> P (fold f xs s)"
  by (induction xs arbitrary: s) auto

lemma sorted_wrt_take_later:
  assumes "sorted_wrt R xs" and "x \<in> set (take n xs)" and "y \<in> set xs" and "y \<notin> set (take n xs)"
  shows "R x y"
proof -
  have "y \<in> set (drop n xs)" using assms(3,4) by (metis Un_iff append_take_drop_id set_append)
  moreover have "sorted_wrt R (take n xs @ drop n xs)" using assms(1) by (simp only: append_take_drop_id)
  ultimately show ?thesis using assms(2) unfolding sorted_wrt_append by blast
qed

fun ofold :: "('a \<Rightarrow> 's \<Rightarrow> 's option) \<Rightarrow> 'a list \<Rightarrow> 's \<Rightarrow> 's option" where
  "ofold f [] s = Some s"
| "ofold f (x # xs) s = (case f x s of None \<Rightarrow> None | Some s' \<Rightarrow> ofold f xs s')"

lemma ofold_append: "ofold f (xs @ ys) s = Option.bind (ofold f xs s) (ofold f ys)"
  by (induction xs arbitrary: s) (auto split: option.splits)

lemma ofold_cong_state:
  assumes "\<And>x s s'. x \<in> set xs \<Longrightarrow> f x s = Some s' \<Longrightarrow> g s' = g s" and "ofold f xs s = Some s'"
  shows "g s' = g s"
  using assms
  by (induction xs arbitrary: s) (force split: option.splits)+

locale panic_free_step =
  fixes inv :: "'s \<Rightarrow> bool" and ok :: "'a \<Rightarrow> bool" and step :: "'a \<Rightarrow> 's \<Rightarrow> 's option"
  assumes step_ok: "inv s \<Longrightarrow> ok x \<Longrightarrow> \<exists>s'. step x s = Some s' \<and> inv s'"
begin

lemma loop_returns:
  assumes "inv s" and "list_all ok xs"
  shows "\<exists>s'. ofold step xs s = Some s' \<and> inv s'"
  using assms
proof (induction xs arbitrary: s)
  case Nil
  then show ?case by simp
next
  case (Cons x xs)
  then obtain s1 where "step x s = Some s1" and "inv s1"
    using step_ok by fastforce
  with Cons show ?case by auto
qed

end

section \<open>Comparison functions: picking the best and sorting\<close>

text \<open>The loop "start with the first, replace it whenever a later one is better".\<close>

fun best_of :: "('a \<Rightarrow> 'a \<Rightarrow> bool) \<Rightarrow> 'a \<Rightarrow> 'a list \<Rightarrow> 'a" where
  "best_of better b [] = b"
| "best_of better b (c # cs) = best_of better (if better c b then c else b) cs"

text \<open>
  A sort by a comparison function: a stable insertion sort. Go's sorts are not stable, so this is
  one of the results they may give; the facts used of it are that it is a permutation and
  that no element comes after one it is less than.
\<close>

fun insort_by :: "('a \<Rightarrow> 'a \<Rightarrow> bool) \<Rightarrow> 'a \<Rightarrow> 'a list \<Rightarrow> 'a list" where
  "insort_by lt x [] = [x]"
| "insort_by lt x (y # ys) = (if lt y x then y # insort_by lt x ys else x # y # ys)"

definition go_sort :: "('a \<Rightarrow> 'a \<Rightarrow> bool) \<Rightarrow> 'a list \<Rightarrow> 'a list" where
  "go_sort lt xs = foldr (insort_by lt) xs []"

lemma mset_insort_by [simp]: "mset (insort_by lt x xs) = add_mset x (mset xs)"
  by (induction xs) auto

lemma mset_go_sort [simp]: "mset (go_sort lt xs) = mset xs"
  by (induction xs) (auto simp: go_sort_def)

lemma set_go_sort [simp]: "set (go_sort lt xs) = set xs"
  by (metis mset_go_sort set_mset_mset)

lemma length_go_sort [simp]: "length (go_sort lt xs) = length xs"
  by (metis mset_go_sort size_mset)

lemma distinct_go_sort [simp]: "distinct (go_sort lt xs) = distinct xs"
  by (metis mset_go_sort mset_eq_imp_distinct_iff)

lemma best_of_in: "best_of better b cs \<in> insert b (set cs)"
  by (induction cs arbitrary: b) (auto split: if_splits)

locale strict_weak =
  fixes lt :: "'a \<Rightarrow> 'a \<Rightarrow> bool"
  assumes asym: "lt x y \<Longrightarrow> \<not> lt y x"
    and neg_trans: "\<not> lt x y \<Longrightarrow> \<not> lt y z \<Longrightarrow> \<not> lt x z"
begin

lemma irrefl: "\<not> lt x x"
  using asym by blast

lemma best_of_no_worse: "\<not> lt b (best_of lt b cs)"
proof (induction cs arbitrary: b)
  case Nil
  show ?case by (simp add: irrefl)
next
  case (Cons c cs)
  show ?case
  proof (cases "lt c b")
    case True
    then have "\<not> lt b c" by (rule asym)
    with Cons.IH [of c] True show ?thesis using neg_trans by auto
  next
    case False
    with Cons.IH [of b] show ?thesis by simp
  qed
qed

lemma best_of_best:
  assumes "x \<in> insert b (set cs)"
  shows "\<not> lt x (best_of lt b cs)"
  using assms
proof (induction cs arbitrary: b)
  case Nil
  then show ?case by (simp add: irrefl)
next
  case (Cons c cs)
  let ?b = "if lt c b then c else b"
  have "\<not> lt x ?b" if "x \<in> {b, c}"
    using that asym irrefl by auto
  then have "\<not> lt x (best_of lt ?b cs)" if "x \<in> {b, c}"
    using that best_of_no_worse neg_trans by blast
  with Cons show ?case by auto
qed

lemma insort_by_sorted:
  "sorted_wrt (\<lambda>a b. \<not> lt b a) xs \<Longrightarrow> sorted_wrt (\<lambda>a b. \<not> lt b a) (insort_by lt x xs)"
proof (induction xs)
  case Nil
  then show ?case by simp
next
  case (Cons y ys)
  have set_ins: "set (insort_by lt x ys) = insert x (set ys)"
    by (metis mset_insort_by set_mset_add_mset_insert set_mset_mset)
  show ?case
  proof (cases "lt y x")
    case True
    with Cons set_ins asym show ?thesis by auto
  next
    case False
    with Cons.prems show ?thesis using neg_trans by auto
  qed
qed

lemma go_sort_sorted: "sorted_wrt (\<lambda>a b. \<not> lt b a) (go_sort lt xs)"
  by (induction xs) (auto simp: go_sort_def insort_by_sorted)

end

section \<open>Decimal numbers\<close>

text \<open>\<^verbatim>\<open>%d\<close> of a natural number.\<close>

definition digit_char :: "nat \<Rightarrow> char" where
  "digit_char d = char_of (48 + d)"

fun dec_of :: "nat \<Rightarrow> string" where
  "dec_of n = (if n < 10 then [digit_char n] else dec_of (n div 10) @ [digit_char (n mod 10)])"

declare dec_of.simps [simp del]

lemma digit_char_inj: "a < 10 \<Longrightarrow> b < 10 \<Longrightarrow> digit_char a = digit_char b \<longleftrightarrow> a = b"
  by (auto simp: digit_char_def dest!: arg_cong [where f = "of_char :: char \<Rightarrow> nat"])

lemma dec_of_ne: "dec_of n \<noteq> []"
  by (subst dec_of.simps) simp

lemma dec_of_digits: "c \<in> set (dec_of n) \<Longrightarrow> \<exists>d < 10. c = digit_char d"
proof (induction n rule: dec_of.induct)
  case (1 n)
  show ?case
  proof (cases "n < 10")
    case True
    with 1(2) show ?thesis by (subst (asm) dec_of.simps) auto
  next
    case False
    from 1(2) False have "c \<in> set (dec_of (n div 10)) \<or> c = digit_char (n mod 10)"
      by (subst (asm) dec_of.simps) auto
    then show ?thesis using 1(1) [OF False] by (metis mod_less_divisor zero_less_numeral)
  qed
qed

lemma dec_of_inj: "dec_of a = dec_of b \<longleftrightarrow> a = b"
proof
  show "dec_of a = dec_of b \<Longrightarrow> a = b"
  proof (induction a arbitrary: b rule: dec_of.induct)
    case (1 a)
    show ?case
    proof (cases "a < 10")
      case True
      with 1(2) dec_of_ne [of "b div 10"] show ?thesis
        using digit_char_inj [of a b] by (auto simp: dec_of.simps [of a] dec_of.simps [of b] split: if_splits)
    next
      case a: False
      with 1(2) dec_of_ne [of "a div 10"] have b: "\<not> b < 10"
        by (auto simp: dec_of.simps [of a] dec_of.simps [of b] split: if_splits)
      with a 1(2) have "dec_of (a div 10) = dec_of (b div 10)" and m: "digit_char (a mod 10) = digit_char (b mod 10)"
        by (auto simp: dec_of.simps [of a] dec_of.simps [of b])
      with 1(1) [OF a] have "a div 10 = b div 10" by blast
      moreover from m have "a mod 10 = b mod 10" using digit_char_inj by simp
      ultimately show ?thesis by (metis div_mult_mod_eq)
    qed
  qed
qed simp


section \<open>Strings\<close>

text \<open>\<^verbatim>\<open>strings.TrimSpace\<close> and \<^verbatim>\<open>strings.ToLower\<close> on ASCII text.\<close>

definition is_space :: "char \<Rightarrow> bool" where
  "is_space c \<longleftrightarrow> c \<in> set [CHR 0x09, CHR 0x0A, CHR 0x0B, CHR 0x0C, CHR 0x0D, CHR 0x20]"

definition TrimSpace :: "string \<Rightarrow> string" where
  "TrimSpace s = rev (dropWhile is_space (rev (dropWhile is_space s)))"

definition lower_char :: "char \<Rightarrow> char" where
  "lower_char c = (let n = of_char c :: nat in if 65 \<le> n \<and> n \<le> 90 then char_of (n + 32) else c)"

definition ToLower :: "string \<Rightarrow> string" where
  "ToLower s = map lower_char s"

end
