(* ===== verification/ClusterRouting.thy ===== *)
theory ClusterRouting
  imports Prelude
begin

text \<open>
  \<^verbatim>\<open>pkg/clusterrouting/replica.go\<close>: which loaded replica of a model serves the next request.
  \<open>betterReplica\<close> is the order of the three tiers and \<open>PickBestReplica\<close> the loop that keeps the
  best candidate so far. The order is a strict weak order, so the locale of the prelude gives
  that the loop returns a candidate no other one beats.
\<close>

record replica_candidate =
  NodeID :: string
  Address :: string
  ReplicaIndex :: int
  InFlight :: int
  LastUsed :: time
  AvailableVRAM :: u64

definition betterReplica :: "replica_candidate \<Rightarrow> replica_candidate \<Rightarrow> bool" where
  "betterReplica a b =
     (if InFlight a \<noteq> InFlight b then InFlight a < InFlight b
      else if LastUsed a \<noteq> LastUsed b then LastUsed a < LastUsed b
      else AvailableVRAM a > AvailableVRAM b)"

definition PickBestReplica :: "replica_candidate list \<Rightarrow> replica_candidate option" where
  "PickBestReplica candidates =
     (case candidates of [] \<Rightarrow> None | c # cs \<Rightarrow> Some (best_of betterReplica c cs))"

interpretation replica: strict_weak betterReplica
  by unfold_locales (auto simp: betterReplica_def split: if_splits)

lemma best_of_first:
  "best_of betterReplica c cs = c \<Longrightarrow> \<forall>x \<in> set cs. \<not> betterReplica x c"
  using replica.best_of_best [of _ c cs] by auto

text \<open>
  \<open>PickBestReplica\<close> returns \<open>None\<close> only for an empty list; otherwise it returns a candidate with
  the least in-flight count, among those the oldest last use, and among those the largest
  available VRAM.
\<close>

theorem PickBestReplica_best:
  assumes "PickBestReplica cands = Some r"
  shows "r \<in> set cands
    \<and> (\<forall>c \<in> set cands. InFlight r \<le> InFlight c)
    \<and> (\<forall>c \<in> set cands. InFlight c = InFlight r \<longrightarrow> LastUsed r \<le> LastUsed c)
    \<and> (\<forall>c \<in> set cands. InFlight c = InFlight r \<longrightarrow> LastUsed c = LastUsed r \<longrightarrow>
         AvailableVRAM c \<le> AvailableVRAM r)"
proof -
  obtain c cs where cs: "cands = c # cs" and r: "r = best_of betterReplica c cs"
    using assms by (auto simp: PickBestReplica_def split: list.splits)
  have mem: "r \<in> set cands" using best_of_in [of betterReplica c cs] cs r by simp
  have best: "\<not> betterReplica x r" if "x \<in> set cands" for x
    using that replica.best_of_best [of x c cs] cs r by simp
  have "InFlight r \<le> InFlight x \<and> (InFlight x = InFlight r \<longrightarrow> LastUsed r \<le> LastUsed x)
      \<and> (InFlight x = InFlight r \<longrightarrow> LastUsed x = LastUsed r \<longrightarrow> AvailableVRAM x \<le> AvailableVRAM r)"
    if "x \<in> set cands" for x
    using best [OF that] by (auto simp: betterReplica_def split: if_splits)
  with mem show ?thesis by blast
qed

definition sample_replica :: "string \<Rightarrow> int \<Rightarrow> time \<Rightarrow> replica_candidate" where
  "sample_replica n i t = \<lparr>NodeID = n, Address = '''', ReplicaIndex = 0, InFlight = i, LastUsed = t, AvailableVRAM = 0\<rparr>"

theorem PickBestReplica_best_witness:
  "PickBestReplica [sample_replica ''a'' 1 5, sample_replica ''b'' 0 9, sample_replica ''c'' 0 7] =
     Some (sample_replica ''c'' 0 7)
   \<and> InFlight (sample_replica ''c'' 0 7) \<le> InFlight (sample_replica ''a'' 1 5)"
proof -
  have p: "PickBestReplica [sample_replica ''a'' 1 5, sample_replica ''b'' 0 9, sample_replica ''c'' 0 7] =
     Some (sample_replica ''c'' 0 7)"
    by (simp add: PickBestReplica_def betterReplica_def sample_replica_def)
  from PickBestReplica_best [OF p] p show ?thesis by simp
qed

end
