(* ===== verification/RadixTree.thy ===== *)
theory RadixTree
  imports Prelude "HOL-Library.Sublist"
begin

text \<open>
  \<^verbatim>\<open>pkg/radixtree/radixtree.go\<close>: the prefix tree that maps the longest stored, unexpired
  prefix of a sequence of \<^verbatim>\<open>uint64\<close> keys to a value. A node is a datatype whose children
  are an association list; \<open>hasValue\<close> and \<open>value\<close> are one \<open>option\<close>. Where the code
  compares node pointers (the victim of an eviction) the model compares the paths from the
  root, which identify a node of a tree. Scores are \<open>real\<close> numbers, without the rounding of
  \<^verbatim>\<open>float64\<close>.

  \<open>entries\<close> is the abstract content: a finite map from paths to a value and the time it was
  last seen. The lemmas relate every operation to it.
\<close>

section \<open>Data\<close>

record options =
  TTL :: duration
  HalfLife :: duration
  MaxEntries :: int

datatype 'v node = Node (children: "(u64 \<times> 'v node) list") (nvalue: "'v option") (lastSeen: time)

record 'v tree =
  opts :: options
  troot :: "'v node"
  tsize :: int

definition New :: "options \<Rightarrow> 'v tree" where
  "New os = \<lparr>opts = os, troot = Node [] None 0, tsize = 0\<rparr>"

section \<open>Operations\<close>

definition expired :: "options \<Rightarrow> 'v node \<Rightarrow> time \<Rightarrow> bool" where
  "expired os n now \<longleftrightarrow> TTL os > 0 \<and> time_sub now (lastSeen n) > TTL os"

text \<open>
  The loop of \<open>LongestMatch\<close>: \<open>i\<close> is the index of the key element, the accumulator
  holds \<open>best\<close> and \<open>bestDepth\<close>, or \<open>None\<close> while \<open>found\<close> is false.
\<close>

fun longestMatchLoop ::
  "options \<Rightarrow> time \<Rightarrow> u64 list \<Rightarrow> nat \<Rightarrow> 'v node \<Rightarrow> ('v \<times> nat) option \<Rightarrow> ('v \<times> nat) option" where
  "longestMatchLoop os now [] i cur best = best"
| "longestMatchLoop os now (k # ks) i cur best =
     (case gm_get (children cur) k of
        None \<Rightarrow> best
      | Some nxt \<Rightarrow>
          longestMatchLoop os now ks (i + 1) nxt
            (case nvalue nxt of
               None \<Rightarrow> best
             | Some v \<Rightarrow> if \<not> expired os nxt now then Some (v, i + 1) else best))"

definition LongestMatch :: "'v tree \<Rightarrow> u64 list \<Rightarrow> time \<Rightarrow> ('v \<times> nat) option" where
  "LongestMatch t key now = longestMatchLoop (opts t) now key 0 (troot t) None"

text \<open>The loop of \<open>Insert\<close> along the key, with \<open>t.size\<close> threaded through.\<close>

definition child_or_new :: "'v node \<Rightarrow> u64 \<Rightarrow> 'v node" where
  "child_or_new cur k = (case gm_get (children cur) k of None \<Rightarrow> Node [] None 0 | Some n \<Rightarrow> n)"

fun insertLoop :: "u64 list \<Rightarrow> 'v \<Rightarrow> time \<Rightarrow> 'v node \<Rightarrow> int \<Rightarrow> 'v node \<times> int" where
  "insertLoop [] v now cur sz = (cur, sz)"
| "insertLoop (k # ks) v now cur sz =
     (let nxt = child_or_new cur k;
          sz1 = (if nvalue nxt = None then sz + 1 else sz);
          (nxt', sz2) = insertLoop ks v now (Node (children nxt) (Some v) now) sz1
      in (Node (gm_put k nxt' (children cur)) (nvalue cur) (lastSeen cur), sz2))"

text \<open>
  The walk of \<open>evictOldestLocked\<close>: the path and time of the value-bearing node that was
  seen least recently, the first one met among equals.
\<close>

fun victimWalk :: "u64 list \<Rightarrow> 'v node \<Rightarrow> (u64 list \<times> time) option \<Rightarrow> (u64 list \<times> time) option"
and victimWalkChildren ::
  "u64 list \<Rightarrow> (u64 \<times> 'v node) list \<Rightarrow> (u64 list \<times> time) option \<Rightarrow> (u64 list \<times> time) option" where
  "victimWalk p (Node cs v ls) victim =
     victimWalkChildren p cs
       (if v \<noteq> None \<and> (case victim of None \<Rightarrow> True | Some (_, vls) \<Rightarrow> ls < vls)
        then Some (p, ls) else victim)"
| "victimWalkChildren p [] victim = victim"
| "victimWalkChildren p ((k, c) # cs) victim =
     victimWalkChildren p cs (victimWalk (p @ [k]) c victim)"

text \<open>
  \<open>pruneWalk\<close> returns whether the node is to be removed from its parent, the node and
  \<open>t.size\<close>. The node it visits is named by its path from the root.
\<close>

fun pruneWalk ::
  "(u64 list \<Rightarrow> 'v node \<Rightarrow> bool) \<Rightarrow> u64 list \<Rightarrow> 'v node \<Rightarrow> int \<Rightarrow> bool \<times> 'v node \<times> int"
and pruneWalkChildren ::
  "(u64 list \<Rightarrow> 'v node \<Rightarrow> bool) \<Rightarrow> u64 list \<Rightarrow> (u64 \<times> 'v node) list \<Rightarrow> int
     \<Rightarrow> (u64 \<times> 'v node) list \<times> int" where
  "pruneWalk shouldClear p (Node cs v ls) sz =
     (let (cs', sz1) = pruneWalkChildren shouldClear p cs sz;
          (v', sz2) = (if v \<noteq> None \<and> shouldClear p (Node cs' v ls) then (None, sz1 - 1) else (v, sz1))
      in (p \<noteq> [] \<and> v' = None \<and> cs' = [], Node cs' v' ls, sz2))"
| "pruneWalkChildren shouldClear p [] sz = ([], sz)"
| "pruneWalkChildren shouldClear p ((k, c) # cs) sz =
     (let (rm, c', sz1) = pruneWalk shouldClear (p @ [k]) c sz;
          (cs', sz2) = pruneWalkChildren shouldClear p cs sz1
      in (if rm then cs' else (k, c') # cs', sz2))"

definition prune :: "(u64 list \<Rightarrow> 'v node \<Rightarrow> bool) \<Rightarrow> 'v tree \<Rightarrow> 'v tree" where
  "prune shouldClear t =
     (let (_, r, sz) = pruneWalk shouldClear [] (troot t) (tsize t) in t\<lparr>troot := r, tsize := sz\<rparr>)"

definition evictOldestLocked :: "'v tree \<Rightarrow> 'v tree" where
  "evictOldestLocked t =
     (case victimWalk [] (troot t) None of
        None \<Rightarrow> t
      | Some (victim, _) \<Rightarrow> prune (\<lambda>p n. p = victim) t)"

definition Insert :: "u64 list \<Rightarrow> 'v \<Rightarrow> time \<Rightarrow> 'v tree \<Rightarrow> 'v tree" where
  "Insert key v now t =
     (if key = [] then t
      else let (r, sz) = insertLoop key v now (troot t) (tsize t);
               t' = t\<lparr>troot := r, tsize := sz\<rparr>
           in if MaxEntries (opts t) > 0 \<and> sz > MaxEntries (opts t)
              then evictOldestLocked t' else t')"

definition Len :: "'v tree \<Rightarrow> int" where
  "Len t = tsize t"

definition Evict :: "time \<Rightarrow> 'v tree \<Rightarrow> 'v tree" where
  "Evict now t = prune (\<lambda>p n. expired (opts t) n now) t"

definition contribution :: "options \<Rightarrow> 'v node \<Rightarrow> time \<Rightarrow> real" where
  "contribution os n now =
     (if HalfLife os \<le> 0 then 1
      else (1 / 2) powr (of_int (time_sub now (lastSeen n)) / of_int (HalfLife os)))"

fun weightWalk :: "options \<Rightarrow> 'v \<Rightarrow> time \<Rightarrow> 'v node \<Rightarrow> real \<Rightarrow> real"
and weightWalkChildren :: "options \<Rightarrow> 'v \<Rightarrow> time \<Rightarrow> (u64 \<times> 'v node) list \<Rightarrow> real \<Rightarrow> real" where
  "weightWalk os v now (Node cs w ls) acc =
     weightWalkChildren os v now cs
       (if w = Some v \<and> \<not> expired os (Node cs w ls) now
        then acc + contribution os (Node cs w ls) now else acc)"
| "weightWalkChildren os v now [] acc = acc"
| "weightWalkChildren os v now ((k, c) # cs) acc =
     weightWalkChildren os v now cs (weightWalk os v now c acc)"

definition Weight :: "'v tree \<Rightarrow> 'v \<Rightarrow> time \<Rightarrow> real" where
  "Weight t v now = weightWalk (opts t) v now (troot t) 0"

fun weightsWalk ::
  "options \<Rightarrow> time \<Rightarrow> 'v node \<Rightarrow> ('v, real) gomap \<Rightarrow> ('v, real) gomap"
and weightsWalkChildren ::
  "options \<Rightarrow> time \<Rightarrow> (u64 \<times> 'v node) list \<Rightarrow> ('v, real) gomap \<Rightarrow> ('v, real) gomap" where
  "weightsWalk os now (Node cs w ls) res =
     weightsWalkChildren os now cs
       (case w of
          None \<Rightarrow> res
        | Some v \<Rightarrow>
            if \<not> expired os (Node cs w ls) now
            then (case gm_get res v of
                    None \<Rightarrow> res
                  | Some r \<Rightarrow> gm_put v (r + contribution os (Node cs w ls) now) res)
            else res)"
| "weightsWalkChildren os now [] res = res"
| "weightsWalkChildren os now ((k, c) # cs) res =
     weightsWalkChildren os now cs (weightsWalk os now c res)"

text \<open>
  \<open>want\<close> and \<open>result\<close> hold the same keys throughout, so the membership test of
  \<open>want\<close> reads \<open>result\<close>.
\<close>

definition WeightsFor :: "'v tree \<Rightarrow> 'v list \<Rightarrow> time \<Rightarrow> ('v, real) gomap" where
  "WeightsFor t vs now =
     (let result = fold (\<lambda>v. gm_put v 0) vs []
      in if result = [] then result else weightsWalk (opts t) now (troot t) result)"

definition RemoveFunc :: "('v \<Rightarrow> bool) \<Rightarrow> 'v tree \<Rightarrow> 'v tree" where
  "RemoveFunc pred t = prune (\<lambda>p n. case nvalue n of None \<Rightarrow> False | Some v \<Rightarrow> pred v) t"

definition Remove :: "'v \<Rightarrow> 'v tree \<Rightarrow> 'v tree" where
  "Remove v t = RemoveFunc (\<lambda>x. x = v) t"


section \<open>The content of a tree\<close>

fun find_node :: "'v node \<Rightarrow> u64 list \<Rightarrow> 'v node option" where
  "find_node n [] = Some n"
| "find_node n (k # ks) =
     (case gm_get (children n) k of None \<Rightarrow> None | Some c \<Rightarrow> find_node c ks)"

definition node_entry :: "'v node \<Rightarrow> ('v \<times> time) option" where
  "node_entry n = (case nvalue n of None \<Rightarrow> None | Some v \<Rightarrow> Some (v, lastSeen n))"

definition entries :: "'v node \<Rightarrow> u64 list \<Rightarrow> ('v \<times> time) option" where
  "entries n p = Option.bind (find_node n p) node_entry"

definition stale :: "options \<Rightarrow> time \<Rightarrow> time \<Rightarrow> bool" where
  "stale os now ls \<longleftrightarrow> TTL os > 0 \<and> time_sub now ls > TTL os"

definition live :: "options \<Rightarrow> time \<Rightarrow> 'v node \<Rightarrow> u64 list \<Rightarrow> bool" where
  "live os now n p \<longleftrightarrow> (case entries n p of None \<Rightarrow> False | Some (v, ls) \<Rightarrow> \<not> stale os now ls)"

text \<open>Well-formed nodes: distinct keys among siblings; tidy: no branch without a value.\<close>

fun wf_node :: "'v node \<Rightarrow> bool" where
  "wf_node (Node cs v ls) \<longleftrightarrow> distinct (gm_keys cs) \<and> (\<forall>(k, c) \<in> set cs. wf_node c)"

fun tidy_node :: "'v node \<Rightarrow> bool" where
  "tidy_node (Node cs v ls) \<longleftrightarrow>
     (\<forall>(k, c) \<in> set cs. (nvalue c \<noteq> None \<or> children c \<noteq> []) \<and> tidy_node c)"

fun count_values :: "'v node \<Rightarrow> int" where
  "count_values (Node cs v ls) =
     (if v = None then 0 else 1) + sum_list (map (\<lambda>(k, c). count_values c) cs)"

definition tree_ok :: "'v tree \<Rightarrow> bool" where
  "tree_ok t \<longleftrightarrow> wf_node (troot t) \<and> tidy_node (troot t) \<and> nvalue (troot t) = None
     \<and> tsize t = count_values (troot t)"

lemma expired_stale: "expired os n now \<longleftrightarrow> stale os now (lastSeen n)"
  by (simp add: expired_def stale_def)

lemma entries_Nil [simp]: "entries n [] = node_entry n"
  by (simp add: entries_def)

lemma entries_Cons [simp]:
  "entries n (k # ks) = (case gm_get (children n) k of None \<Rightarrow> None | Some c \<Rightarrow> entries c ks)"
  by (simp add: entries_def split: option.splits)

lemma wf_node_iff:
  "wf_node n \<longleftrightarrow> distinct (gm_keys (children n)) \<and> (\<forall>(k, c) \<in> set (children n). wf_node c)"
  by (cases n) simp

lemma tidy_node_iff:
  "tidy_node n \<longleftrightarrow>
     (\<forall>(k, c) \<in> set (children n). (nvalue c \<noteq> None \<or> children c \<noteq> []) \<and> tidy_node c)"
  by (cases n) simp

lemma count_values_unfold:
  "count_values n =
     (if nvalue n = None then 0 else 1) + sum_list (map (\<lambda>(k, c). count_values c) (children n))"
  by (cases n) simp

lemma wf_child: "wf_node n \<Longrightarrow> gm_get (children n) k = Some c \<Longrightarrow> wf_node c"
  using wf_node_iff [of n] by (auto dest: gm_entry_in)

section \<open>LongestMatch\<close>

lemma longestMatchLoop_spec:
  "(\<exists>d v ls. 0 < d \<and> d \<le> length ks \<and> entries cur (take d ks) = Some (v, ls) \<and> \<not> stale os now ls
      \<and> (\<forall>d'. d < d' \<and> d' \<le> length ks \<longrightarrow> \<not> live os now cur (take d' ks))
      \<and> longestMatchLoop os now ks i cur best = Some (v, i + d))
   \<or> (\<forall>d. 0 < d \<and> d \<le> length ks \<longrightarrow> \<not> live os now cur (take d ks))
      \<and> longestMatchLoop os now ks i cur best = best"
proof (induction ks arbitrary: i cur best)
  case Nil
  then show ?case by simp
next
  case (Cons k ks)
  show ?case
  proof (cases "gm_get (children cur) k")
    case None
    then have "\<not> live os now cur (take d (k # ks))" if "0 < d" for d
      using that by (cases d) (auto simp: live_def)
    with None show ?thesis by simp
  next
    case (Some nxt)
    let ?best = "case nvalue nxt of None \<Rightarrow> best
                 | Some v \<Rightarrow> if \<not> expired os nxt now then Some (v, i + 1) else best"
    have live_Suc: "live os now cur (take (Suc d) (k # ks)) \<longleftrightarrow> live os now nxt (take d ks)" for d
      using Some by (simp add: live_def)
    have e_Suc: "entries cur (take (Suc d) (k # ks)) = entries nxt (take d ks)" for d
      using Some by simp
    have run: "longestMatchLoop os now (k # ks) i cur best = longestMatchLoop os now ks (i + 1) nxt ?best"
      using Some by simp
    from Cons.IH [of nxt "i + 1" ?best] show ?thesis
    proof (elim disjE exE conjE)
      fix d v ls
      assume d: "0 < d" "d \<le> length ks" "entries nxt (take d ks) = Some (v, ls)" "\<not> stale os now ls"
        and mx: "\<forall>d'. d < d' \<and> d' \<le> length ks \<longrightarrow> \<not> live os now nxt (take d' ks)"
        and r: "longestMatchLoop os now ks (i + 1) nxt ?best = Some (v, i + 1 + d)"
      have "\<not> live os now cur (take d' (k # ks))" if "Suc d < d'" "d' \<le> length (k # ks)" for d'
        using mx that live_Suc by (cases d') auto
      moreover have "entries cur (take (Suc d) (k # ks)) = Some (v, ls)" using e_Suc d by simp
      moreover have "longestMatchLoop os now (k # ks) i cur best = Some (v, i + Suc d)"
        using run r by simp
      ultimately show ?thesis using d by (intro disjI1 exI [of _ "Suc d"] exI [of _ v] exI [of _ ls]) auto
    next
      assume none: "\<forall>d. 0 < d \<and> d \<le> length ks \<longrightarrow> \<not> live os now nxt (take d ks)"
        and r: "longestMatchLoop os now ks (i + 1) nxt ?best = ?best"
      have later: "\<not> live os now cur (take d (k # ks))" if "1 < d" "d \<le> length (k # ks)" for d
        using none that live_Suc by (cases d) auto
      show ?thesis
      proof (cases "live os now nxt []")
        case True
        then obtain v where v: "nvalue nxt = Some v" "\<not> stale os now (lastSeen nxt)"
          by (auto simp: live_def node_entry_def split: option.splits)
        then have "?best = Some (v, i + 1)" by (simp add: expired_stale)
        moreover have "entries cur (take 1 (k # ks)) = Some (v, lastSeen nxt)"
          using e_Suc [of 0] v by (simp add: node_entry_def)
        ultimately show ?thesis using run r v later
          by (intro disjI1 exI [of _ 1] exI [of _ v] exI [of _ "lastSeen nxt"]) auto
      next
        case False
        then have "?best = best"
          by (auto simp: live_def node_entry_def expired_stale split: option.splits)
        moreover have "\<not> live os now cur (take d (k # ks))" if "0 < d" "d \<le> length (k # ks)" for d
          using later [of d] live_Suc [of 0] False that by (cases "d = 1") auto
        ultimately show ?thesis using run r by auto
      qed
    qed
  qed
qed

section \<open>Insert\<close>

abbreviation stamped :: "'v node \<Rightarrow> u64 \<Rightarrow> 'v \<Rightarrow> time \<Rightarrow> 'v node" where
  "stamped n k v now \<equiv> Node (children (child_or_new n k)) (Some v) now"

abbreviation size_after :: "'v node \<Rightarrow> u64 \<Rightarrow> int \<Rightarrow> int" where
  "size_after n k sz \<equiv> (if nvalue (child_or_new n k) = None then sz + 1 else sz)"

lemma insertLoop_Cons:
  "fst (insertLoop (k # ks) v now n sz) =
     Node (gm_put k (fst (insertLoop ks v now (stamped n k v now) (size_after n k sz))) (children n))
       (nvalue n) (lastSeen n)"
  "snd (insertLoop (k # ks) v now n sz) =
     snd (insertLoop ks v now (stamped n k v now) (size_after n k sz))"
  by (simp_all add: Let_def split: prod.splits)

lemma insertLoop_root: "nvalue (fst (insertLoop ks v now n sz)) = nvalue n
    \<and> lastSeen (fst (insertLoop ks v now n sz)) = lastSeen n"
  by (cases ks) (simp_all add: insertLoop_Cons del: insertLoop.simps(2))

lemma insertLoop_entries:
  "entries (fst (insertLoop ks v now n sz)) p =
     (if p \<noteq> [] \<and> prefix p ks then Some (v, now) else entries n p)"
proof (induction ks arbitrary: n sz p)
  case Nil
  then show ?case by simp
next
  case (Cons k ks)
  show ?case
  proof (cases p)
    case Nil
    then show ?thesis
      by (auto simp: node_entry_def insertLoop_root simp del: insertLoop.simps split: option.splits)
  next
    case (Cons q qs)
    have "entries (stamped n k v now) qs =
        (if qs = [] then Some (v, now) else entries (child_or_new n k) qs)"
      by (cases qs) (auto simp: node_entry_def)
    moreover have "entries n (k # qs) = entries (child_or_new n k) qs" if "qs \<noteq> []"
      using that by (cases qs) (auto simp: child_or_new_def split: option.splits)
    ultimately show ?thesis
      using Cons Cons.IH [of "stamped n k v now" "size_after n k sz" qs]
      by (auto simp: insertLoop_Cons gm_get_put simp del: insertLoop.simps)
  qed
qed

lemma wf_stamped: "wf_node n \<Longrightarrow> wf_node (stamped n k v now)"
  using wf_child [of n k] wf_node_iff [of "child_or_new n k"]
  by (auto simp: child_or_new_def split: option.splits)

lemma insertLoop_wf: "wf_node n \<Longrightarrow> wf_node (fst (insertLoop ks v now n sz))"
proof (induction ks arbitrary: n sz)
  case Nil
  then show ?case by simp
next
  case (Cons k ks)
  let ?c = "fst (insertLoop ks v now (stamped n k v now) (size_after n k sz))"
  have "wf_node ?c" using Cons.IH [OF wf_stamped [OF Cons.prems]] .
  with Cons.prems wf_node_iff [of n] set_gm_put [of k ?c "children n"] show ?case
    by (fastforce simp: insertLoop_Cons simp del: insertLoop.simps)
qed

lemma tidy_stamped: "tidy_node n \<Longrightarrow> tidy_node (stamped n k v now)"
proof -
  assume "tidy_node n"
  then have "tidy_node (child_or_new n k)"
    using tidy_node_iff [of n] by (auto simp: child_or_new_def split: option.splits dest: gm_entry_in)
  then show ?thesis using tidy_node_iff [of "child_or_new n k"] by auto
qed

lemma insertLoop_tidy: "tidy_node n \<Longrightarrow> tidy_node (fst (insertLoop ks v now n sz))"
proof (induction ks arbitrary: n sz)
  case Nil
  then show ?case by simp
next
  case (Cons k ks)
  let ?c = "fst (insertLoop ks v now (stamped n k v now) (size_after n k sz))"
  have "tidy_node ?c" using Cons.IH [OF tidy_stamped [OF Cons.prems]] .
  moreover have "nvalue ?c = Some v" using insertLoop_root [of ks v now "stamped n k v now"] by simp
  ultimately show ?case using Cons.prems tidy_node_iff [of n] set_gm_put [of k ?c "children n"]
    by (fastforce simp: insertLoop_Cons simp del: insertLoop.simps)
qed

lemma sum_list_gm_put:
  "distinct (gm_keys cs) \<Longrightarrow>
     sum_list (map (\<lambda>(k, c). f c) (gm_put k c cs)) =
     sum_list (map (\<lambda>(k, c). f c) cs) + f c - (case gm_get cs k of None \<Rightarrow> 0 | Some c0 \<Rightarrow> f c0)"
  for f :: "'a \<Rightarrow> int"
proof (induction cs)
  case Nil
  then show ?case by simp
next
  case (Cons p cs)
  then show ?case by (cases p) (auto split: option.splits)
qed

lemma count_child_or_new:
  "count_values (child_or_new n k) =
     (case gm_get (children n) k of None \<Rightarrow> 0 | Some c0 \<Rightarrow> count_values c0)"
  by (auto simp: child_or_new_def split: option.splits)

lemma insertLoop_count:
  "wf_node n \<Longrightarrow> snd (insertLoop ks v now n sz) - sz =
     count_values (fst (insertLoop ks v now n sz)) - count_values n"
proof (induction ks arbitrary: n sz)
  case Nil
  then show ?case by simp
next
  case (Cons k ks)
  let ?r = "insertLoop ks v now (stamped n k v now) (size_after n k sz)"
  have "snd ?r - size_after n k sz = count_values (fst ?r) - count_values (stamped n k v now)"
    using Cons.IH [OF wf_stamped [OF Cons.prems]] .
  moreover have "count_values (stamped n k v now) =
      count_values (child_or_new n k) + (size_after n k sz - sz)"
    using count_values_unfold [of "child_or_new n k"] by simp
  ultimately have "snd ?r - sz = count_values (fst ?r) - count_values (child_or_new n k)" by linarith
  moreover have "count_values (fst (insertLoop (k # ks) v now n sz)) =
      count_values n + count_values (fst ?r) - count_values (child_or_new n k)"
    using Cons.prems wf_node_iff [of n] count_values_unfold [of n]
    by (simp add: insertLoop_Cons sum_list_gm_put count_child_or_new del: insertLoop.simps)
  ultimately show ?case by (simp add: insertLoop_Cons del: insertLoop.simps)
qed

section \<open>Pruning\<close>

text \<open>
  The three callers clear a node by its path, its value and its time: \<open>clears f\<close> is such a
  predicate, and what a prune does to the content is \<open>kept f\<close>.
\<close>

definition clears :: "(u64 list \<Rightarrow> 'v \<Rightarrow> time \<Rightarrow> bool) \<Rightarrow> u64 list \<Rightarrow> 'v node \<Rightarrow> bool" where
  "clears f p n = (case nvalue n of None \<Rightarrow> False | Some v \<Rightarrow> f p v (lastSeen n))"

definition kept :: "(u64 list \<Rightarrow> 'v \<Rightarrow> time \<Rightarrow> bool) \<Rightarrow> u64 list \<Rightarrow> ('v \<times> time) option \<Rightarrow> ('v \<times> time) option" where
  "kept f p e = (case e of None \<Rightarrow> None | Some (v, ls) \<Rightarrow> if f p v ls then None else Some (v, ls))"

lemma kept_None [simp]: "kept f p None = None"
  by (simp add: kept_def)

abbreviation pruned :: "(u64 list \<Rightarrow> 'v \<Rightarrow> time \<Rightarrow> bool) \<Rightarrow> u64 list \<Rightarrow> 'v node \<Rightarrow> int \<Rightarrow> 'v node" where
  "pruned f p n sz \<equiv> fst (snd (pruneWalk (clears f) p n sz))"

lemma pruneWalk_fst:
  "fst (pruneWalk sc p n sz) \<longleftrightarrow>
     p \<noteq> [] \<and> nvalue (fst (snd (pruneWalk sc p n sz))) = None \<and> children (fst (snd (pruneWalk sc p n sz))) = []"
  by (cases n) (auto simp: Let_def split: prod.splits)

lemma pruneWalk_node:
  "fst (snd (pruneWalk (clears f) p (Node cs v ls) sz)) =
     Node (fst (pruneWalkChildren (clears f) p cs sz))
       (map_option fst (kept f p (node_entry (Node cs v ls)))) ls"
  by (auto simp: Let_def clears_def kept_def node_entry_def split: prod.splits option.splits)

lemma pruneWalkChildren_Cons:
  "fst (pruneWalkChildren sc p ((k, c) # cs) sz) =
     (let r = pruneWalk sc (p @ [k]) c sz;
          rest = fst (pruneWalkChildren sc p cs (snd (snd r)))
      in if fst r then rest else (k, fst (snd r)) # rest)"
  by (auto simp: Let_def split: prod.splits)

lemma pruneWalkChildren_keys:
  "set (gm_keys (fst (pruneWalkChildren sc p cs sz))) \<subseteq> set (gm_keys cs)
   \<and> (distinct (gm_keys cs) \<longrightarrow> distinct (gm_keys (fst (pruneWalkChildren sc p cs sz))))"
proof (induction cs arbitrary: sz)
  case Nil
  then show ?case by simp
next
  case (Cons a cs)
  obtain k c where a: "a = (k, c)" by (cases a)
  have "set (gm_keys (fst (pruneWalkChildren sc p cs z))) \<subseteq> set (gm_keys cs)
      \<and> (distinct (gm_keys cs) \<longrightarrow> distinct (gm_keys (fst (pruneWalkChildren sc p cs z))))" for z
    by (rule Cons.IH)
  then show ?case
    by (simp add: a pruneWalkChildren_Cons Let_def del: pruneWalkChildren.simps) blast
qed

lemma dead_entries: "nvalue n = None \<Longrightarrow> children n = [] \<Longrightarrow> entries n q = None"
  by (cases q) (auto simp: node_entry_def)

lemma pruned_entries:
  shows "wf_node n \<Longrightarrow> entries (pruned f p n sz) q = kept f (p @ q) (entries n q)"
    and "distinct (gm_keys cs) \<Longrightarrow> (\<forall>(k, c) \<in> set cs. wf_node c) \<Longrightarrow>
      (case gm_get (fst (pruneWalkChildren (clears f) p cs sz)) k of None \<Rightarrow> None | Some c \<Rightarrow> entries c q) =
        kept f (p @ k # q) (case gm_get cs k of None \<Rightarrow> None | Some c \<Rightarrow> entries c q)"
proof (induction "clears f" p n sz and "clears f" p cs sz arbitrary: q and k q
    rule: pruneWalk_pruneWalkChildren.induct)
  case (1 p cs v ls sz)
  show ?case
  proof (cases q)
    case Nil
    then show ?thesis
      by (auto simp: pruneWalk_node node_entry_def kept_def simp del: pruneWalk.simps split: option.splits if_splits)
  next
    case (Cons k qs)
    with 1 show ?thesis by (simp add: pruneWalk_node del: pruneWalk.simps)
  qed
next
  case (2 p sz)
  then show ?case by simp
next
  case (3 p k' c cs sz)
  let ?r = "pruneWalk (clears f) (p @ [k']) c sz"
  have c: "entries (fst (snd ?r)) q = kept f (p @ k' # q) (entries c q)" for q
    using 3(1) 3(4) by simp
  have rest: "(case gm_get (fst (pruneWalkChildren (clears f) p cs (snd (snd ?r)))) k of None \<Rightarrow> None | Some c \<Rightarrow> entries c q) =
        kept f (p @ k # q) (case gm_get cs k of None \<Rightarrow> None | Some c \<Rightarrow> entries c q)" for k q
    using 3(2) [OF refl prod.collapse prod.collapse] 3(3,4) by simp
  show ?case
  proof (cases "fst ?r")
    case True
    have dead: "entries (fst (snd ?r)) q = None"
      using True pruneWalk_fst [of "clears f" "p @ [k']" c sz] by (intro dead_entries) auto
    have "k' \<notin> set (gm_keys cs)" using 3(3) by simp
    then have none: "gm_get cs k' = None" by (simp add: gm_get_None_iff)
    show ?thesis
    proof (cases "k = k'")
      case True
      with rest [where k = k' and q = q] none c dead \<open>fst ?r\<close> show ?thesis
        by (simp add: pruneWalkChildren_Cons del: pruneWalkChildren.simps)
    next
      case False
      with rest \<open>fst ?r\<close> show ?thesis by (simp add: pruneWalkChildren_Cons del: pruneWalkChildren.simps)
    qed
  next
    case False
    with c rest show ?thesis by (simp add: pruneWalkChildren_Cons Let_def del: pruneWalkChildren.simps)
  qed
qed


lemma pruneWalk_wf:
  shows "wf_node n \<Longrightarrow> wf_node (fst (snd (pruneWalk sc p n sz)))"
    and "distinct (gm_keys cs) \<Longrightarrow> (\<forall>(k, c) \<in> set cs. wf_node c) \<Longrightarrow>
      (\<forall>(k, c) \<in> set (fst (pruneWalkChildren sc p cs sz)). wf_node c)"
proof (induction sc p n sz and sc p cs sz rule: pruneWalk_pruneWalkChildren.induct)
  case (1 sc p cs v ls sz)
  then show ?case
    using pruneWalkChildren_keys [of sc p cs sz] by (auto simp: Let_def split: prod.splits)
next
  case (2 sc p sz)
  then show ?case by simp
next
  case (3 sc p k c cs sz)
  then show ?case
    using 3(2) [OF refl prod.collapse prod.collapse]
    by (auto simp: pruneWalkChildren_Cons Let_def simp del: pruneWalkChildren.simps split: if_splits)
qed

lemma pruneWalk_tidy:
  shows "tidy_node (fst (snd (pruneWalk sc p n sz)))"
    and "\<forall>(k, c) \<in> set (fst (pruneWalkChildren sc p cs sz)).
      (nvalue c \<noteq> None \<or> children c \<noteq> []) \<and> tidy_node c"
proof (induction sc p n sz and sc p cs sz rule: pruneWalk_pruneWalkChildren.induct)
  case (1 sc p cs v ls sz)
  then show ?case by (auto simp: Let_def split: prod.splits)
next
  case (2 sc p sz)
  then show ?case by simp
next
  case (3 sc p k c cs sz)
  let ?r = "pruneWalk sc (p @ [k]) c sz"
  have rest: "\<forall>(k, c) \<in> set (fst (pruneWalkChildren sc p cs (snd (snd ?r)))).
      (nvalue c \<noteq> None \<or> children c \<noteq> []) \<and> tidy_node c"
    using 3(2) [OF refl prod.collapse prod.collapse] .
  show ?case
  proof (cases "fst ?r")
    case True
    with rest show ?thesis by (simp add: pruneWalkChildren_Cons del: pruneWalkChildren.simps)
  next
    case False
    then have "nvalue (fst (snd ?r)) \<noteq> None \<or> children (fst (snd ?r)) \<noteq> []"
      using pruneWalk_fst [of sc "p @ [k]" c sz] by simp
    with False rest 3(1) show ?thesis
      by (simp add: pruneWalkChildren_Cons Let_def del: pruneWalkChildren.simps)
  qed
qed

lemma dead_count: "nvalue n = None \<Longrightarrow> children n = [] \<Longrightarrow> count_values n = 0"
  by (cases n) simp

lemma pruneWalk_count:
  shows "snd (snd (pruneWalk sc p n sz)) - sz = count_values (fst (snd (pruneWalk sc p n sz))) - count_values n"
    and "snd (pruneWalkChildren sc p cs sz) - sz =
      sum_list (map (\<lambda>(k, c). count_values c) (fst (pruneWalkChildren sc p cs sz)))
      - sum_list (map (\<lambda>(k, c). count_values c) cs)"
proof (induction sc p n sz and sc p cs sz rule: pruneWalk_pruneWalkChildren.induct)
  case (1 sc p cs v ls sz)
  then show ?case by (auto simp: Let_def split: prod.splits)
next
  case (2 sc p sz)
  then show ?case by simp
next
  case (3 sc p k c cs sz)
  let ?r = "pruneWalk sc (p @ [k]) c sz"
  have snd_eq: "snd (pruneWalkChildren sc p ((k, c) # cs) sz) = snd (pruneWalkChildren sc p cs (snd (snd ?r)))"
    by (auto simp: Let_def split: prod.splits)
  have dead: "count_values (fst (snd ?r)) = 0" if "fst ?r"
    using that pruneWalk_fst [of sc "p @ [k]" c sz] by (intro dead_count) auto
  show ?case
    unfolding snd_eq pruneWalkChildren_Cons
    using 3(1) 3(2) [OF refl prod.collapse prod.collapse] dead
    by (cases "fst ?r") (simp_all add: Let_def)
qed

lemma prune_entries:
  "wf_node (troot t) \<Longrightarrow> entries (troot (prune (clears f) t)) p = kept f p (entries (troot t) p)"
  using pruned_entries(1) [of "troot t" f "[]" "tsize t" p] by (auto simp: prune_def split: prod.splits)

lemma prune_opts [simp]: "opts (prune sc t) = opts t"
  by (auto simp: prune_def split: prod.splits)

lemma prune_ok: "tree_ok t \<Longrightarrow> tree_ok (prune sc t)"
proof -
  assume ok: "tree_ok t"
  let ?r = "pruneWalk sc [] (troot t) (tsize t)"
  have "nvalue (fst (snd ?r)) = None"
    using ok by (cases "troot t") (auto simp: tree_ok_def Let_def split: prod.splits)
  with ok pruneWalk_wf(1) [of "troot t" sc "[]" "tsize t"] pruneWalk_tidy(1) [of sc "[]" "troot t" "tsize t"]
    pruneWalk_count(1) [of sc "[]" "troot t" "tsize t"]
  show ?thesis by (auto simp: tree_ok_def prune_def split: prod.splits)
qed

lemma ex_list_Cons_iff: "(\<exists>xs. P xs) \<longleftrightarrow> P [] \<or> (\<exists>x xs. P (x # xs))"
  by (metis list.exhaust)

section \<open>The walks as loops over the entries\<close>

text \<open>
  The three read-only walks visit the value-bearing nodes in the same order: they are folds over
  \<open>entry_list\<close>, the entries in that order.
\<close>

fun entry_list :: "u64 list \<Rightarrow> 'v node \<Rightarrow> (u64 list \<times> 'v \<times> time) list"
and entry_list_children :: "u64 list \<Rightarrow> (u64 \<times> 'v node) list \<Rightarrow> (u64 list \<times> 'v \<times> time) list" where
  "entry_list p (Node cs v ls) = (case v of None \<Rightarrow> [] | Some x \<Rightarrow> [(p, x, ls)]) @ entry_list_children p cs"
| "entry_list_children p [] = []"
| "entry_list_children p ((k, c) # cs) = entry_list (p @ [k]) c @ entry_list_children p cs"

lemma entry_list_iff:
  shows "wf_node n \<Longrightarrow>
      (q, v, ls) \<in> set (entry_list p n) \<longleftrightarrow> (\<exists>r. q = p @ r \<and> entries n r = Some (v, ls))"
    and "wf_node (Node cs None 0) \<Longrightarrow>
      (q, v, ls) \<in> set (entry_list_children p cs) \<longleftrightarrow>
        (\<exists>k r. q = p @ k # r \<and> entries (Node cs None 0) (k # r) = Some (v, ls))"
proof (induction p n and p cs rule: entry_list_entry_list_children.induct)
  case (1 p cs w l)
  have "(\<exists>r. q = p @ r \<and> entries (Node cs w l) r = Some (v, ls)) \<longleftrightarrow>
      q = p \<and> w = Some v \<and> l = ls \<or> (\<exists>k r. q = p @ k # r \<and> entries (Node cs None 0) (k # r) = Some (v, ls))"
    by (subst ex_list_Cons_iff) (auto simp: node_entry_def split: option.splits)
  with 1 show ?case by (auto simp del: entries_Cons split: option.splits)
next
  case (2 p)
  then show ?case by simp
next
  case (3 p k c cs)
  have k: "gm_get cs k = None" using 3 by (simp add: gm_get_None_iff)
  from 3 have "(q, v, ls) \<in> set (entry_list_children p ((k, c) # cs)) \<longleftrightarrow>
      (\<exists>r. q = (p @ [k]) @ r \<and> entries c r = Some (v, ls))
      \<or> (\<exists>k' r. q = p @ k' # r \<and> entries (Node cs None 0) (k' # r) = Some (v, ls))"
    by simp
  moreover have "entries (Node ((k, c) # cs) None 0) (k # r) = entries c r"
    and "k' \<noteq> k \<Longrightarrow> entries (Node ((k, c) # cs) None 0) (k' # r) = entries (Node cs None 0) (k' # r)"
    and "entries (Node cs None 0) (k # r) = None" for k' r
    using k by auto
  ultimately show ?case
    by (simp del: entries_Cons entry_list_children.simps) (metis option.distinct(1))
qed


interpretation older: strict_weak "\<lambda>(a :: u64 list \<times> time) b. snd a < snd b"
  by unfold_locales auto

definition victim_step :: "u64 list \<times> 'v \<times> time \<Rightarrow> (u64 list \<times> time) option \<Rightarrow> (u64 list \<times> time) option" where
  "victim_step e victim = (case e of (p, v, ls) \<Rightarrow>
     (case victim of None \<Rightarrow> Some (p, ls)
      | Some (vp, vls) \<Rightarrow> if ls < vls then Some (p, ls) else victim))"

lemma victimWalk_fold:
  fixes n :: "'v node" and cs :: "(u64 \<times> 'v node) list"
  shows "victimWalk p n acc = fold victim_step (entry_list p n) acc"
    and "victimWalkChildren p cs acc = fold victim_step (entry_list_children p cs) acc"
  by (induction p n acc and p cs acc rule: victimWalk_victimWalkChildren.induct)
    (auto simp: victim_step_def split: option.splits)

lemma victim_fold_Some:
  "fold victim_step es (Some b) =
     Some (best_of (\<lambda>a b. snd a < snd b) b (map (\<lambda>(p, v, ls). (p, ls)) es))"
  by (induction es arbitrary: b) (auto simp: victim_step_def split: option.splits)

lemma victimWalk_oldest:
  assumes "wf_node n" and "victimWalk [] n None = Some (p, t)"
  shows "(\<exists>v. entries n p = Some (v, t)) \<and> (\<forall>q v ls. entries n q = Some (v, ls) \<longrightarrow> t \<le> ls)"
proof -
  let ?es = "entry_list [] n" and ?pt = "\<lambda>(p, v, ls :: time). (p, ls)"
  from assms(2) obtain e es where es: "?es = e # es"
    by (cases ?es) (auto simp: victimWalk_fold)
  with assms(2) have b: "(p, t) = best_of (\<lambda>a b. snd a < snd b) (?pt e) (map ?pt es)"
    by (cases e) (simp add: victimWalk_fold victim_step_def victim_fold_Some)
  have "(p, t) \<in> ?pt ` set ?es"
    using best_of_in [of "\<lambda>a b. snd a < snd b" "?pt e" "map ?pt es"] b es by auto
  then have "\<exists>v. entries n p = Some (v, t)" using entry_list_iff(1) [OF assms(1)] by fastforce
  moreover have "t \<le> ls" if "entries n q = Some (v, ls)" for q v ls
  proof -
    have "(q, v, ls) \<in> set ?es" using that entry_list_iff(1) [OF assms(1)] by fastforce
    then have "(q, ls) \<in> insert (?pt e) (set (map ?pt es))" using es by force
    from older.best_of_best [OF this] b show ?thesis by (metis not_less snd_conv)
  qed
  ultimately show ?thesis by blast
qed

lemma victimWalk_None:
  "wf_node n \<Longrightarrow> victimWalk [] n None = None \<Longrightarrow> entries n q = None"
proof (rule ccontr)
  assume wf: "wf_node n" and none: "victimWalk [] n None = None" and "entries n q \<noteq> None"
  then obtain v ls where "entries n q = Some (v, ls)" by auto
  then have "(q, v, ls) \<in> set (entry_list [] n)" using entry_list_iff(1) [OF wf] by fastforce
  then show False using none
    by (cases "entry_list [] n") (auto simp: victimWalk_fold victim_step_def victim_fold_Some)
qed

lemma count_values_length:
  fixes n :: "'v node" and cs :: "(u64 \<times> 'v node) list"
  shows "count_values n = int (length (entry_list p n))"
    and "sum_list (map (\<lambda>(k, c). count_values c) cs) = int (length (entry_list_children p cs))"
  by (induction p n and p cs rule: entry_list_entry_list_children.induct) (auto split: option.splits)

lemma entry_list_paths_distinct:
  fixes n :: "'v node" and cs :: "(u64 \<times> 'v node) list"
  shows "wf_node n \<Longrightarrow> distinct (map fst (entry_list p n))"
    and "wf_node (Node cs None 0) \<Longrightarrow> distinct (map fst (entry_list_children p cs))"
proof (induction p n and p cs rule: entry_list_entry_list_children.induct)
  case (1 p cs v ls)
  have "p \<notin> fst ` set (entry_list_children p cs)"
    using 1 entry_list_iff(2) [of cs] by fastforce
  with 1 show ?case by (auto split: option.splits)
next
  case (2 p)
  then show ?case by simp
next
  case (3 p k c cs)
  have k: "gm_get cs k = None" and wf: "wf_node c" "wf_node (Node cs None 0)"
    using 3 by (auto simp: gm_get_None_iff)
  have "\<not> (q \<in> fst ` set (entry_list (p @ [k]) c) \<and> q \<in> fst ` set (entry_list_children p cs))" for q
  proof
    assume q: "q \<in> fst ` set (entry_list (p @ [k]) c) \<and> q \<in> fst ` set (entry_list_children p cs)"
    then obtain r where "q = p @ k # r" using entry_list_iff(1) [OF wf(1)] by fastforce
    with q k show False using entry_list_iff(2) [OF wf(2)] by fastforce
  qed
  with 3 wf show ?case by (auto simp: disjoint_iff)
qed

lemma count_values_card:
  assumes "wf_node n"
  shows "count_values n = int (card {p. entries n p \<noteq> None})"
proof -
  have "{p. entries n p \<noteq> None} = set (map fst (entry_list [] n))"
    using entry_list_iff(1) [OF assms, of _ _ _ "[]"] by (force simp: image_iff)
  then have "card {p. entries n p \<noteq> None} = length (entry_list [] n)"
    using distinct_card [OF entry_list_paths_distinct(1) [OF assms, of "[]"]] by simp
  then show ?thesis by (simp add: count_values_length(1) [of n "[]"])
qed


definition score :: "options \<Rightarrow> time \<Rightarrow> time \<Rightarrow> real" where
  "score os now ls = contribution os (Node [] (None :: unit option) ls) now"

lemma contribution_score: "contribution os n now = score os now (lastSeen n)"
  by (simp add: score_def contribution_def)

definition weight_step :: "options \<Rightarrow> time \<Rightarrow> 'v \<Rightarrow> u64 list \<times> 'v \<times> time \<Rightarrow> real \<Rightarrow> real" where
  "weight_step os now v e acc =
     (case e of (p, w, ls) \<Rightarrow> if w = v \<and> \<not> stale os now ls then acc + score os now ls else acc)"

definition weights_step ::
  "options \<Rightarrow> time \<Rightarrow> u64 list \<times> 'v \<times> time \<Rightarrow> ('v, real) gomap \<Rightarrow> ('v, real) gomap" where
  "weights_step os now e res =
     (case e of (p, w, ls) \<Rightarrow>
        if \<not> stale os now ls
        then (case gm_get res w of None \<Rightarrow> res | Some r \<Rightarrow> gm_put w (r + score os now ls) res)
        else res)"

lemma weightWalk_fold:
  fixes n :: "'v node" and cs :: "(u64 \<times> 'v node) list"
  shows "weightWalk os v now n acc = fold (weight_step os now v) (entry_list p n) acc"
    and "weightWalkChildren os v now cs acc = fold (weight_step os now v) (entry_list_children p cs) acc"
  by (induction p n and p cs arbitrary: acc and acc rule: entry_list_entry_list_children.induct)
    (auto simp: weight_step_def expired_stale contribution_score split: option.splits)

lemma weightsWalk_fold:
  fixes n :: "'v node" and cs :: "(u64 \<times> 'v node) list"
  shows "weightsWalk os now n res = fold (weights_step os now) (entry_list p n) res"
    and "weightsWalkChildren os now cs res = fold (weights_step os now) (entry_list_children p cs) res"
  by (induction p n and p cs arbitrary: res and res rule: entry_list_entry_list_children.induct)
    (auto simp: weights_step_def expired_stale contribution_score split: option.splits)

lemma weights_step_get:
  "gm_get (weights_step os now e res) v = map_option (weight_step os now v e) (gm_get res v)"
  by (cases e; cases "gm_get res v") (auto simp: weights_step_def weight_step_def gm_get_put split: option.splits)

lemma weights_fold_get:
  "gm_get (fold (weights_step os now) es res) v = map_option (fold (weight_step os now v) es) (gm_get res v)"
  by (induction es arbitrary: res) (auto simp: weights_step_get option.map_comp comp_def option.map_id)

lemma weights_init_get: "gm_get (fold (\<lambda>v. gm_put v (0 :: real)) vs res) v =
    (if v \<in> set vs then Some 0 else gm_get res v)"
  by (induction vs arbitrary: res) (auto simp: gm_get_put)

section \<open>Sequences of operations\<close>

datatype 'v tree_op =
    OpInsert "u64 list" 'v time
  | OpEvict time
  | OpRemoveFunc "'v \<Rightarrow> bool"
  | OpRemove 'v

fun tree_apply :: "'v tree_op \<Rightarrow> 'v tree \<Rightarrow> 'v tree" where
  "tree_apply (OpInsert key v now) t = Insert key v now t"
| "tree_apply (OpEvict now) t = Evict now t"
| "tree_apply (OpRemoveFunc pred) t = RemoveFunc pred t"
| "tree_apply (OpRemove v) t = Remove v t"

lemma New_ok: "tree_ok (New os)"
  by (simp add: New_def tree_ok_def)

lemma evictOldestLocked_ok: "tree_ok t \<Longrightarrow> tree_ok (evictOldestLocked t)"
  by (auto simp: evictOldestLocked_def prune_ok split: option.splits)

lemma evictOldestLocked_opts [simp]: "opts (evictOldestLocked t) = opts t"
  by (auto simp: evictOldestLocked_def split: option.splits)

lemma insert_loop_ok:
  assumes "tree_ok t"
  shows "tree_ok (t\<lparr>troot := fst (insertLoop key v now (troot t) (tsize t)),
                     tsize := snd (insertLoop key v now (troot t) (tsize t))\<rparr>)"
  using assms insertLoop_wf [of "troot t" key v now "tsize t"] insertLoop_tidy [of "troot t" key v now "tsize t"]
    insertLoop_count [of "troot t" key v now "tsize t"] insertLoop_root [of key v now "troot t" "tsize t"]
  by (simp add: tree_ok_def)

lemma Insert_ok: "tree_ok t \<Longrightarrow> tree_ok (Insert key v now t)"
  using insert_loop_ok [of t key v now]
  by (auto simp: Insert_def Let_def evictOldestLocked_ok split: prod.splits)

lemma tree_apply_ok: "tree_ok t \<Longrightarrow> tree_ok (tree_apply op t)"
  by (cases op) (auto simp: Insert_ok Evict_def RemoveFunc_def Remove_def prune_ok)

lemma tree_run_ok: "tree_ok t \<Longrightarrow> tree_ok (fold tree_apply ops t)"
  by (induction ops arbitrary: t) (auto simp: tree_apply_ok)

lemma tree_ok_wf: "tree_ok t \<Longrightarrow> wf_node (troot t)"
  by (simp add: tree_ok_def)

lemma tree_ok_size: "tree_ok t \<Longrightarrow> tsize t = int (card {p. entries (troot t) p \<noteq> None})"
  by (simp add: tree_ok_def count_values_card)

lemma RemoveFunc_clears: "RemoveFunc pred t = prune (clears (\<lambda>p v ls. pred v)) t"
  by (simp add: RemoveFunc_def clears_def [abs_def])

lemma pruneWalk_cong:
  fixes n :: "'v node" and cs :: "(u64 \<times> 'v node) list"
  shows "(\<And>q m. nvalue m \<noteq> None \<Longrightarrow> sc q m = sc' q m) \<Longrightarrow> pruneWalk sc p n sz = pruneWalk sc' p n sz"
    and "(\<And>q m. nvalue m \<noteq> None \<Longrightarrow> sc q m = sc' q m) \<Longrightarrow>
      pruneWalkChildren sc p cs sz = pruneWalkChildren sc' p cs sz"
proof (induction sc p n sz and sc p cs sz rule: pruneWalk_pruneWalkChildren.induct)
  case (1 sc p cs v ls sz)
  then have "pruneWalkChildren sc p cs sz = pruneWalkChildren sc' p cs sz" by blast
  with 1(2) show ?case by (auto simp: Let_def split: prod.splits)
next
  case (2 sc p sz)
  then show ?case by simp
next
  case (3 sc p k c cs sz)
  then have "pruneWalk sc (p @ [k]) c sz = pruneWalk sc' (p @ [k]) c sz" by blast
  moreover from 3(2) [OF refl prod.collapse prod.collapse] 3(3)
  have "pruneWalkChildren sc p cs (snd (snd (pruneWalk sc (p @ [k]) c sz))) =
      pruneWalkChildren sc' p cs (snd (snd (pruneWalk sc (p @ [k]) c sz)))" by blast
  ultimately show ?case by (auto split: prod.splits)
qed

lemma Evict_clears: "Evict now t = prune (clears (\<lambda>p v ls. stale (opts t) now ls)) t"
proof -
  have "pruneWalk (\<lambda>p n. expired (opts t) n now) [] (troot t) (tsize t) =
      pruneWalk (clears (\<lambda>p v ls. stale (opts t) now ls)) [] (troot t) (tsize t)"
    by (rule pruneWalk_cong(1)) (auto simp: clears_def expired_stale)
  then show ?thesis by (simp add: Evict_def prune_def)
qed

lemma evict_victim_clears:
  "victimWalk [] (troot t) None = Some (victim, l) \<Longrightarrow>
     evictOldestLocked t = prune (clears (\<lambda>p v ls. p = victim)) t"
proof -
  assume "victimWalk [] (troot t) None = Some (victim, l)"
  moreover have "pruneWalk (\<lambda>p n. p = victim) [] (troot t) (tsize t) =
      pruneWalk (clears (\<lambda>p v ls. p = victim)) [] (troot t) (tsize t)"
    by (rule pruneWalk_cong(1)) (auto simp: clears_def)
  ultimately show ?thesis by (simp add: evictOldestLocked_def prune_def)
qed

text \<open>
  \<open>evictOldestLocked\<close> drops exactly one entry, one that no other was seen before, and
  nothing of an empty tree.
\<close>

lemma evictOldestLocked_one:
  assumes ok: "tree_ok t" and ne: "entries (troot t) q0 \<noteq> None"
  shows "\<exists>victim v l. entries (troot t) victim = Some (v, l)
      \<and> (\<forall>q w ls. entries (troot t) q = Some (w, ls) \<longrightarrow> l \<le> ls)
      \<and> entries (troot (evictOldestLocked t)) = (entries (troot t))(victim := None)"
proof -
  have wf: "wf_node (troot t)" using ok by (rule tree_ok_wf)
  obtain victim l where vw: "victimWalk [] (troot t) None = Some (victim, l)"
    using victimWalk_None [OF wf] ne by (cases "victimWalk [] (troot t) None") auto
  have "entries (troot (evictOldestLocked t)) = (entries (troot t))(victim := None)"
    unfolding evict_victim_clears [OF vw]
    by (rule ext) (auto simp: prune_entries [OF wf] kept_def split: option.splits)
  with victimWalk_oldest [OF wf vw] show ?thesis by blast
qed

lemma evictOldestLocked_size:
  assumes ok: "tree_ok t" and ne: "entries (troot t) q0 \<noteq> None"
  shows "tsize (evictOldestLocked t) = tsize t - 1"
proof -
  from evictOldestLocked_one [OF assms] obtain victim where
    v: "entries (troot t) victim \<noteq> None" "entries (troot (evictOldestLocked t)) = (entries (troot t))(victim := None)"
    by auto
  let ?D = "{p. entries (troot t) p \<noteq> None}"
  have fin: "finite ?D" and pos: "0 < card ?D"
  proof -
    have "?D = fst ` set (entry_list [] (troot t))"
      using entry_list_iff(1) [OF tree_ok_wf [OF ok], of _ _ _ "[]"] by (force simp: image_iff)
    then show "finite ?D" by simp
    then show "0 < card ?D" using ne by (auto simp: card_gt_0_iff)
  qed
  have "{p. entries (troot (evictOldestLocked t)) p \<noteq> None} = ?D - {victim}"
    using v by auto
  then have "card {p. entries (troot (evictOldestLocked t)) p \<noteq> None} = card ?D - 1"
    using v fin by simp
  with pos tree_ok_size [OF ok] tree_ok_size [OF evictOldestLocked_ok [OF ok]] show ?thesis by simp
qed

lemma LongestMatch_SomeD:
  assumes "LongestMatch t key now = Some (v, d)"
  shows "0 < d" "d \<le> length key"
    "\<exists>ls. entries (troot t) (take d key) = Some (v, ls) \<and> \<not> stale (opts t) now ls"
    "\<And>d'. d < d' \<Longrightarrow> d' \<le> length key \<Longrightarrow> \<not> live (opts t) now (troot t) (take d' key)"
  using assms longestMatchLoop_spec [of key "troot t" "opts t" now 0 None]
  by (auto simp: LongestMatch_def)

lemma LongestMatch_exact:
  assumes "entries (troot t) key = Some (v, ls)" and "\<not> stale (opts t) now ls" and "key \<noteq> []"
  shows "LongestMatch t key now = Some (v, length key)"
proof -
  have "live (opts t) now (troot t) (take (length key) key)" and "0 < length key"
    using assms by (auto simp: live_def)
  with longestMatchLoop_spec [of key "troot t" "opts t" now 0 None]
  obtain d w l where d: "0 < d" "d \<le> length key" "entries (troot t) (take d key) = Some (w, l)"
    "\<forall>d'. d < d' \<and> d' \<le> length key \<longrightarrow> \<not> live (opts t) now (troot t) (take d' key)"
    "LongestMatch t key now = Some (w, d)"
    unfolding LongestMatch_def by auto
  with \<open>live (opts t) now (troot t) (take (length key) key)\<close> have "d = length key"
    using d(2) by (metis le_neq_implies_less order_refl)
  with d assms(1) show ?thesis by simp
qed

lemma Insert_entries:
  assumes "MaxEntries (opts t) \<le> 0"
  shows "entries (troot (Insert key v now t)) p =
    (if p \<noteq> [] \<and> prefix p key then Some (v, now) else entries (troot t) p)"
  using assms insertLoop_entries [of key v now "troot t" "tsize t" p]
  by (auto simp: Insert_def split: prod.splits)

lemma Insert_opts [simp]: "opts (Insert key v now t) = opts t"
  by (auto simp: Insert_def Let_def split: prod.splits)

lemma RemoveFunc_entries:
  "tree_ok t \<Longrightarrow> entries (troot (RemoveFunc pred t)) p =
    (case entries (troot t) p of None \<Rightarrow> None
     | Some (v, ls) \<Rightarrow> if pred v then None else Some (v, ls))"
  using prune_entries [OF tree_ok_wf, of t "\<lambda>p v ls. pred v"]
  by (simp add: RemoveFunc_clears kept_def)

lemma Evict_entries:
  "tree_ok t \<Longrightarrow> entries (troot (Evict now t)) p =
    (case entries (troot t) p of None \<Rightarrow> None
     | Some (v, ls) \<Rightarrow> if stale (opts t) now ls then None else Some (v, ls))"
  using prune_entries [OF tree_ok_wf, of t "\<lambda>p v ls. stale (opts t) now ls"]
  by (simp add: Evict_clears kept_def)

lemma RemoveFunc_ok: "tree_ok t \<Longrightarrow> tree_ok (RemoveFunc pred t)"
  by (simp add: RemoveFunc_def prune_ok)

lemma Evict_ok: "tree_ok t \<Longrightarrow> tree_ok (Evict now t)"
  by (simp add: Evict_def prune_ok)

lemma RemoveFunc_opts [simp]: "opts (RemoveFunc pred t) = opts t"
  by (simp add: RemoveFunc_def)

lemma Evict_opts [simp]: "opts (Evict now t) = opts t"
  by (simp add: Evict_def)

lemma WeightsFor_get:
  "gm_get (WeightsFor t vs now) v = (if v \<in> set vs then Some (Weight t v now) else None)"
proof -
  have ne: "fold (\<lambda>v. gm_put v (0 :: real)) vs [] = [] \<longleftrightarrow> vs = []"
    using weights_init_get [of vs "[]"] by (cases vs) (auto, metis list.set_intros(1) map_of.simps(1) option.distinct(1))
  show ?thesis
    using weights_init_get [of vs "[]" v]
    by (auto simp: WeightsFor_def Weight_def Let_def ne weightsWalk_fold(1) [where p = "[]"]
        weightWalk_fold(1) [where p = "[]"] weights_fold_get)
qed

section \<open>Properties\<close>

text \<open>
  C1: \<open>LongestMatch\<close> returns \<open>(v, d)\<close> exactly when the prefix of length \<open>d\<close> of the key
  is stored with value \<open>v\<close> and not expired, and no longer prefix of the key is stored and
  not expired.
\<close>

theorem LongestMatch_longest:
  "LongestMatch t key now = Some (v, d) \<longleftrightarrow>
     0 < d \<and> d \<le> length key
     \<and> (\<exists>ls. entries (troot t) (take d key) = Some (v, ls) \<and> \<not> stale (opts t) now ls)
     \<and> (\<forall>d'. d < d' \<and> d' \<le> length key \<longrightarrow> \<not> live (opts t) now (troot t) (take d' key))"
    (is "?L \<longleftrightarrow> ?R")
proof
  assume ?L
  with longestMatchLoop_spec [of key "troot t" "opts t" now 0 None] show ?R
    by (auto simp: LongestMatch_def)
next
  assume R: ?R
  then have "live (opts t) now (troot t) (take d key)" by (auto simp: live_def)
  with R longestMatchLoop_spec [of key "troot t" "opts t" now 0 None]
  obtain d0 v0 ls0 where d0: "0 < d0" "d0 \<le> length key" "entries (troot t) (take d0 key) = Some (v0, ls0)"
    "\<not> stale (opts t) now ls0"
    "\<forall>d'. d0 < d' \<and> d' \<le> length key \<longrightarrow> \<not> live (opts t) now (troot t) (take d' key)"
    "LongestMatch t key now = Some (v0, d0)"
    by (auto simp: LongestMatch_def)
  then have "live (opts t) now (troot t) (take d0 key)" by (auto simp: live_def)
  with d0 R \<open>live (opts t) now (troot t) (take d key)\<close> have "d0 = d"
    by (metis linorder_neqE_nat)
  with d0 R show ?L by auto
qed

definition sample_options :: options where
  "sample_options = \<lparr>TTL = 10, HalfLife = 0, MaxEntries = 0\<rparr>"

definition sample_tree :: "nat tree" where
  "sample_tree = Insert [1, 2, 3] 7 100 (Insert [1, 2] 5 50 (New sample_options))"

lemma sample_tree_eval:
  "sample_tree = \<lparr>opts = sample_options,
     troot = Node [(1, Node [(2, Node [(3, Node [] (Some 7) 100)] (Some 7) 100)] (Some 7) 100)] None 0,
     tsize = 3\<rparr>"
  by (simp add: sample_tree_def New_def Insert_def child_or_new_def sample_options_def Let_def)

theorem LongestMatch_longest_witness:
  "LongestMatch sample_tree [1, 2, 4] 105 = Some (7, 2)
   \<and> entries (troot sample_tree) (take 2 [1, 2, 4]) = Some (7, 100)
   \<and> \<not> live sample_options 105 (troot sample_tree) [1, 2, 4]"
proof -
  have m: "LongestMatch sample_tree [1, 2, 4] 105 = Some (7, 2)"
    by (simp add: sample_tree_eval LongestMatch_def expired_def sample_options_def time_sub_def
        max_duration_def min_duration_def)
  from m [unfolded LongestMatch_longest] obtain ls where
    e: "entries (troot sample_tree) (take 2 [1, 2, 4]) = Some (7, ls)"
    and deep: "\<not> live (opts sample_tree) 105 (troot sample_tree) (take 3 [1, 2, 4])"
    by auto
  from e have "ls = 100" by (simp add: sample_tree_eval node_entry_def)
  with m e deep show ?thesis by (simp add: sample_tree_eval)
qed

text \<open>
  C3: after any sequence of inserts, evictions and removals from an empty tree, \<open>Len\<close> is the
  number of stored entries, and no branch without a value is left in the tree.
\<close>

theorem Len_counts_entries:
  "Len (fold tree_apply ops (New os)) = int (card {p. entries (troot (fold tree_apply ops (New os))) p \<noteq> None})
   \<and> tidy_node (troot (fold tree_apply ops (New os)))"
  using tree_run_ok [OF New_ok, of ops os] by (simp add: Len_def tree_ok_size) (simp add: tree_ok_def)

lemma sample_tree_ok: "tree_ok sample_tree"
  by (simp add: sample_tree_def Insert_ok New_ok)

text \<open>
  C2: what the operations do to the entries. Without an entry limit \<open>Insert\<close> stores the value and the time at every
  non-empty prefix of the key and changes nothing else; \<open>Evict\<close> drops exactly the expired entries
  and \<open>RemoveFunc\<close> exactly those whose value satisfies the predicate, and the others keep value and time.
\<close>

theorem operations_content:
  assumes "tree_ok t"
  shows "(MaxEntries (opts t) \<le> 0 \<longrightarrow>
      entries (troot (Insert key v now t)) p = (if p \<noteq> [] \<and> prefix p key then Some (v, now) else entries (troot t) p))
    \<and> entries (troot (Evict now t)) p =
      (case entries (troot t) p of None \<Rightarrow> None
       | Some (v, ls) \<Rightarrow> if stale (opts t) now ls then None else Some (v, ls))
    \<and> entries (troot (RemoveFunc pred t)) p =
      (case entries (troot t) p of None \<Rightarrow> None
       | Some (v, ls) \<Rightarrow> if pred v then None else Some (v, ls))"
  using Evict_entries [OF assms] RemoveFunc_entries [OF assms] Insert_entries [of t key v now p] by blast

theorem operations_content_witness:
  "tree_ok sample_tree \<and> MaxEntries (opts sample_tree) \<le> 0
   \<and> entries (troot (Insert [1, 9] 4 111 sample_tree)) [1, 2] = Some (7, 100)
   \<and> entries (troot (Evict 111 sample_tree)) [1, 2] = None
   \<and> entries (troot (RemoveFunc (\<lambda>v. v = 5) sample_tree)) [1, 2] = Some (7, 100)"
proof -
  have lim: "MaxEntries (opts sample_tree) \<le> 0" by (simp add: sample_tree_eval sample_options_def)
  have e: "entries (troot sample_tree) [1, 2] = Some (7, 100)"
    by (simp add: sample_tree_eval node_entry_def)
  have "stale (opts sample_tree) 111 100"
    by (simp add: sample_tree_eval stale_def sample_options_def time_sub_def max_duration_def min_duration_def)
  with e lim sample_tree_ok operations_content [OF sample_tree_ok, of "[1, 9]" 4 111 "[1, 2]" "\<lambda>v. v = 5"]
  show ?thesis by simp
qed

text \<open>
  The single walk of \<open>WeightsFor\<close> gives each requested value exactly the weight that a
  separate \<open>Weight\<close> call computes for it, and has an entry for no other value.
\<close>

theorem WeightsFor_Weight:
  "gm_get (WeightsFor t vs now) v = (if v \<in> set vs then Some (Weight t v now) else None)"
  by (rule WeightsFor_get)

text \<open>
  C4: one \<open>Insert\<close> adds as many entries as the key has elements but evicts at most one, so
  \<open>MaxEntries\<close> does not bound the tree: a key of length \<open>n\<close> put into an empty tree with a limit
  below \<open>n\<close> leaves \<open>n - 1\<close> entries.
\<close>

theorem Insert_exceeds_MaxEntries:
  assumes "0 < MaxEntries os" and "MaxEntries os < int (length key)"
  shows "Len (Insert key v now (New os)) = int (length key) - 1"
proof -
  have fresh: "snd (insertLoop key v now (Node cs w l) sz) = sz + int (length key)" if "cs = []" for cs w l sz
    using that
    by (induction key arbitrary: cs w l sz) (simp_all add: insertLoop_Cons child_or_new_def del: insertLoop.simps(2))
  let ?t = "New os :: 'a tree"
  let ?r = "insertLoop key v now (troot ?t) (tsize ?t)"
  let ?t' = "?t\<lparr>troot := fst ?r, tsize := snd ?r\<rparr>"
  have ok: "tree_ok ?t'" by (rule insert_loop_ok [OF New_ok])
  have "key \<noteq> []" using assms by auto
  then have "entries (troot ?t') key \<noteq> None"
    using insertLoop_entries [of key v now "troot ?t" "tsize ?t" key] by simp
  then have "tsize (evictOldestLocked ?t') = tsize ?t' - 1" by (rule evictOldestLocked_size [OF ok])
  moreover have "tsize ?t' = int (length key)" using fresh by (simp add: New_def)
  moreover have "Insert key v now ?t = evictOldestLocked ?t'"
    using assms \<open>key \<noteq> []\<close> \<open>tsize ?t' = int (length key)\<close>
    by (auto simp: Insert_def New_def split: prod.splits)
  ultimately show ?thesis by (simp add: Len_def)
qed

theorem Insert_exceeds_MaxEntries_witness:
  "Len (Insert [1, 2, 3, 4] 0 5 (New \<lparr>TTL = 10, HalfLife = 0, MaxEntries = 1\<rparr> :: nat tree)) = 3"
  using Insert_exceeds_MaxEntries [of "\<lparr>TTL = 10, HalfLife = 0, MaxEntries = 1\<rparr>" "[1, 2, 3, 4]" "0 :: nat" 5]
  by simp

end
