(* ===== verification/PrefixRouting.thy ===== *)
theory PrefixRouting
  imports Prelude "HOL-Library.Sublist"
begin

text \<open>
  The pure part of \<^verbatim>\<open>core/services/nodes/prefixcache\<close>: the routing configuration and its
  validation (\<^verbatim>\<open>config.go\<close>, \<^verbatim>\<open>policy.go\<close>), the chain of prefix hashes of a prompt
  (\<^verbatim>\<open>extractor.go\<close>), the filter-then-score pipeline (\<^verbatim>\<open>pipeline.go\<close>) and the selection of a
  replica (\<^verbatim>\<open>select.go\<close>). Ratios, weights and scores are \<open>real\<close>, without the rounding
  of \<^verbatim>\<open>float64\<close>. The hash \<^verbatim>\<open>xxhash\<close> is a third-party package and a parameter of
  \<open>ExtractChain\<close>. An error is its message's kind.
\<close>

section \<open>Policies and configuration\<close>

datatype route_policy = RoutePolicyDefault | RoutePolicyRoundRobin | RoutePolicyPrefixCache

definition ParsePolicy :: "string \<Rightarrow> route_policy" where
  "ParsePolicy s =
     (if s = ''round_robin'' then RoutePolicyRoundRobin
      else if s = ''prefix_cache'' then RoutePolicyPrefixCache
      else RoutePolicyDefault)"

fun policy_String :: "route_policy \<Rightarrow> string" where
  "policy_String RoutePolicyRoundRobin = ''round_robin''"
| "policy_String RoutePolicyPrefixCache = ''prefix_cache''"
| "policy_String RoutePolicyDefault = ''default''"

definition Resolve :: "route_policy \<Rightarrow> route_policy \<Rightarrow> route_policy" where
  "Resolve p global = (if p = RoutePolicyDefault then global else p)"

record config =
  GlobalPolicy :: route_policy
  MinPrefixMatch :: real
  BalanceAbsThreshold :: int
  BalanceRelThreshold :: real
  cfgTTL :: duration
  cfgHalfLife :: duration
  WindowBytes :: int
  MaxDepth :: int
  PressureWindow :: duration
  PressureScaleThreshold :: int
  ScorerWeights :: "(string, real) gomap"

definition ScorerPrefixCache :: string where
  "ScorerPrefixCache = ''prefix_cache''"

definition DefaultConfig :: config where
  "DefaultConfig =
     \<lparr>GlobalPolicy = RoutePolicyPrefixCache, MinPrefixMatch = 3 / 10, BalanceAbsThreshold = 2,
      BalanceRelThreshold = 3 / 2, cfgTTL = 5 * minute, cfgHalfLife = 2 * minute,
      WindowBytes = 256, MaxDepth = 64, PressureWindow = minute, PressureScaleThreshold = 1,
      ScorerWeights = [(ScorerPrefixCache, 1)]\<rparr>"

datatype config_error =
    BadMinPrefixMatch real
  | BadAbsThreshold int
  | BadRelThreshold real
  | BadRoutePolicy string
  | BadWindowOrDepth
  | BadTTL duration
  | UnknownScorer string
  | NegativeWeight string

text \<open>\<open>None\<close> is Go's nil error.\<close>

definition validateThresholdBounds :: "int \<Rightarrow> real \<Rightarrow> real \<Rightarrow> config_error option" where
  "validateThresholdBounds absThr relThr minMatch =
     (if minMatch < 0 \<or> minMatch > 1 then Some (BadMinPrefixMatch minMatch)
      else if absThr < 0 then Some (BadAbsThreshold absThr)
      else if relThr \<noteq> 0 \<and> relThr < 1 then Some (BadRelThreshold relThr)
      else None)"

definition ValidateThresholds :: "string \<Rightarrow> int \<Rightarrow> real \<Rightarrow> real \<Rightarrow> config_error option" where
  "ValidateThresholds routePolicy absThr relThr minMatch =
     (if routePolicy \<notin> {'''', ''round_robin'', ''prefix_cache''} then Some (BadRoutePolicy routePolicy)
      else validateThresholdBounds absThr relThr minMatch)"

definition Validate :: "config \<Rightarrow> config_error option" where
  "Validate c =
     (case validateThresholdBounds (BalanceAbsThreshold c) 0 (MinPrefixMatch c) of
        Some e \<Rightarrow> Some e
      | None \<Rightarrow>
          if BalanceRelThreshold c < 1 then Some (BadRelThreshold (BalanceRelThreshold c))
          else if WindowBytes c \<le> 0 \<or> MaxDepth c \<le> 0 then Some BadWindowOrDepth
          else if cfgTTL c \<le> 0 then Some (BadTTL (cfgTTL c))
          else None)"

fun ValidateScorerWeights :: "(string, real) gomap \<Rightarrow> config_error option" where
  "ValidateScorerWeights [] = None"
| "ValidateScorerWeights ((name, weight) # ws) =
     (if name \<noteq> ScorerPrefixCache then Some (UnknownScorer name)
      else if weight < 0 then Some (NegativeWeight name)
      else ValidateScorerWeights ws)"

section \<open>The prefix chain of a prompt\<close>

text \<open>
  \<open>hash\<close> is \<^verbatim>\<open>xxhash.Sum64\<close> of a byte string; \<open>le_bytes\<close> is
  \<^verbatim>\<open>binary.LittleEndian.PutUint64\<close>.
\<close>

definition le_bytes :: "u64 \<Rightarrow> 8 word list" where
  "le_bytes w = map (\<lambda>i. ucast (drop_bit (8 * i) w)) [0 ..< 8]"

fun chainLoop :: "(8 word list \<Rightarrow> u64) \<Rightarrow> nat \<Rightarrow> 8 word list \<Rightarrow> nat \<Rightarrow> u64 \<Rightarrow> u64 list" where
  "chainLoop hash W data 0 prev = []"
| "chainLoop hash W data (Suc n) prev =
     (let h = hash (le_bytes prev @ take W data) in h # chainLoop hash W (drop W data) n h)"

text \<open>
  \<open>None\<close> is a panic: the division by a zero window, \<^verbatim>\<open>make\<close> with a negative capacity, or
  a slice with a negative bound.
\<close>

definition ExtractChain ::
  "(8 word list \<Rightarrow> u64) \<Rightarrow> 8 word list \<Rightarrow> 8 word list \<Rightarrow> config \<Rightarrow> u64 list option" where
  "ExtractChain hash model prompt cfg =
     (if prompt = [] then Some []
      else case go_div (int (length prompt) + WindowBytes cfg - 1) (WindowBytes cfg) of
        None \<Rightarrow> None
      | Some nBlocks \<Rightarrow>
          let depth = min nBlocks (MaxDepth cfg)
          in if depth < 0 then None
             else if depth > 0 \<and> WindowBytes cfg < 0 then None
             else Some (chainLoop hash (nat (WindowBytes cfg)) prompt (nat depth) (hash model)))"

section \<open>Candidates and the scoring pipeline\<close>

record replica_key =
  KNode :: string
  KReplica :: int

definition key_less :: "replica_key \<Rightarrow> replica_key \<Rightarrow> bool" where
  "key_less a b = (if KNode a \<noteq> KNode b then KNode a < KNode b else KReplica a < KReplica b)"

record candidate =
  Key :: replica_key
  CInFlight :: int

record prefix_decision =
  Hot :: replica_key
  HasHot :: bool
  MatchRatio :: real
  ColdOrder :: "replica_key list"

text \<open>A scorer is the function of \<open>CandidateScorer.Score\<close>; \<open>None\<close> is \<open>scored = false\<close>.\<close>

record weighted_scorer =
  Scorer :: "(candidate \<Rightarrow> real option) option"
  SWeight :: real

record scored_candidate =
  SCandidate :: candidate
  Score :: real

record pipeline =
  Filters :: "(candidate list \<Rightarrow> candidate list) list"
  Scorers :: "weighted_scorer list"
  Picker :: "(scored_candidate list \<Rightarrow> replica_key option) option"

definition pipeline_score :: "pipeline \<Rightarrow> candidate \<Rightarrow> real" where
  "pipeline_score p c =
     fold (\<lambda>w sm.
        case Scorer w of
          None \<Rightarrow> sm
        | Some f \<Rightarrow>
            if SWeight w \<le> 0 then sm
            else (case f c of None \<Rightarrow> sm | Some s \<Rightarrow> sm + max 0 (min 1 s) * SWeight w))
       (Scorers p) 0"

definition score_better :: "scored_candidate \<Rightarrow> scored_candidate \<Rightarrow> bool" where
  "score_better c best \<longleftrightarrow> Score c > Score best
     \<or> (Score c = Score best \<and> key_less (Key (SCandidate c)) (Key (SCandidate best)))"

definition HighestScorePicker_Pick :: "scored_candidate list \<Rightarrow> replica_key option" where
  "HighestScorePicker_Pick cs =
     (case cs of [] \<Rightarrow> None | c # rest \<Rightarrow> Some (Key (SCandidate (best_of score_better c rest))))"

definition pipeline_Pick :: "pipeline \<Rightarrow> candidate list \<Rightarrow> replica_key option" where
  "pipeline_Pick p candidates =
     (let filtered = fold (\<lambda>f cs. f cs) (Filters p) candidates
      in if filtered = [] then None
         else let scored = map (\<lambda>c. \<lparr>SCandidate = c, Score = pipeline_score p c\<rparr>) filtered
              in (case Picker p of Some pick \<Rightarrow> pick scored | None \<Rightarrow> HighestScorePicker_Pick scored))"

section \<open>Selection\<close>

definition scorerWeight :: "(string, real) gomap \<Rightarrow> string \<Rightarrow> real \<Rightarrow> real" where
  "scorerWeight weights name fallback =
     (case gm_get weights name of Some w \<Rightarrow> w | None \<Rightarrow> fallback)"

definition min_in_flight :: "candidate \<Rightarrow> candidate list \<Rightarrow> int" where
  "min_in_flight c cs = fold (\<lambda>d m. min m (CInFlight d)) cs (CInFlight c)"

definition loadGuard :: "config \<Rightarrow> int \<Rightarrow> candidate \<Rightarrow> bool" where
  "loadGuard cfg m c \<longleftrightarrow>
     CInFlight c \<le> m + BalanceAbsThreshold cfg
     \<and> real_of_int (CInFlight c) \<le> real_of_int m * BalanceRelThreshold cfg + 1"

definition loadGuardFilter_Filter :: "config \<Rightarrow> candidate list \<Rightarrow> candidate list" where
  "loadGuardFilter_Filter cfg cands =
     (case cands of [] \<Rightarrow> [] | c # cs \<Rightarrow> filter (loadGuard cfg (min_in_flight c cs)) cands)"

definition fallback_less :: "candidate \<Rightarrow> candidate \<Rightarrow> bool" where
  "fallback_less a b =
     (if CInFlight a \<noteq> CInFlight b then CInFlight a < CInFlight b else key_less (Key a) (Key b))"

definition fallback_score :: "nat \<Rightarrow> nat \<Rightarrow> real" where
  "fallback_score n i = 1 / 4 * real (n - i) / real (n + 1)"

definition cold_score :: "nat \<Rightarrow> nat \<Rightarrow> real" where
  "cold_score n i = 3 / 4 - 1 / 4 * real i / real (n + 1)"

definition newPrefixPreferenceScorer ::
  "candidate list \<Rightarrow> prefix_decision \<Rightarrow> config \<Rightarrow> (replica_key, real) gomap" where
  "newPrefixPreferenceScorer cands d cfg =
     (let fallback = go_sort fallback_less cands;
          s1 = fold (\<lambda>(i, c). gm_put (Key c) (fallback_score (length fallback) i))
                 (enumerate 0 fallback) [];
          s2 = fold (\<lambda>(i, k). gm_put k (cold_score (length (ColdOrder d)) i))
                 (enumerate 0 (ColdOrder d)) s1
      in if HasHot d \<and> MatchRatio d \<ge> MinPrefixMatch cfg then gm_put (Hot d) 1 s2 else s2)"

definition scorer_Score :: "(replica_key, real) gomap \<Rightarrow> candidate \<Rightarrow> real option" where
  "scorer_Score scores c = gm_get scores (Key c)"

definition Select :: "candidate list \<Rightarrow> prefix_decision \<Rightarrow> config \<Rightarrow> replica_key option" where
  "Select cands d cfg =
     (if cands = [] then None
      else pipeline_Pick
        \<lparr>Filters = [loadGuardFilter_Filter cfg],
         Scorers = [\<lparr>Scorer = Some (scorer_Score (newPrefixPreferenceScorer cands d cfg)),
                     SWeight = scorerWeight (ScorerWeights cfg) ScorerPrefixCache 1\<rparr>],
         Picker = None\<rparr> cands)"


section \<open>Facts on the chain\<close>

lemma chainLoop_length: "length (chainLoop hash W data n prev) = n"
  by (induction n arbitrary: data prev) (auto simp: Let_def)

lemma chainLoop_take: "take m (chainLoop hash W data n prev) = chainLoop hash W data (min m n) prev"
proof (induction n arbitrary: data prev m)
  case 0
  then show ?case by simp
next
  case (Suc n)
  then show ?case by (cases m) (auto simp: Let_def)
qed

lemma chainLoop_extend:
  "n * W \<le> length data \<Longrightarrow> chainLoop hash W (data @ rest) n prev = chainLoop hash W data n prev"
proof (induction n arbitrary: data prev)
  case 0
  then show ?case by simp
next
  case (Suc n)
  then have "W \<le> length data" and "n * W \<le> length (drop W data)" by auto
  with Suc.IH show ?case by (simp add: Let_def)
qed

lemma Validate_None:
  "Validate c = None \<longleftrightarrow>
     0 \<le> MinPrefixMatch c \<and> MinPrefixMatch c \<le> 1 \<and> 0 \<le> BalanceAbsThreshold c
     \<and> 1 \<le> BalanceRelThreshold c \<and> 0 < WindowBytes c \<and> 0 < MaxDepth c \<and> 0 < cfgTTL c"
  by (auto simp: Validate_def validateThresholdBounds_def split: option.splits if_splits)

definition chain_depth :: "nat \<Rightarrow> config \<Rightarrow> nat" where
  "chain_depth len cfg = min ((len + nat (WindowBytes cfg) - 1) div nat (WindowBytes cfg)) (nat (MaxDepth cfg))"

lemma ExtractChain_valid:
  assumes "Validate cfg = None"
  shows "ExtractChain hash model prompt cfg =
    Some (chainLoop hash (nat (WindowBytes cfg)) prompt (chain_depth (length prompt) cfg) (hash model))"
proof (cases "prompt = []")
  case True
  from assms have "0 < WindowBytes cfg" by (simp add: Validate_None)
  then have "chain_depth 0 cfg = 0" by (simp add: chain_depth_def div_eq_0_iff)
  with True show ?thesis by (simp add: ExtractChain_def)
next
  case False
  from assms have pos: "0 < WindowBytes cfg" "0 < MaxDepth cfg" by (simp_all add: Validate_None)
  let ?w = "WindowBytes cfg" and ?n = "int (length prompt)"
  have "0 \<le> ?n + ?w - 1" using pos by simp
  then have q: "go_div (?n + ?w - 1) ?w = Some ((?n + ?w - 1) div ?w)" by (rule go_div_pos) (rule pos)
  have "(?n + ?w - 1) div ?w \<ge> 0" using pos by (simp add: pos_imp_zdiv_nonneg_iff)
  moreover have "nat (min ((?n + ?w - 1) div ?w) (MaxDepth cfg)) = chain_depth (length prompt) cfg"
  proof -
    have "nat ((?n + ?w - 1) div ?w) = (length prompt + nat ?w - 1) div nat ?w"
      using pos by (simp add: nat_div_distrib nat_add_distrib nat_diff_distrib')
    then show ?thesis using pos by (auto simp: chain_depth_def min_def)
  qed
  ultimately show ?thesis using False pos q by (simp add: ExtractChain_def Let_def)
qed

section \<open>Facts on the selection\<close>

interpretation key_order: strict_weak key_less
  by unfold_locales (auto simp: key_less_def split: if_splits)

interpretation fallback_order: strict_weak fallback_less
proof unfold_locales
  fix x y z
  show "fallback_less x y \<Longrightarrow> \<not> fallback_less y x"
    by (auto simp: fallback_less_def dest: key_order.asym split: if_splits)
  show "\<not> fallback_less x y \<Longrightarrow> \<not> fallback_less y z \<Longrightarrow> \<not> fallback_less x z"
    by (auto simp: fallback_less_def dest: key_order.neg_trans split: if_splits)
qed

interpretation score_order: strict_weak score_better
proof unfold_locales
  fix x y z
  show "score_better x y \<Longrightarrow> \<not> score_better y x"
    by (auto simp: score_better_def dest: key_order.asym)
  show "\<not> score_better x y \<Longrightarrow> \<not> score_better y z \<Longrightarrow> \<not> score_better x z"
    by (auto simp: score_better_def dest: key_order.neg_trans)
qed

lemma min_in_flight_Min: "min_in_flight c cs = Min (CInFlight ` set (c # cs))"
proof -
  have "(\<lambda>d m. min m (CInFlight d)) = (\<lambda>d :: candidate. min (CInFlight d))"
    by (intro ext) (rule min.commute)
  then have "min_in_flight c cs = fold min (map CInFlight cs) (CInFlight c)"
    by (simp add: min_in_flight_def fold_map comp_def)
  then show ?thesis using Min.set_eq_fold [of "CInFlight c" "map CInFlight cs"] by simp
qed

definition least_in_flight :: "candidate list \<Rightarrow> int" where
  "least_in_flight cands = Min (CInFlight ` set cands)"

lemma loadGuardFilter_eq:
  "loadGuardFilter_Filter cfg cands = filter (loadGuard cfg (least_in_flight cands)) cands"
  by (cases cands) (simp_all add: loadGuardFilter_Filter_def min_in_flight_Min least_in_flight_def)

definition select_score :: "candidate list \<Rightarrow> prefix_decision \<Rightarrow> config \<Rightarrow> candidate \<Rightarrow> real" where
  "select_score cands d cfg c =
     (let w = scorerWeight (ScorerWeights cfg) ScorerPrefixCache 1
      in if w \<le> 0 then 0
         else (case gm_get (newPrefixPreferenceScorer cands d cfg) (Key c) of
                 None \<Rightarrow> 0 | Some s \<Rightarrow> max 0 (min 1 s) * w))"

abbreviation eligible :: "candidate list \<Rightarrow> config \<Rightarrow> candidate list" where
  "eligible cands cfg \<equiv> filter (loadGuard cfg (least_in_flight cands)) cands"

lemma Select_eq:
  "Select cands d cfg =
     HighestScorePicker_Pick
       (map (\<lambda>c. \<lparr>SCandidate = c, Score = select_score cands d cfg c\<rparr>) (eligible cands cfg))"
proof -
  let ?p = "\<lparr>Filters = [loadGuardFilter_Filter cfg],
         Scorers = [\<lparr>Scorer = Some (scorer_Score (newPrefixPreferenceScorer cands d cfg)),
                     SWeight = scorerWeight (ScorerWeights cfg) ScorerPrefixCache 1\<rparr>],
         Picker = None\<rparr>"
  have "pipeline_score ?p = select_score cands d cfg"
    by (rule ext) (auto simp: pipeline_score_def select_score_def scorer_Score_def Let_def split: option.splits)
  then show ?thesis
    by (auto simp: Select_def pipeline_Pick_def Let_def loadGuardFilter_eq HighestScorePicker_Pick_def)
qed

text \<open>What \<open>Select\<close> computes: the best score among the candidates within the load guard.\<close>

lemma Select_SomeD:
  assumes "Select cands d cfg = Some k"
  shows "\<exists>c \<in> set (eligible cands cfg). Key c = k
    \<and> (\<forall>c' \<in> set (eligible cands cfg).
         select_score cands d cfg c' < select_score cands d cfg c
         \<or> select_score cands d cfg c' = select_score cands d cfg c \<and> \<not> key_less (Key c') (Key c))"
proof -
  let ?sc = "\<lambda>c. \<lparr>SCandidate = c, Score = select_score cands d cfg c\<rparr>"
  from assms obtain c0 cs where e: "eligible cands cfg = c0 # cs"
    and k: "k = Key (SCandidate (best_of score_better (?sc c0) (map ?sc cs)))"
    by (auto simp: Select_eq HighestScorePicker_Pick_def split: list.splits)
  let ?b = "best_of score_better (?sc c0) (map ?sc cs)"
  have "?b \<in> insert (?sc c0) (set (map ?sc cs))" by (rule best_of_in)
  then obtain c where c: "c \<in> set (c0 # cs)" "?b = ?sc c" by auto
  have "select_score cands d cfg c' < select_score cands d cfg c
      \<or> select_score cands d cfg c' = select_score cands d cfg c \<and> \<not> key_less (Key c') (Key c)"
    if "c' \<in> set (c0 # cs)" for c'
  proof -
    have "\<not> score_better (?sc c') (?sc c)"
      using that score_order.best_of_best [of "?sc c'" "?sc c0" "map ?sc cs"] c by auto
    then show ?thesis by (auto simp: score_better_def)
  qed
  then have "\<forall>c' \<in> set (eligible cands cfg). select_score cands d cfg c' < select_score cands d cfg c
      \<or> select_score cands d cfg c' = select_score cands d cfg c \<and> \<not> key_less (Key c') (Key c)"
    using e by simp
  moreover have "c \<in> set (eligible cands cfg)" "Key c = k" using c k e by simp_all
  ultimately show ?thesis by blast
qed

lemma Select_best:
  assumes "Select cands d cfg = Some k"
  obtains b where "b \<in> set (eligible cands cfg)" "Key b = k"
    "\<And>c. c \<in> set (eligible cands cfg) \<Longrightarrow> select_score cands d cfg c \<le> select_score cands d cfg b"
proof -
  from Select_SomeD [OF assms] obtain b where "b \<in> set (eligible cands cfg)" "Key b = k"
    and "\<forall>c \<in> set (eligible cands cfg). select_score cands d cfg c < select_score cands d cfg b
         \<or> select_score cands d cfg c = select_score cands d cfg b \<and> \<not> key_less (Key c) (Key b)"
    by blast
  then show ?thesis using that [of b] by fastforce
qed

lemma Select_None_iff: "Select cands d cfg = None \<longleftrightarrow> eligible cands cfg = []"
  by (auto simp: Select_eq HighestScorePicker_Pick_def split: list.splits)


lemma put_enum_other:
  "k \<notin> g ` set xs \<Longrightarrow> gm_get (fold (\<lambda>(i, x). gm_put (g x) (f i)) (enumerate s xs) m) k = gm_get m k"
  by (induction xs arbitrary: s m) (auto simp: gm_get_put)

lemma put_enum_some:
  "k \<in> g ` set xs \<Longrightarrow>
     \<exists>i < length xs. g (xs ! i) = k \<and> gm_get (fold (\<lambda>(i, x). gm_put (g x) (f i)) (enumerate s xs) m) k = Some (f (s + i))"
proof (induction xs arbitrary: s m)
  case Nil
  then show ?case by simp
next
  case (Cons x xs)
  show ?case
  proof (cases "k \<in> g ` set xs")
    case True
    from Cons.IH [OF True, of "Suc s" "gm_put (g x) (f s) m"] obtain i where
      "i < length xs" "g (xs ! i) = k"
      "gm_get (fold (\<lambda>(i, x). gm_put (g x) (f i)) (enumerate (Suc s) xs) (gm_put (g x) (f s) m)) k = Some (f (Suc s + i))"
      by blast
    then show ?thesis by (intro exI [of _ "Suc i"]) simp
  next
    case False
    with Cons.prems have "k = g x" by auto
    with put_enum_other [OF False, of f "Suc s" "gm_put (g x) (f s) m"] show ?thesis
      by (intro exI [of _ 0]) (simp add: gm_get_put)
  qed
qed

definition usable_hot :: "prefix_decision \<Rightarrow> config \<Rightarrow> bool" where
  "usable_hot d cfg \<longleftrightarrow> HasHot d \<and> MatchRatio d \<ge> MinPrefixMatch cfg"

lemma scorer_hot:
  "usable_hot d cfg \<Longrightarrow> gm_get (newPrefixPreferenceScorer cands d cfg) (Hot d) = Some 1"
  by (simp add: newPrefixPreferenceScorer_def Let_def usable_hot_def gm_get_put)

lemma scorer_cold:
  assumes "k \<in> set (ColdOrder d)" and "\<not> usable_hot d cfg \<or> k \<noteq> Hot d"
  shows "\<exists>i < length (ColdOrder d). ColdOrder d ! i = k
    \<and> gm_get (newPrefixPreferenceScorer cands d cfg) k = Some (cold_score (length (ColdOrder d)) i)"
  using assms put_enum_some [of k id "ColdOrder d" "cold_score (length (ColdOrder d))" 0]
  by (auto simp: newPrefixPreferenceScorer_def Let_def usable_hot_def gm_get_put)

lemma scorer_fallback:
  assumes "k \<notin> set (ColdOrder d)" and "\<not> usable_hot d cfg \<or> k \<noteq> Hot d"
    and "gm_get (newPrefixPreferenceScorer cands d cfg) k = Some s"
  shows "\<exists>i. s = fallback_score (length cands) i"
proof -
  let ?m = "fold (\<lambda>(i, c). gm_put (Key c) (fallback_score (length cands) i)) (enumerate 0 (go_sort fallback_less cands)) []"
  from assms have "gm_get ?m k = Some s"
    using put_enum_other [of k id "ColdOrder d" "cold_score (length (ColdOrder d))" 0 ?m]
    by (auto simp: newPrefixPreferenceScorer_def Let_def usable_hot_def gm_get_put split: if_splits)
  then show ?thesis
    using put_enum_some [of k Key "go_sort fallback_less cands" "fallback_score (length cands)" 0 "[]"]
      put_enum_other [of k Key "go_sort fallback_less cands" "fallback_score (length cands)" 0 "[]"]
    by (cases "k \<in> Key ` set (go_sort fallback_less cands)") auto
qed

lemma cold_score_range: "i < n \<Longrightarrow> 0 < cold_score n i \<and> cold_score n i < 1"
proof -
  assume "i < n"
  then have "real i / real (n + 1) < 1" "0 \<le> real i / real (n + 1)" by (simp_all add: field_simps)
  moreover have "cold_score n i = 3 / 4 - (real i / real (n + 1)) / 4" by (simp add: cold_score_def)
  moreover have "0 < 3 / 4 - x / 4 \<and> 3 / 4 - x / 4 < 1" if "0 \<le> x" "x < 1" for x :: real
    using that by auto
  ultimately show ?thesis by metis
qed

lemma cold_score_antimono: "i < j \<Longrightarrow> cold_score n j < cold_score n i"
  by (simp add: cold_score_def divide_strict_right_mono)

lemma fallback_score_lt: "fallback_score n i < 1"
proof -
  have "real (n - i) < real (n + 1)" by simp
  then have "real (n - i) / real (n + 1) < 1" by (simp add: field_simps)
  then show ?thesis by (simp add: fallback_score_def)
qed

lemma scorer_below_hot:
  assumes "k \<noteq> Hot d" and "gm_get (newPrefixPreferenceScorer cands d cfg) k = Some s"
  shows "s < 1"
proof (cases "k \<in> set (ColdOrder d)")
  case True
  from scorer_cold [OF True, of cfg cands] assms cold_score_range show ?thesis by fastforce
next
  case False
  from scorer_fallback [OF False, of cfg cands s] assms fallback_score_lt show ?thesis by fastforce
qed

lemma select_cold_first:
  assumes "\<not> usable_hot d cfg" and "0 < scorerWeight (ScorerWeights cfg) ScorerPrefixCache 1"
    and "distinct (ColdOrder d)" and "Key ` set cands \<subseteq> set (ColdOrder d)"
  shows "Select cands d cfg = find (\<lambda>k. k \<in> set (map Key (eligible cands cfg))) (ColdOrder d)"
proof (cases "Select cands d cfg")
  case None
  then have "eligible cands cfg = []" using Select_None_iff [of cands d cfg] by simp
  then have "find (\<lambda>k. k \<in> set (map Key (eligible cands cfg))) (ColdOrder d) = None"
    by (simp add: find_None_iff)
  with None show ?thesis by simp
next
  case (Some k)
  let ?w = "scorerWeight (ScorerWeights cfg) ScorerPrefixCache 1" and ?n = "length (ColdOrder d)"
  have sc: "\<exists>i < ?n. ColdOrder d ! i = Key c \<and> select_score cands d cfg c = cold_score ?n i * ?w"
    if "c \<in> set (eligible cands cfg)" for c
  proof -
    have "Key c \<in> set (ColdOrder d)" using that assms(4) by auto
    from scorer_cold [OF this, of cfg cands] assms(1) obtain i where i: "i < ?n" "ColdOrder d ! i = Key c"
      "gm_get (newPrefixPreferenceScorer cands d cfg) (Key c) = Some (cold_score ?n i)" by blast
    moreover have "max 0 (min 1 (cold_score ?n i)) = cold_score ?n i"
      using cold_score_range [OF i(1)] by simp
    ultimately show ?thesis using assms(2) by (intro exI [of _ i]) (simp add: select_score_def Let_def)
  qed
  from Select_best [OF Some] obtain b where b: "b \<in> set (eligible cands cfg)" "Key b = k" and
    best: "\<And>c'. c' \<in> set (eligible cands cfg) \<Longrightarrow> select_score cands d cfg c' \<le> select_score cands d cfg b"
    by blast
  from sc [OF b(1)] obtain i where i: "i < ?n" "ColdOrder d ! i = k" "select_score cands d cfg b = cold_score ?n i * ?w"
    using b by auto
  have "ColdOrder d ! j \<notin> set (map Key (eligible cands cfg))" if "j < i" for j
  proof
    assume "ColdOrder d ! j \<in> set (map Key (eligible cands cfg))"
    then obtain c where c: "c \<in> set (eligible cands cfg)" "Key c = ColdOrder d ! j" by auto
    from sc [OF c(1)] obtain j' where j': "j' < ?n" "ColdOrder d ! j' = ColdOrder d ! j"
      "select_score cands d cfg c = cold_score ?n j' * ?w" using c by auto
    with assms(3) i(1) that have "j' = j" by (simp add: nth_eq_iff_index_eq)
    with j' i cold_score_antimono [OF that, of ?n] assms(2) best [OF c(1)] show False by simp
  qed
  moreover have "k \<in> set (map Key (eligible cands cfg))" unfolding set_map using b by blast
  ultimately have "find (\<lambda>k. k \<in> set (map Key (eligible cands cfg))) (ColdOrder d) = Some k"
    unfolding find_Some_iff using i by blast
  with Some show ?thesis by simp
qed

section \<open>Properties\<close>



text \<open>
  With a validated configuration and candidates whose in-flight counts are not negative,
  \<open>Select\<close> always picks a replica, and the replica it picks is a candidate within the load
  guard relative to the least loaded candidate.
\<close>

lemma select_within_guard:
  assumes "Validate cfg = None" and "cands \<noteq> []" and "\<forall>c \<in> set cands. 0 \<le> CInFlight c"
  shows "\<exists>k. Select cands d cfg = Some k
    \<and> (\<exists>c \<in> set cands. Key c = k \<and> loadGuard cfg (least_in_flight cands) c)"
proof -
  have "least_in_flight cands \<in> CInFlight ` set cands"
    unfolding least_in_flight_def using assms(2) by (intro Min_in) auto
  then obtain c where c: "c \<in> set cands" "CInFlight c = least_in_flight cands" by auto
  have "0 \<le> CInFlight c" using assms(3) c(1) by blast
  then have "real_of_int (CInFlight c) * 1 \<le> real_of_int (CInFlight c) * BalanceRelThreshold cfg"
    using assms(1) by (intro mult_left_mono) (simp_all add: Validate_None)
  then have "loadGuard cfg (least_in_flight cands) c"
    using assms(1) c(2) by (simp add: loadGuard_def Validate_None)
  with c have "eligible cands cfg \<noteq> []" by (auto simp: filter_empty_conv)
  then obtain k where k: "Select cands d cfg = Some k"
    using Select_None_iff [of cands d cfg] by auto
  with Select_SomeD [OF k] show ?thesis by auto
qed

definition sample_key :: "string \<Rightarrow> replica_key" where
  "sample_key n = \<lparr>KNode = n, KReplica = 0\<rparr>"

definition sample_cands :: "candidate list" where
  "sample_cands = [\<lparr>Key = sample_key ''a'', CInFlight = 1\<rparr>, \<lparr>Key = sample_key ''b'', CInFlight = 0\<rparr>,
                   \<lparr>Key = sample_key ''c'', CInFlight = 9\<rparr>]"

definition sample_decision :: prefix_decision where
  "sample_decision = \<lparr>Hot = sample_key ''a'', HasHot = True, MatchRatio = 1 / 2,
                      ColdOrder = [sample_key ''c'', sample_key ''b'', sample_key ''a'']\<rparr>"

lemma DefaultConfig_valid: "Validate DefaultConfig = None"
  by (simp add: Validate_None DefaultConfig_def minute_def second_def)

lemma sample_least: "least_in_flight sample_cands = 0"
  by (simp add: least_in_flight_def sample_cands_def)

text \<open>
  A hot match that is strong enough wins: if its replica is a candidate within the load
  guard and the prefix-cache scorer has a positive weight, \<open>Select\<close> returns it.
\<close>

lemma select_prefers_hot:
  assumes "usable_hot d cfg" and "0 < scorerWeight (ScorerWeights cfg) ScorerPrefixCache 1"
    and "c \<in> set cands" and "Key c = Hot d" and "loadGuard cfg (least_in_flight cands) c"
  shows "Select cands d cfg = Some (Hot d)"
proof -
  let ?w = "scorerWeight (ScorerWeights cfg) ScorerPrefixCache 1"
  have ce: "c \<in> set (eligible cands cfg)" using assms by simp
  then obtain k where k: "Select cands d cfg = Some k" using Select_None_iff [of cands d cfg] by fastforce
  from Select_best [OF k] obtain b where b: "Key b = k" and
    best: "\<And>c'. c' \<in> set (eligible cands cfg) \<Longrightarrow> select_score cands d cfg c' \<le> select_score cands d cfg b"
    by blast
  have top: "select_score cands d cfg c = ?w"
    using assms scorer_hot [OF assms(1), of cands] by (simp add: select_score_def Let_def)
  have "k = Hot d"
  proof (rule ccontr)
    assume ne: "k \<noteq> Hot d"
    have "max 0 (min 1 s) < 1" if "gm_get (newPrefixPreferenceScorer cands d cfg) k = Some s" for s
      using scorer_below_hot [OF ne that] by simp
    then have "select_score cands d cfg b < ?w"
      using assms(2) b by (auto simp: select_score_def Let_def split: option.splits)
    with best [OF ce] top show False by simp
  qed
  with k show ?thesis by simp
qed

lemma sample_weight: "scorerWeight (ScorerWeights DefaultConfig) ScorerPrefixCache 1 = 1"
  by (simp add: scorerWeight_def DefaultConfig_def ScorerPrefixCache_def)

lemma sample_eligible:
  "eligible sample_cands DefaultConfig =
     [\<lparr>Key = sample_key ''a'', CInFlight = 1\<rparr>, \<lparr>Key = sample_key ''b'', CInFlight = 0\<rparr>]"
  unfolding sample_least by (simp add: sample_cands_def loadGuard_def DefaultConfig_def)



end
