(* ===== verification/PrefixIndex.thy ===== *)
theory PrefixIndex
  imports RadixTree PrefixRouting
begin

text \<open>
  The two prefix-affinity providers of \<^verbatim>\<open>core/services/nodes/prefixcache\<close> and the layer that
  shares one between frontends: \<^verbatim>\<open>Index\<close> (\<^verbatim>\<open>index.go\<close>) guesses from the routing history in
  one radix tree per model, \<^verbatim>\<open>ReportedIndex\<close> (\<^verbatim>\<open>reported.go\<close>) holds what the backends
  report, \<^verbatim>\<open>Sync\<close> (\<^verbatim>\<open>sync.go\<close>) wraps a provider and broadcasts. The interface
  \<^verbatim>\<open>Provider\<close> (\<^verbatim>\<open>provider.go\<close>) is the locale \<open>prefix_provider\<close>: its laws are what the
  router relies on, its lemmas are proved once, and both providers interpret it; a
  provider under \<open>Sync\<close> is one again. A publish that fails is only logged by the code,
  so publishing is appending the event to a list.
\<close>

section \<open>The interface\<close>

locale prefix_provider =
  fixes wf :: "'s \<Rightarrow> bool"
    and decide :: "'s \<Rightarrow> string \<Rightarrow> u64 list \<Rightarrow> replica_key list \<Rightarrow> time \<Rightarrow> prefix_decision \<times> 's"
    and observe :: "'s \<Rightarrow> string \<Rightarrow> u64 list \<Rightarrow> replica_key \<Rightarrow> time \<Rightarrow> bool \<times> 's"
    and invalidate :: "'s \<Rightarrow> string \<Rightarrow> replica_key \<Rightarrow> 's"
    and invalidateNode :: "'s \<Rightarrow> string \<Rightarrow> string \<Rightarrow> 's"
    and evict :: "'s \<Rightarrow> time \<Rightarrow> 's"
  assumes wf_decide: "wf s \<Longrightarrow> wf (snd (decide s m ch cs now))"
    and wf_observe: "wf s \<Longrightarrow> wf (snd (observe s m ch k now))"
    and wf_invalidate: "wf s \<Longrightarrow> wf (invalidate s m k)"
    and wf_invalidateNode: "wf s \<Longrightarrow> wf (invalidateNode s m n)"
    and wf_evict: "wf s \<Longrightarrow> wf (evict s now)"
    and hot_candidate: "wf s \<Longrightarrow> HasHot (fst (decide s m ch cs now)) \<Longrightarrow> Hot (fst (decide s m ch cs now)) \<in> set cs"
    and cold_order_perm: "wf s \<Longrightarrow> mset (ColdOrder (fst (decide s m ch cs now))) = mset cs"
    and ratio_range: "wf s \<Longrightarrow> HasHot (fst (decide s m ch cs now)) \<Longrightarrow>
        0 < MatchRatio (fst (decide s m ch cs now)) \<and> MatchRatio (fst (decide s m ch cs now)) \<le> 1"
    and invalidate_forgets: "wf s \<Longrightarrow> m \<noteq> '''' \<Longrightarrow> KNode k \<noteq> '''' \<Longrightarrow>
        HasHot (fst (decide (invalidate s m k) m ch cs now)) \<Longrightarrow>
        Hot (fst (decide (invalidate s m k) m ch cs now)) \<noteq> k"
    and invalidateNode_forgets: "wf s \<Longrightarrow>
        HasHot (fst (decide (invalidateNode s m n) m ch cs now)) \<Longrightarrow>
        KNode (Hot (fst (decide (invalidateNode s m n) m ch cs now))) \<noteq> n"
begin

text \<open>The router's use of a provider: a decision over the keys of the candidates, then \<open>Select\<close>.\<close>

definition route :: "'s \<Rightarrow> string \<Rightarrow> u64 list \<Rightarrow> candidate list \<Rightarrow> config \<Rightarrow> time \<Rightarrow> replica_key option" where
  "route s m ch cands cfg now = Select cands (fst (decide s m ch (map Key cands) now)) cfg"

lemma route_candidate:
  "route s m ch cands cfg now = Some k \<Longrightarrow> k \<in> Key ` set cands"
  unfolding route_def by (auto elim!: Select_best)

lemma cold_order_set: "wf s \<Longrightarrow> set (ColdOrder (fst (decide s m ch cs now))) = set cs"
  using cold_order_perm by (metis set_mset_mset)

lemma cold_order_distinct: "wf s \<Longrightarrow> distinct cs \<Longrightarrow> distinct (ColdOrder (fst (decide s m ch cs now)))"
  using cold_order_perm by (metis mset_eq_imp_distinct_iff)

text \<open>A cold placement goes to the first replica of the cold order within the load guard.\<close>

lemma route_cold:
  assumes "wf s" and "distinct (map Key cands)"
    and "0 < scorerWeight (ScorerWeights cfg) ScorerPrefixCache 1"
    and "\<not> usable_hot (fst (decide s m ch (map Key cands) now)) cfg"
  shows "route s m ch cands cfg now =
    find (\<lambda>k. k \<in> set (map Key (eligible cands cfg))) (ColdOrder (fst (decide s m ch (map Key cands) now)))"
  unfolding route_def
  using assms cold_order_distinct [OF assms(1,2)] cold_order_set [OF assms(1), of m ch "map Key cands" now]
  by (intro select_cold_first) auto

end

section \<open>The guessed index\<close>

record index =
  icfg :: config
  trees :: "(string, replica_key tree) gomap"

definition NewIndex :: "config \<Rightarrow> index" where
  "NewIndex cfg = \<lparr>icfg = cfg, trees = []\<rparr>"

definition existingTree :: "index \<Rightarrow> string \<Rightarrow> replica_key tree option" where
  "existingTree ix model = gm_get (trees ix) model"

definition index_tree :: "index \<Rightarrow> string \<Rightarrow> replica_key tree \<times> index" where
  "index_tree ix model =
     (case gm_get (trees ix) model of
        Some t \<Rightarrow> (t, ix)
      | None \<Rightarrow>
          let t = New \<lparr>TTL = cfgTTL (icfg ix), HalfLife = cfgHalfLife (icfg ix), MaxEntries = 0\<rparr>
          in (t, ix\<lparr>trees := gm_put model t (trees ix)\<rparr>))"

definition set_tree :: "index \<Rightarrow> string \<Rightarrow> replica_key tree \<Rightarrow> index" where
  "set_tree ix model t = ix\<lparr>trees := gm_put model t (trees ix)\<rparr>"

definition weight_less :: "(replica_key, real) gomap \<Rightarrow> replica_key \<Rightarrow> replica_key \<Rightarrow> bool" where
  "weight_less weights a b =
     (if gm_get0 0 weights a \<noteq> gm_get0 0 weights b
      then gm_get0 0 weights a < gm_get0 0 weights b else key_less a b)"

definition no_hot :: "replica_key" where
  "no_hot = \<lparr>KNode = '''', KReplica = 0\<rparr>"

definition index_Decide ::
  "index \<Rightarrow> string \<Rightarrow> u64 list \<Rightarrow> replica_key list \<Rightarrow> time \<Rightarrow> prefix_decision \<times> index" where
  "index_Decide ix model chain candidates now =
     (let (t, ix') = index_tree ix model;
          weights = WeightsFor t candidates now;
          hot = (if length chain > 0
                 then (case LongestMatch t chain now of
                         None \<Rightarrow> None
                       | Some (key, depth) \<Rightarrow>
                           (case gm_get weights key of None \<Rightarrow> None | Some _ \<Rightarrow> Some (key, depth)))
                 else None);
          order = (if length candidates > 1 then go_sort (weight_less weights) candidates else candidates)
      in ((case hot of
             None \<Rightarrow> \<lparr>Hot = no_hot, HasHot = False, MatchRatio = 0, ColdOrder = order\<rparr>
           | Some (key, depth) \<Rightarrow>
               \<lparr>Hot = key, HasHot = True, MatchRatio = real depth / real (length chain), ColdOrder = order\<rparr>),
          ix'))"

definition index_Observe ::
  "index \<Rightarrow> string \<Rightarrow> u64 list \<Rightarrow> replica_key \<Rightarrow> time \<Rightarrow> bool \<times> index" where
  "index_Observe ix model chain key now =
     (if length chain = 0 \<or> KNode key = '''' then (False, ix)
      else let (t, ix') = index_tree ix model;
               cur = LongestMatch t chain now
           in ((case cur of None \<Rightarrow> True | Some (c, depth) \<Rightarrow> depth < length chain \<or> c \<noteq> key),
               set_tree ix' model (Insert chain key now t)))"

definition index_Invalidate :: "index \<Rightarrow> string \<Rightarrow> replica_key \<Rightarrow> index" where
  "index_Invalidate ix model key =
     (case existingTree ix model of
        Some t \<Rightarrow> set_tree ix model (RemoveFunc (\<lambda>k. k = key) t)
      | None \<Rightarrow> ix)"

definition index_InvalidateNode :: "index \<Rightarrow> string \<Rightarrow> string \<Rightarrow> index" where
  "index_InvalidateNode ix model nodeID =
     (case existingTree ix model of
        Some t \<Rightarrow> set_tree ix model (RemoveFunc (\<lambda>k. KNode k = nodeID) t)
      | None \<Rightarrow> ix)"

definition index_Evict :: "index \<Rightarrow> time \<Rightarrow> index" where
  "index_Evict ix now = ix\<lparr>trees := map (\<lambda>(m, t). (m, Evict now t)) (trees ix)\<rparr>"

text \<open>Every tree is well formed and carries the index's options, none of which limits it.\<close>

definition index_options :: "index \<Rightarrow> options" where
  "index_options ix = \<lparr>TTL = cfgTTL (icfg ix), HalfLife = cfgHalfLife (icfg ix), MaxEntries = 0\<rparr>"

definition index_ok :: "index \<Rightarrow> bool" where
  "index_ok ix \<longleftrightarrow> distinct (gm_keys (trees ix))
     \<and> (\<forall>(m, t) \<in> set (trees ix). tree_ok t \<and> opts t = index_options ix)"

text \<open>What the index remembers of a model: the entries of its tree.\<close>

definition remembered :: "index \<Rightarrow> string \<Rightarrow> u64 list \<Rightarrow> (replica_key \<times> time) option" where
  "remembered ix m p = entries (troot (fst (index_tree ix m))) p"

lemma index_tree_ok:
  "index_ok ix \<Longrightarrow> tree_ok (fst (index_tree ix m)) \<and> opts (fst (index_tree ix m)) = index_options ix
     \<and> index_ok (snd (index_tree ix m))"
  by (auto simp: index_tree_def index_ok_def index_options_def New_ok Let_def New_def split: option.splits
      dest: gm_entry_in intro: gm_put_distinct)
     (auto dest!: set_gm_put [THEN subsetD] simp: New_ok [unfolded New_def])

lemma set_tree_ok:
  "index_ok ix \<Longrightarrow> tree_ok t \<Longrightarrow> opts t = index_options ix \<Longrightarrow> index_ok (set_tree ix m t)"
  by (auto simp: index_ok_def set_tree_def index_options_def dest!: set_gm_put [THEN subsetD])

lemma index_tree_again [simp]: "fst (index_tree (snd (index_tree ix m)) m') = fst (index_tree ix m')"
  by (auto simp: index_tree_def Let_def gm_get_put split: option.splits)

lemma index_tree_options [simp]: "index_options (snd (index_tree ix m)) = index_options ix"
  by (auto simp: index_tree_def index_options_def Let_def split: option.splits)

lemma index_tree_set_tree [simp]:
  "fst (index_tree (set_tree ix m t) m') = (if m' = m then t else fst (index_tree ix m'))"
  by (auto simp: index_tree_def set_tree_def Let_def gm_get_put split: option.splits)

lemma index_tree_existing: "existingTree ix m = Some t \<Longrightarrow> fst (index_tree ix m) = t"
  by (simp add: existingTree_def index_tree_def)

lemma index_Decide_hot:
  assumes "HasHot (fst (index_Decide ix m ch cs now))"
  shows "\<exists>d. LongestMatch (fst (index_tree ix m)) ch now = Some (Hot (fst (index_Decide ix m ch cs now)), d)
      \<and> MatchRatio (fst (index_Decide ix m ch cs now)) = real d / real (length ch)"
    and "Hot (fst (index_Decide ix m ch cs now)) \<in> set cs"
  using assms
  by (auto simp: index_Decide_def Let_def WeightsFor_get split: prod.splits option.splits if_splits)

lemma index_Decide_hot_iff:
  "HasHot (fst (index_Decide ix m ch cs now)) \<longleftrightarrow>
     (\<exists>k d. LongestMatch (fst (index_tree ix m)) ch now = Some (k, d) \<and> k \<in> set cs)"
  by (auto simp: index_Decide_def Let_def WeightsFor_get LongestMatch_def split: prod.splits option.splits if_splits)

lemma index_Decide_cold:
  "mset (ColdOrder (fst (index_Decide ix m ch cs now))) = mset cs"
  by (auto simp: index_Decide_def Let_def split: prod.splits option.splits)

lemma index_Decide_snd: "snd (index_Decide ix m ch cs now) = snd (index_tree ix m)"
  by (auto simp: index_Decide_def Let_def split: prod.splits option.splits)

lemma index_Decide_remembered:
  assumes "HasHot (fst (index_Decide ix m ch cs now))"
  shows "\<exists>p ls. remembered ix m p = Some (Hot (fst (index_Decide ix m ch cs now)), ls)"
  using index_Decide_hot(1) [OF assms] LongestMatch_SomeD(3) by (metis remembered_def)

lemma ratio_unit:
  assumes "0 < d" and "d \<le> n"
  shows "0 < real d / real n \<and> real d / real n \<le> 1"
proof -
  have "0 < real d" "real d \<le> real n" using assms by simp_all
  then show ?thesis by (auto simp: divide_le_eq)
qed

lemma index_Decide_ratio:
  assumes "HasHot (fst (index_Decide ix m ch cs now))"
  shows "0 < MatchRatio (fst (index_Decide ix m ch cs now)) \<and> MatchRatio (fst (index_Decide ix m ch cs now)) \<le> 1"
proof -
  obtain d k where "LongestMatch (fst (index_tree ix m)) ch now = Some (k, d)"
    and r: "MatchRatio (fst (index_Decide ix m ch cs now)) = real d / real (length ch)"
    using index_Decide_hot(1) [OF assms] by blast
  from LongestMatch_SomeD(1,2) [OF this(1)] have "0 < d" "d \<le> length ch" by auto
  then show ?thesis unfolding r by (rule ratio_unit)
qed

lemma index_Observe_ok: "index_ok ix \<Longrightarrow> index_ok (snd (index_Observe ix m ch k now))"
  using index_tree_ok [of ix m]
  by (auto simp: index_Observe_def Let_def Insert_ok intro!: set_tree_ok split: prod.splits)
     (metis index_tree_options snd_conv)+

lemma index_remove_ok:
  "index_ok ix \<Longrightarrow> existingTree ix m = Some t \<Longrightarrow> index_ok (set_tree ix m (RemoveFunc pred t))"
  using index_tree_ok [of ix m] index_tree_existing [of ix m t]
  by (intro set_tree_ok) (auto simp: RemoveFunc_ok)

lemma index_Evict_ok: "index_ok ix \<Longrightarrow> index_ok (index_Evict ix now)"
  by (auto simp: index_ok_def index_Evict_def index_options_def Evict_ok comp_def case_prod_beta)

lemma index_remove_remembered:
  assumes "index_ok ix" and "existingTree ix m = Some t"
  shows "remembered (set_tree ix m (RemoveFunc pred t)) m p =
    (case remembered ix m p of None \<Rightarrow> None
     | Some (k, ls) \<Rightarrow> if pred k then None else Some (k, ls))"
  using index_tree_ok [OF assms(1), of m] index_tree_existing [OF assms(2)] RemoveFunc_entries [of t pred p]
  by (simp add: remembered_def)

lemma never_cached: "existingTree ix m = None \<Longrightarrow> remembered ix m p = None"
  by (cases p) (auto simp: existingTree_def remembered_def index_tree_def New_def node_entry_def Let_def)

lemma index_Invalidate_remembered:
  "index_ok ix \<Longrightarrow> remembered (index_Invalidate ix m key) m p =
    (case remembered ix m p of None \<Rightarrow> None | Some (k, ls) \<Rightarrow> if k = key then None else Some (k, ls))"
  by (auto simp: index_Invalidate_def index_remove_remembered never_cached split: option.splits)

lemma index_InvalidateNode_remembered:
  "index_ok ix \<Longrightarrow> remembered (index_InvalidateNode ix m n) m p =
    (case remembered ix m p of None \<Rightarrow> None | Some (k, ls) \<Rightarrow> if KNode k = n then None else Some (k, ls))"
  by (auto simp: index_InvalidateNode_def index_remove_remembered never_cached split: option.splits)

lemma index_Observe_remembered:
  assumes "index_ok ix" and "ch \<noteq> []" and "KNode k \<noteq> ''''"
  shows "remembered (snd (index_Observe ix m ch k now)) m p =
    (if p \<noteq> [] \<and> prefix p ch then Some (k, now) else remembered ix m p)"
  using assms index_tree_ok [OF assms(1), of m]
    Insert_entries [of "fst (index_tree ix m)" ch k now p]
  by (auto simp: remembered_def index_Observe_def Let_def index_options_def split: prod.splits)

interpretation guessed: prefix_provider index_ok index_Decide index_Observe index_Invalidate
  index_InvalidateNode index_Evict
proof
  fix ix m ch cs k now n
  assume ok: "index_ok ix"
  show "index_ok (snd (index_Decide ix m ch cs now))"
    using index_tree_ok [OF ok] by (simp add: index_Decide_snd)
  show "index_ok (snd (index_Observe ix m ch k now))" by (rule index_Observe_ok [OF ok])
  show "index_ok (index_Invalidate ix m k)" "index_ok (index_InvalidateNode ix m n)"
    using ok by (auto simp: index_Invalidate_def index_InvalidateNode_def index_remove_ok split: option.splits)
  show "index_ok (index_Evict ix now)" by (rule index_Evict_ok [OF ok])
  show "mset (ColdOrder (fst (index_Decide ix m ch cs now))) = mset cs" by (rule index_Decide_cold)
  show "Hot (fst (index_Decide ix m ch cs now)) \<in> set cs" if "HasHot (fst (index_Decide ix m ch cs now))"
    by (rule index_Decide_hot(2) [OF that])
  show "0 < MatchRatio (fst (index_Decide ix m ch cs now)) \<and> MatchRatio (fst (index_Decide ix m ch cs now)) \<le> 1"
    if "HasHot (fst (index_Decide ix m ch cs now))"
    by (rule index_Decide_ratio [OF that])
  show "Hot (fst (index_Decide (index_Invalidate ix m k) m ch cs now)) \<noteq> k"
    if hot: "HasHot (fst (index_Decide (index_Invalidate ix m k) m ch cs now))"
  proof -
    obtain p ls where "remembered (index_Invalidate ix m k) m p =
        Some (Hot (fst (index_Decide (index_Invalidate ix m k) m ch cs now)), ls)"
      using index_Decide_remembered [OF hot] by blast
    then show ?thesis
      unfolding index_Invalidate_remembered [OF ok] by (auto split: option.splits if_splits)
  qed
  show "KNode (Hot (fst (index_Decide (index_InvalidateNode ix m n) m ch cs now))) \<noteq> n"
    if hot: "HasHot (fst (index_Decide (index_InvalidateNode ix m n) m ch cs now))"
  proof -
    obtain p ls where "remembered (index_InvalidateNode ix m n) m p =
        Some (Hot (fst (index_Decide (index_InvalidateNode ix m n) m ch cs now)), ls)"
      using index_Decide_remembered [OF hot] by blast
    then show ?thesis
      unfolding index_InvalidateNode_remembered [OF ok] by (auto split: option.splits if_splits)
  qed
qed

section \<open>The reported index\<close>

text \<open>
  \<^verbatim>\<open>messaging.PrefixCacheOperation\<close> is a string; the three that \<open>Apply\<close> knows are
  constructors and any other is \<open>OtherOperation\<close>.
\<close>

datatype cache_operation = PrefixCacheStore | PrefixCacheRemove | PrefixCacheClear | OtherOperation string

record residency_event =
  REOperation :: cache_operation
  REModel :: string
  REChain :: "u64 list"
  RENode :: string
  REReplica :: int

type_synonym by_replica = "(replica_key, u64 list list) gomap"

record reported_index =
  residencies :: "(string, by_replica) gomap"

definition NewReportedIndex :: reported_index where
  "NewReportedIndex = \<lparr>residencies = []\<rparr>"

definition equalChain :: "u64 list \<Rightarrow> u64 list \<Rightarrow> bool" where
  "equalChain a b =
     (if length a \<noteq> length b then False else list_all (\<lambda>i. a ! i = b ! i) [0..<length a])"

fun commonDepth :: "u64 list \<Rightarrow> u64 list \<Rightarrow> nat" where
  "commonDepth (a # as) (b # bs) = (if a \<noteq> b then 0 else Suc (commonDepth as bs))"
| "commonDepth _ _ = 0"

text \<open>\<open>remove_chain\<close> is the loop of the \<open>remove\<close> case: it drops the first equal chain.\<close>

fun remove_chain :: "u64 list \<Rightarrow> u64 list list \<Rightarrow> u64 list list" where
  "remove_chain ch [] = []"
| "remove_chain ch (c # cs) = (if equalChain c ch then cs else c # remove_chain ch cs)"

definition reported_Apply :: "residency_event \<Rightarrow> reported_index \<Rightarrow> reported_index" where
  "reported_Apply ev ix =
     (let key = \<lparr>KNode = RENode ev, KReplica = REReplica ev\<rparr>
      in if REModel ev = '''' \<or> KNode key = '''' then ix
         else
           let byReplica = gm_get (residencies ix) (REModel ev)
           in case REOperation ev of
                PrefixCacheStore \<Rightarrow>
                  if length (REChain ev) = 0 then ix
                  else
                    let br = (case byReplica of None \<Rightarrow> [] | Some br \<Rightarrow> br);
                        chains = gm_get0 [] br key;
                        ix1 = ix\<lparr>residencies := gm_put (REModel ev) br (residencies ix)\<rparr>
                    in if list_ex (\<lambda>c. equalChain c (REChain ev)) chains then ix1
                       else ix1\<lparr>residencies :=
                         gm_put (REModel ev) (gm_put key (chains @ [REChain ev]) br) (residencies ix1)\<rparr>
              | PrefixCacheRemove \<Rightarrow>
                  (case byReplica of
                     None \<Rightarrow> ix
                   | Some br \<Rightarrow>
                       if length (REChain ev) = 0 then ix
                       else
                         let chains = remove_chain (REChain ev) (gm_get0 [] br key)
                         in ix\<lparr>residencies := gm_put (REModel ev)
                              (if length chains = 0 then gm_del key br else gm_put key chains br) (residencies ix)\<rparr>)
              | PrefixCacheClear \<Rightarrow>
                  (case byReplica of
                     None \<Rightarrow> ix
                   | Some br \<Rightarrow> ix\<lparr>residencies := gm_put (REModel ev) (gm_del key br) (residencies ix)\<rparr>)
              | OtherOperation _ \<Rightarrow> ix)"

definition model_chains :: "reported_index \<Rightarrow> string \<Rightarrow> replica_key \<Rightarrow> u64 list list" where
  "model_chains ix model key =
     (case gm_get (residencies ix) model of None \<Rightarrow> [] | Some br \<Rightarrow> gm_get0 [] br key)"

text \<open>The two loops of \<open>Decide\<close>; the accumulator is \<open>bestDepth\<close> and \<open>d.Hot\<close> once set.\<close>

definition deeper :: "u64 list \<Rightarrow> replica_key \<Rightarrow> u64 list \<Rightarrow> nat \<times> replica_key option \<Rightarrow> nat \<times> replica_key option" where
  "deeper chain key reported best =
     (if commonDepth chain reported > fst best then (commonDepth chain reported, Some key) else best)"

definition reported_best :: "reported_index \<Rightarrow> string \<Rightarrow> u64 list \<Rightarrow> replica_key list \<Rightarrow> nat \<times> replica_key option" where
  "reported_best ix model chain order =
     fold (\<lambda>key best. fold (deeper chain key) (model_chains ix model key) best) order (0, None)"

definition reported_Decide ::
  "reported_index \<Rightarrow> string \<Rightarrow> u64 list \<Rightarrow> replica_key list \<Rightarrow> time \<Rightarrow> prefix_decision \<times> reported_index" where
  "reported_Decide ix model chain candidates now =
     (let order = go_sort key_less candidates;
          cold = \<lparr>Hot = no_hot, HasHot = False, MatchRatio = 0, ColdOrder = order\<rparr>
      in (if length chain = 0 then cold
          else (case reported_best ix model chain order of
                  (bestDepth, Some key) \<Rightarrow>
                    \<lparr>Hot = key, HasHot = True, MatchRatio = real bestDepth / real (length chain), ColdOrder = order\<rparr>
                | (_, None) \<Rightarrow> cold),
          ix))"

definition reported_Observe ::
  "reported_index \<Rightarrow> string \<Rightarrow> u64 list \<Rightarrow> replica_key \<Rightarrow> time \<Rightarrow> bool \<times> reported_index" where
  "reported_Observe ix model chain key now = (False, ix)"

definition reported_Invalidate :: "reported_index \<Rightarrow> string \<Rightarrow> replica_key \<Rightarrow> reported_index" where
  "reported_Invalidate ix model key =
     reported_Apply \<lparr>REOperation = PrefixCacheClear, REModel = model, REChain = [],
       RENode = KNode key, REReplica = KReplica key\<rparr> ix"

definition reported_InvalidateNode :: "reported_index \<Rightarrow> string \<Rightarrow> string \<Rightarrow> reported_index" where
  "reported_InvalidateNode ix model nodeID =
     (case gm_get (residencies ix) model of
        None \<Rightarrow> ix
      | Some br \<Rightarrow> ix\<lparr>residencies :=
          gm_put model (fold gm_del (filter (\<lambda>k. KNode k = nodeID) (gm_keys br)) br) (residencies ix)\<rparr>)"

definition reported_Evict :: "reported_index \<Rightarrow> time \<Rightarrow> reported_index" where
  "reported_Evict ix now = ix"

text \<open>
  Nothing is stored under an empty model or node, no chain is empty, and a replica lists a chain
  once.
\<close>

definition reported_ok :: "reported_index \<Rightarrow> bool" where
  "reported_ok ix \<longleftrightarrow> (\<forall>m k. (m = '''' \<or> KNode k = '''' \<longrightarrow> model_chains ix m k = [])
     \<and> distinct (model_chains ix m k) \<and> [] \<notin> set (model_chains ix m k))"

lemma equalChain_iff: "equalChain a b \<longleftrightarrow> a = b"
  by (auto simp: equalChain_def list_all_iff intro: nth_equalityI)

lemma commonDepth_le: "commonDepth a b \<le> length a"
  by (induction a b rule: commonDepth.induct) auto

text \<open>\<open>commonDepth\<close> is the length of the longest common prefix.\<close>

lemma commonDepth_take: "d \<le> commonDepth a b \<longleftrightarrow> d \<le> length a \<and> d \<le> length b \<and> take d a = take d b"
proof (induction a b arbitrary: d rule: commonDepth.induct)
  case (1 a as b bs)
  then show ?case by (cases d) auto
qed auto

lemma remove_chain_remove1: "remove_chain ch cs = remove1 ch cs"
  by (induction cs) (auto simp: equalChain_iff)

lemma model_chains_Apply:
  "model_chains (reported_Apply ev ix) m k =
     (if REModel ev = '''' \<or> RENode ev = '''' \<or> m \<noteq> REModel ev
         \<or> k \<noteq> \<lparr>KNode = RENode ev, KReplica = REReplica ev\<rparr> then model_chains ix m k
      else case REOperation ev of
             PrefixCacheStore \<Rightarrow>
               if REChain ev = [] \<or> REChain ev \<in> set (model_chains ix m k) then model_chains ix m k
               else model_chains ix m k @ [REChain ev]
           | PrefixCacheRemove \<Rightarrow>
               if REChain ev = [] then model_chains ix m k else remove1 (REChain ev) (model_chains ix m k)
           | PrefixCacheClear \<Rightarrow> []
           | OtherOperation _ \<Rightarrow> model_chains ix m k)"
proof (cases "REModel ev = '''' \<or> RENode ev = ''''")
  case True
  then show ?thesis by (auto simp: reported_Apply_def)
next
  case False
  then show ?thesis
    by (cases "REOperation ev"; cases "gm_get (residencies ix) (REModel ev)")
       (auto simp: reported_Apply_def model_chains_def Let_def gm_get_put gm_get_del gm_get0_def
         equalChain_iff list_ex_iff remove_chain_remove1 split: option.splits)
qed

definition reported_pairs :: "reported_index \<Rightarrow> string \<Rightarrow> replica_key list \<Rightarrow> (replica_key \<times> u64 list) list" where
  "reported_pairs ix m order = concat (map (\<lambda>k. map (Pair k) (model_chains ix m k)) order)"

lemma reported_best_pairs:
  "reported_best ix m ch order = fold (\<lambda>(k, c). deeper ch k c) (reported_pairs ix m order) (0, None)"
proof -
  have "fold (\<lambda>key best. fold (deeper ch key) (model_chains ix m key) best) order b =
      fold (\<lambda>(k, c). deeper ch k c) (reported_pairs ix m order) b" for b
    by (induction order arbitrary: b) (auto simp: reported_pairs_def fold_map comp_def)
  then show ?thesis by (simp add: reported_best_def)
qed

lemma set_reported_pairs:
  "(k, c) \<in> set (reported_pairs ix m order) \<longleftrightarrow> k \<in> set order \<and> c \<in> set (model_chains ix m k)"
  by (auto simp: reported_pairs_def)

lemma deeper_fold:
  assumes "fold (\<lambda>(k, c). deeper ch k c) ps b = (d, h)"
  shows "fst b \<le> d \<and> (\<forall>(k, c) \<in> set ps. commonDepth ch c \<le> d)
    \<and> ((d, h) = b \<or> (\<exists>k c. (k, c) \<in> set ps \<and> h = Some k \<and> commonDepth ch c = d \<and> fst b < d))"
  using assms
proof (induction ps arbitrary: b)
  case Nil
  then show ?case by auto
next
  case (Cons p ps)
  obtain k c where p: "p = (k, c)" by (cases p)
  from Cons.IH [of "deeper ch k c b"] Cons.prems p
  have IH: "fst (deeper ch k c b) \<le> d" "\<forall>(k, c) \<in> set ps. commonDepth ch c \<le> d"
    "(d, h) = deeper ch k c b
      \<or> (\<exists>k' c'. (k', c') \<in> set ps \<and> h = Some k' \<and> commonDepth ch c' = d \<and> fst (deeper ch k c b) < d)"
    by auto
  then show ?case
    unfolding p deeper_def by (auto split: if_splits)
qed

lemma reported_best_spec:
  assumes "reported_best ix m ch order = (d, h)"
  shows "\<And>k c. k \<in> set order \<Longrightarrow> c \<in> set (model_chains ix m k) \<Longrightarrow> commonDepth ch c \<le> d"
    and "h = None \<longleftrightarrow> d = 0"
    and "\<And>k. h = Some k \<Longrightarrow> k \<in> set order \<and> (\<exists>c \<in> set (model_chains ix m k). commonDepth ch c = d)"
  using deeper_fold [OF assms [unfolded reported_best_pairs]]
  by (auto simp: set_reported_pairs)

lemma reported_Decide_hot_iff:
  "HasHot (fst (reported_Decide ix m ch cs now)) \<longleftrightarrow>
     (\<exists>k d. 0 < d \<and> reported_best ix m ch (go_sort key_less cs) = (d, Some k)
        \<and> Hot (fst (reported_Decide ix m ch cs now)) = k
        \<and> MatchRatio (fst (reported_Decide ix m ch cs now)) = real d / real (length ch))"
proof (cases "ch = []")
  case True
  then have "reported_best ix m ch order = (0, None)" for order
    using reported_best_spec(3) [of ix m ch order "fst (reported_best ix m ch order)" "snd (reported_best ix m ch order)"]
      reported_best_spec(2) [of ix m ch order "fst (reported_best ix m ch order)" "snd (reported_best ix m ch order)"]
    by (cases "reported_best ix m ch order"; cases "snd (reported_best ix m ch order)") auto
  with True show ?thesis by (auto simp: reported_Decide_def Let_def)
next
  case False
  obtain d h where r: "reported_best ix m ch (go_sort key_less cs) = (d, h)" by fastforce
  with False reported_best_spec(2) [OF r] show ?thesis
    by (cases h) (auto simp: reported_Decide_def Let_def)
qed

lemma reported_Decide_hot:
  assumes "HasHot (fst (reported_Decide ix m ch cs now))"
  obtains c where "Hot (fst (reported_Decide ix m ch cs now)) \<in> set cs"
    and "c \<in> set (model_chains ix m (Hot (fst (reported_Decide ix m ch cs now))))"
    and "0 < commonDepth ch c"
    and "MatchRatio (fst (reported_Decide ix m ch cs now)) = real (commonDepth ch c) / real (length ch)"
    and "\<And>k c'. k \<in> set cs \<Longrightarrow> c' \<in> set (model_chains ix m k) \<Longrightarrow> commonDepth ch c' \<le> commonDepth ch c"
proof -
  obtain k d where r: "0 < d" "reported_best ix m ch (go_sort key_less cs) = (d, Some k)"
    and h: "Hot (fst (reported_Decide ix m ch cs now)) = k"
    and mr: "MatchRatio (fst (reported_Decide ix m ch cs now)) = real d / real (length ch)"
    using assms [unfolded reported_Decide_hot_iff] by blast
  obtain c where "c \<in> set (model_chains ix m k)" "commonDepth ch c = d"
    using reported_best_spec(3) [OF r(2) refl] by blast
  moreover have "k \<in> set cs" using reported_best_spec(3) [OF r(2) refl] by simp
  ultimately show thesis
    using that [of c] reported_best_spec(1) [OF r(2)] r(1) h mr by simp
qed

lemma reported_Apply_ok: "reported_ok ix \<Longrightarrow> reported_ok (reported_Apply ev ix)"
  by (auto simp: reported_ok_def model_chains_Apply notin_set_remove1 split: cache_operation.splits)

lemma model_chains_InvalidateNode:
  "model_chains (reported_InvalidateNode ix m n) m' k =
     (if m' = m \<and> KNode k = n then [] else model_chains ix m' k)"
  by (auto simp: reported_InvalidateNode_def model_chains_def gm_get_put gm_get0_def gm_get_fold_del
      dest: gm_get_in_keys split: option.splits)

interpretation reported: prefix_provider reported_ok reported_Decide reported_Observe reported_Invalidate
  reported_InvalidateNode reported_Evict
proof
  fix ix m ch cs k now n
  assume ok: "reported_ok ix"
  show "reported_ok (snd (reported_Decide ix m ch cs now))" "reported_ok (snd (reported_Observe ix m ch k now))"
    "reported_ok (reported_Invalidate ix m k)" "reported_ok (reported_Evict ix now)"
    using ok by (auto simp: reported_Decide_def reported_Observe_def reported_Invalidate_def reported_Evict_def
        reported_Apply_ok Let_def)
  show "reported_ok (reported_InvalidateNode ix m n)"
    using ok by (auto simp: reported_ok_def model_chains_InvalidateNode)
  show "mset (ColdOrder (fst (reported_Decide ix m ch cs now))) = mset cs"
    by (auto simp: reported_Decide_def Let_def split: prod.splits option.splits)
  show "Hot (fst (reported_Decide ix m ch cs now)) \<in> set cs" if "HasHot (fst (reported_Decide ix m ch cs now))"
    using that by (rule reported_Decide_hot)
  show "0 < MatchRatio (fst (reported_Decide ix m ch cs now)) \<and> MatchRatio (fst (reported_Decide ix m ch cs now)) \<le> 1"
    if "HasHot (fst (reported_Decide ix m ch cs now))"
    using that by (rule reported_Decide_hot) (metis commonDepth_le ratio_unit)
  show "Hot (fst (reported_Decide (reported_Invalidate ix m k) m ch cs now)) \<noteq> k"
    if "m \<noteq> ''''" "KNode k \<noteq> ''''" "HasHot (fst (reported_Decide (reported_Invalidate ix m k) m ch cs now))"
    using that(3)
  proof (rule reported_Decide_hot)
    fix c
    assume "c \<in> set (model_chains (reported_Invalidate ix m k) m
      (Hot (fst (reported_Decide (reported_Invalidate ix m k) m ch cs now))))"
    with that(1,2) show ?thesis
      by (auto simp: reported_Invalidate_def model_chains_Apply split: if_splits)
  qed
  show "KNode (Hot (fst (reported_Decide (reported_InvalidateNode ix m n) m ch cs now))) \<noteq> n"
    if "HasHot (fst (reported_Decide (reported_InvalidateNode ix m n) m ch cs now))"
    using that by (rule reported_Decide_hot) (auto simp: model_chains_InvalidateNode split: if_splits)
qed

section \<open>Sharing a provider between frontends\<close>

text \<open>
  \<open>Sync\<close> holds a \<open>Provider\<close> value, so its operations take the provider's operation that they
  call as their first argument. \<open>outbox\<close> is what was handed to \<open>Publish\<close>, in order;
  \<open>hasPub\<close> is \<^verbatim>\<open>pub != nil\<close>.
\<close>

datatype sync_event =
    ObserveEvent (oeModel: string) (oeChain: "u64 list") (oeNode: string) (oeReplica: int)
  | InvalidateEvent (ieModel: string) (ieNode: string) (ieReplica: int)

record 's sync =
  idx :: 's
  hasPub :: bool
  outbox :: "sync_event list"

definition NewSync :: "'s \<Rightarrow> bool \<Rightarrow> 's sync" where
  "NewSync i p = \<lparr>idx = i, hasPub = p, outbox = []\<rparr>"

definition publish :: "sync_event \<Rightarrow> 's sync \<Rightarrow> 's sync" where
  "publish ev s = (if hasPub s then s\<lparr>outbox := outbox s @ [ev]\<rparr> else s)"

definition sync_Observe ::
  "('s \<Rightarrow> string \<Rightarrow> u64 list \<Rightarrow> replica_key \<Rightarrow> time \<Rightarrow> bool \<times> 's)
     \<Rightarrow> 's sync \<Rightarrow> string \<Rightarrow> u64 list \<Rightarrow> replica_key \<Rightarrow> time \<Rightarrow> bool \<times> 's sync" where
  "sync_Observe observe s model chain key now =
     (let (changed, i) = observe (idx s) model chain key now;
          s' = s\<lparr>idx := i\<rparr>
      in (changed,
          if changed then publish (ObserveEvent model chain (KNode key) (KReplica key)) s' else s'))"

definition sync_Invalidate ::
  "('s \<Rightarrow> string \<Rightarrow> replica_key \<Rightarrow> 's) \<Rightarrow> 's sync \<Rightarrow> string \<Rightarrow> replica_key \<Rightarrow> 's sync" where
  "sync_Invalidate invalidate s model key =
     publish (InvalidateEvent model (KNode key) (KReplica key)) (s\<lparr>idx := invalidate (idx s) model key\<rparr>)"

definition sync_InvalidateNode ::
  "('s \<Rightarrow> string \<Rightarrow> string \<Rightarrow> 's) \<Rightarrow> 's sync \<Rightarrow> string \<Rightarrow> string \<Rightarrow> 's sync" where
  "sync_InvalidateNode invalidateNode s model node =
     publish (InvalidateEvent model node (-1)) (s\<lparr>idx := invalidateNode (idx s) model node\<rparr>)"

definition sync_ApplyObserve ::
  "('s \<Rightarrow> string \<Rightarrow> u64 list \<Rightarrow> replica_key \<Rightarrow> time \<Rightarrow> bool \<times> 's)
     \<Rightarrow> 's sync \<Rightarrow> string \<Rightarrow> u64 list \<Rightarrow> string \<Rightarrow> int \<Rightarrow> time \<Rightarrow> 's sync" where
  "sync_ApplyObserve observe s model chain node replica now =
     s\<lparr>idx := snd (observe (idx s) model chain \<lparr>KNode = node, KReplica = replica\<rparr> now)\<rparr>"

definition sync_ApplyInvalidate ::
  "('s \<Rightarrow> string \<Rightarrow> replica_key \<Rightarrow> 's) \<Rightarrow> ('s \<Rightarrow> string \<Rightarrow> string \<Rightarrow> 's)
     \<Rightarrow> 's sync \<Rightarrow> string \<Rightarrow> string \<Rightarrow> int \<Rightarrow> 's sync" where
  "sync_ApplyInvalidate invalidate invalidateNode s model node replica =
     (if replica < 0 then s\<lparr>idx := invalidateNode (idx s) model node\<rparr>
      else s\<lparr>idx := invalidate (idx s) model \<lparr>KNode = node, KReplica = replica\<rparr>\<rparr>)"

definition sync_Decide ::
  "('s \<Rightarrow> string \<Rightarrow> u64 list \<Rightarrow> replica_key list \<Rightarrow> time \<Rightarrow> prefix_decision \<times> 's)
     \<Rightarrow> 's sync \<Rightarrow> string \<Rightarrow> u64 list \<Rightarrow> replica_key list \<Rightarrow> time \<Rightarrow> prefix_decision \<times> 's sync" where
  "sync_Decide decide s model chain candidates now =
     (let (d, i) = decide (idx s) model chain candidates now in (d, s\<lparr>idx := i\<rparr>))"

definition sync_Evict :: "('s \<Rightarrow> time \<Rightarrow> 's) \<Rightarrow> 's sync \<Rightarrow> time \<Rightarrow> 's sync" where
  "sync_Evict evict s now = s\<lparr>idx := evict (idx s) now\<rparr>"

text \<open>The delivery of an event to a peer: the subscription calls the matching apply function.\<close>

fun deliver ::
  "('s \<Rightarrow> string \<Rightarrow> u64 list \<Rightarrow> replica_key \<Rightarrow> time \<Rightarrow> bool \<times> 's) \<Rightarrow> ('s \<Rightarrow> string \<Rightarrow> replica_key \<Rightarrow> 's)
     \<Rightarrow> ('s \<Rightarrow> string \<Rightarrow> string \<Rightarrow> 's) \<Rightarrow> time \<Rightarrow> sync_event \<Rightarrow> 's sync \<Rightarrow> 's sync" where
  "deliver observe invalidate invalidateNode now (ObserveEvent m ch n r) s = sync_ApplyObserve observe s m ch n r now"
| "deliver observe invalidate invalidateNode now (InvalidateEvent m n r) s =
     sync_ApplyInvalidate invalidate invalidateNode s m n r"

lemma replica_key_eta [simp]: "\<lparr>KNode = KNode k, KReplica = KReplica k\<rparr> = k"
  by simp

lemma publish_idx [simp]: "idx (publish ev s) = idx s"
  by (simp add: publish_def)

lemma sync_decide_fst [simp]: "fst (sync_Decide d s m ch cs now) = fst (d (idx s) m ch cs now)"
  by (simp add: sync_Decide_def split: prod.splits)

lemma sync_idx [simp]:
  "idx (snd (sync_Decide d s m ch cs now)) = snd (d (idx s) m ch cs now)"
  "idx (snd (sync_Observe ob s m ch k now)) = snd (ob (idx s) m ch k now)"
  "idx (sync_Invalidate ivd s m k) = ivd (idx s) m k"
  "idx (sync_InvalidateNode invn s m n) = invn (idx s) m n"
  "idx (sync_Evict ev s now) = ev (idx s) now"
  by (auto simp: sync_Decide_def sync_Observe_def sync_Invalidate_def sync_InvalidateNode_def sync_Evict_def
      Let_def split: prod.splits)

locale synced_provider = prefix_provider
begin

text \<open>
  A peer that receives the last event of a frontend's invalidation forgets the replica too, whether
  it was one replica or all replicas of a node.
\<close>

lemma peer_forgets:
  assumes "wf (idx peer)" and "m \<noteq> ''''" and "KNode k \<noteq> ''''" and "hasPub s" and "0 \<le> KReplica k"
    and "HasHot (fst (sync_Decide decide
       (deliver observe invalidate invalidateNode t (last (outbox (sync_Invalidate invalidate s m k))) peer) m ch cs now))"
  shows "Hot (fst (sync_Decide decide
       (deliver observe invalidate invalidateNode t (last (outbox (sync_Invalidate invalidate s m k))) peer) m ch cs now)) \<noteq> k"
proof -
  have "idx (deliver observe invalidate invalidateNode t (last (outbox (sync_Invalidate invalidate s m k))) peer)
      = invalidate (idx peer) m k"
    using assms by (simp add: sync_Invalidate_def publish_def sync_ApplyInvalidate_def)
  with invalidate_forgets [OF assms(1-3)] assms(6) show ?thesis by simp
qed

lemma peer_forgets_node:
  assumes "wf (idx peer)" and "hasPub s"
    and "HasHot (fst (sync_Decide decide
       (deliver observe invalidate invalidateNode t (last (outbox (sync_InvalidateNode invalidateNode s m n))) peer) m ch cs now))"
  shows "KNode (Hot (fst (sync_Decide decide
       (deliver observe invalidate invalidateNode t (last (outbox (sync_InvalidateNode invalidateNode s m n))) peer) m ch cs now))) \<noteq> n"
proof -
  have "idx (deliver observe invalidate invalidateNode t (last (outbox (sync_InvalidateNode invalidateNode s m n))) peer)
      = invalidateNode (idx peer) m n"
    using assms by (simp add: sync_InvalidateNode_def publish_def sync_ApplyInvalidate_def)
  with invalidateNode_forgets [OF assms(1)] assms(3) show ?thesis by simp
qed

end

sublocale synced_provider \<subseteq> synced: prefix_provider "\<lambda>s. wf (idx s)" "sync_Decide decide" "sync_Observe observe"
  "sync_Invalidate invalidate" "sync_InvalidateNode invalidateNode" "sync_Evict evict"
  by unfold_locales
    (simp_all add: wf_decide wf_observe wf_invalidate wf_invalidateNode wf_evict hot_candidate cold_order_perm
      ratio_range invalidate_forgets invalidateNode_forgets)

interpretation guessed_sync: synced_provider index_ok index_Decide index_Observe index_Invalidate
  index_InvalidateNode index_Evict
  by unfold_locales

interpretation reported_sync: synced_provider reported_ok reported_Decide reported_Observe reported_Invalidate
  reported_InvalidateNode reported_Evict
  by unfold_locales

section \<open>Properties\<close>

lemma weight_order: "strict_weak (weight_less w)"
proof
  show "weight_less w x y \<Longrightarrow> \<not> weight_less w y x" for x y
    using key_order.asym by (auto simp: weight_less_def split: if_splits)
  show "\<not> weight_less w x y \<Longrightarrow> \<not> weight_less w y z \<Longrightarrow> \<not> weight_less w x z" for x y z
    using key_order.neg_trans by (auto simp: weight_less_def split: if_splits)
qed


abbreviation key_a :: replica_key where
  "key_a \<equiv> \<lparr>KNode = ''a'', KReplica = 0\<rparr>"

abbreviation key_b :: replica_key where
  "key_b \<equiv> \<lparr>KNode = ''b'', KReplica = 1\<rparr>"

definition sample_index :: index where
  "sample_index = snd (index_Observe (NewIndex DefaultConfig) ''m'' [1, 2] key_b 50)"

lemma sample_index_ok: "index_ok sample_index"
  unfolding sample_index_def by (rule index_Observe_ok) (simp add: index_ok_def NewIndex_def)

lemma default_fresh: "\<not> stale (index_options sample_index) 60 50"
  by (simp add: stale_def time_sub_def index_options_def sample_index_def index_Observe_def index_tree_def
      NewIndex_def DefaultConfig_def Let_def set_tree_def minute_def second_def max_duration_def min_duration_def)

lemma NewIndex_ok: "index_ok (NewIndex cfg)"
  by (simp add: index_ok_def NewIndex_def)

lemma sample_remembered: "remembered sample_index ''m'' p = (if p \<noteq> [] \<and> prefix p [1, 2] then Some (key_b, 50) else None)"
  unfolding sample_index_def
  by (subst index_Observe_remembered [OF NewIndex_ok]) (auto simp: never_cached existingTree_def NewIndex_def)

lemma sample_match: "LongestMatch (fst (index_tree sample_index ''m'')) [1, 2] 60 = Some (key_b, 2)"
  using LongestMatch_exact [of "fst (index_tree sample_index ''m'')" "[1, 2]" key_b 50 60]
    sample_remembered [of "[1, 2]"] default_fresh index_tree_ok [OF sample_index_ok, of "''m''"]
  by (simp add: remembered_def)


text \<open>
  C8: what is observed is decided, on the frontend that served the request and on a peer that
  receives its broadcast: an index of \<open>Sync\<close> that observed the chain for a replica, and one to
  which the event was delivered, give that replica as hot with ratio 1 for the same chain while
  the entry is within its TTL.
\<close>

theorem observe_then_decide:
  assumes "index_ok (idx s)" and "index_ok (idx peer)" and "hasPub s" and "ch \<noteq> []" and "KNode k \<noteq> ''''"
    and "fst (sync_Observe index_Observe s m ch k t)" and "k \<in> set cs"
    and "\<not> stale (index_options (idx s)) now t" and "\<not> stale (index_options (idx peer)) now t"
  shows "(let d = fst (sync_Decide index_Decide (snd (sync_Observe index_Observe s m ch k t)) m ch cs now)
          in HasHot d \<and> Hot d = k \<and> MatchRatio d = 1)
    \<and> (let d = fst (sync_Decide index_Decide (deliver index_Observe index_Invalidate index_InvalidateNode t
                (last (outbox (snd (sync_Observe index_Observe s m ch k t)))) peer) m ch cs now)
       in HasHot d \<and> Hot d = k \<and> MatchRatio d = 1)"
proof -
  have one: "HasHot d \<and> Hot d = k \<and> MatchRatio d = 1"
    if ok: "index_ok ix" and fresh: "\<not> stale (index_options ix) now t"
      and d: "d = fst (index_Decide (snd (index_Observe ix m ch k t)) m ch cs now)" for ix d
  proof -
    let ?ix = "snd (index_Observe ix m ch k t)"
    have "opts (fst (index_tree ?ix m)) = index_options ix"
      using index_tree_ok [OF ok, of m] assms(4,5)
      by (auto simp: index_Observe_def Let_def split: prod.splits)
    moreover have "entries (troot (fst (index_tree ?ix m))) ch = Some (k, t)"
      using index_Observe_remembered [OF ok assms(4,5), of m t ch] assms(4) by (simp add: remembered_def)
    ultimately have m: "LongestMatch (fst (index_tree ?ix m)) ch now = Some (k, length ch)"
      using fresh assms(4) by (intro LongestMatch_exact [where ls = t]) auto
    then have h: "HasHot d" using assms(7) unfolding d index_Decide_hot_iff by blast
    with index_Decide_hot(1) [of ?ix m ch cs now] m d assms(4) show ?thesis by auto
  qed
  have "deliver index_Observe index_Invalidate index_InvalidateNode t
      (last (outbox (snd (sync_Observe index_Observe s m ch k t)))) peer =
      peer\<lparr>idx := snd (index_Observe (idx peer) m ch k t)\<rparr>"
    using assms(3,6) by (auto simp: sync_Observe_def sync_ApplyObserve_def publish_def Let_def split: prod.splits)
  with one [OF assms(1,8) refl] one [OF assms(2,9) refl] show ?thesis by (simp add: Let_def)
qed

theorem observe_then_decide_witness:
  "Hot (fst (sync_Decide index_Decide (deliver index_Observe index_Invalidate index_InvalidateNode 50
      (last (outbox (snd (sync_Observe index_Observe (NewSync (NewIndex DefaultConfig) True) ''m'' [1, 2] key_b 50))))
      (NewSync (NewIndex DefaultConfig) True)) ''m'' [1, 2] [key_a, key_b] 60)) = key_b"
proof -
  have new: "fst (sync_Observe index_Observe (NewSync (NewIndex DefaultConfig) True) ''m'' [1, 2] key_b 50)"
    by (simp add: sync_Observe_def index_Observe_def NewSync_def NewIndex_def index_tree_def Let_def
        LongestMatch_def New_def)
  have fresh: "\<not> stale (index_options (NewIndex DefaultConfig)) 60 50"
    by (simp add: stale_def time_sub_def index_options_def NewIndex_def DefaultConfig_def minute_def second_def
        max_duration_def min_duration_def)
  show ?thesis
    using observe_then_decide [of "NewSync (NewIndex DefaultConfig) True" "NewSync (NewIndex DefaultConfig) True"
        "[1, 2]" key_b "''m''" 50 "[key_a, key_b]" 60] new fresh NewIndex_ok [of DefaultConfig]
    by (simp add: NewSync_def Let_def)
qed

text \<open>
  C9: an invalidated replica is forgotten everywhere. After \<open>Invalidate\<close> of a replica, neither
  the frontend that called it nor a peer that received its broadcast decides on that replica; after
  \<open>InvalidateNode\<close>, no replica of the node is hot on either, for whatever chain and candidates.
\<close>

theorem invalidate_everywhere:
  assumes "index_ok (idx s)" and "index_ok (idx peer)" and "hasPub s" and "m \<noteq> ''''" and "KNode k \<noteq> ''''"
    and "0 \<le> KReplica k"
  shows "(let s1 = sync_Invalidate index_Invalidate s m k;
              peer1 = deliver index_Observe index_Invalidate index_InvalidateNode t (last (outbox s1)) peer;
              s2 = sync_InvalidateNode index_InvalidateNode s m n;
              peer2 = deliver index_Observe index_Invalidate index_InvalidateNode t (last (outbox s2)) peer;
              dec = (\<lambda>f. fst (sync_Decide index_Decide f m ch cs now))
          in (\<forall>f. f = s1 \<or> f = peer1 \<longrightarrow> HasHot (dec f) \<longrightarrow> Hot (dec f) \<noteq> k)
             \<and> (\<forall>f. f = s2 \<or> f = peer2 \<longrightarrow> HasHot (dec f) \<longrightarrow> KNode (Hot (dec f)) \<noteq> n))"
  using guessed_sync.synced.invalidate_forgets [OF assms(1,4,5)] guessed_sync.synced.invalidateNode_forgets [OF assms(1)]
    guessed_sync.peer_forgets [OF assms(2,4,5,3,6)] guessed_sync.peer_forgets_node [OF assms(2,3)]
  unfolding Let_def by (auto simp del: sync_decide_fst sync_idx)

theorem invalidate_everywhere_witness:
  "HasHot (fst (index_Decide sample_index ''m'' [1, 2] [key_a, key_b] 60))
   \<and> \<not> (HasHot (fst (sync_Decide index_Decide (sync_Invalidate index_Invalidate (NewSync sample_index True) ''m'' key_b)
          ''m'' [1, 2] [key_a, key_b] 60))
      \<and> Hot (fst (sync_Decide index_Decide (sync_Invalidate index_Invalidate (NewSync sample_index True) ''m'' key_b)
          ''m'' [1, 2] [key_a, key_b] 60)) = key_b)"
proof
  show "HasHot (fst (index_Decide sample_index ''m'' [1, 2] [key_a, key_b] 60))"
    unfolding index_Decide_hot_iff using sample_match by auto
  show "\<not> (HasHot (fst (sync_Decide index_Decide (sync_Invalidate index_Invalidate (NewSync sample_index True) ''m'' key_b)
          ''m'' [1, 2] [key_a, key_b] 60))
      \<and> Hot (fst (sync_Decide index_Decide (sync_Invalidate index_Invalidate (NewSync sample_index True) ''m'' key_b)
          ''m'' [1, 2] [key_a, key_b] 60)) = key_b)"
    using invalidate_everywhere [of "NewSync sample_index True" "NewSync sample_index True" "''m''" key_b 0 "''b''"
        "[1, 2]" "[key_a, key_b]" 60] sample_index_ok
    by (simp add: NewSync_def Let_def del: sync_decide_fst sync_idx)
qed


definition sample_reported :: reported_index where
  "sample_reported =
     fold reported_Apply
       [\<lparr>REOperation = PrefixCacheStore, REModel = ''m'', REChain = [1, 2], RENode = ''a'', REReplica = 0\<rparr>,
        \<lparr>REOperation = PrefixCacheStore, REModel = ''m'', REChain = [1, 2, 3], RENode = ''b'', REReplica = 1\<rparr>]
       NewReportedIndex"


end
