(* ===== verification/PrefixPressure.thy ===== *)
theory PrefixPressure
  imports Prelude
begin

text \<open>
  \<^verbatim>\<open>core/services/nodes/prefixcache/pressure.go\<close>: the rolling count, per model, of requests that the
  load guard forced off their warm replica. The reconciler scales up on it, so an event that
  NATS delivers twice, or echoes to its sender, must count once. \<open>p.seq\<close> is a 64-bit word.
  \<open>outbox\<close> of the state is what was handed to \<open>Publish\<close>; a failed publish is only logged. The
  random \<open>origin\<close> of \<open>NewSyncedPressure\<close> is an argument.
\<close>

record pressure_event =
  PEId :: string
  PEModel :: string
  PEReset :: bool

record pressure =
  window :: duration
  events :: "(string, time list) gomap"
  seen :: "(string, time) gomap"
  pub_set :: bool
  origin :: string
  seq :: u64
  published :: "pressure_event list"

definition NewPressure :: "duration \<Rightarrow> pressure" where
  "NewPressure w = \<lparr>window = w, events = [], seen = [], pub_set = False, origin = '''', seq = 0, published = []\<rparr>"

definition NewSyncedPressure :: "duration \<Rightarrow> bool \<Rightarrow> string \<Rightarrow> pressure" where
  "NewSyncedPressure w p o_id = (NewPressure w)\<lparr>pub_set := p, origin := o_id\<rparr>"

definition pruneLocked :: "time list \<Rightarrow> time \<Rightarrow> time list" where
  "pruneLocked ts cutoff = filter (\<lambda>t. \<not> t < cutoff) ts"

definition pressure_record :: "string \<Rightarrow> string \<Rightarrow> time \<Rightarrow> pressure \<Rightarrow> pressure" where
  "pressure_record model i now p =
     (let cutoff = now - window p;
          p1 = p\<lparr>seen := filter (\<lambda>(e, r). \<not> r < cutoff) (seen p)\<rparr>;
          add = (\<lambda>q. q\<lparr>events := gm_put model (pruneLocked (gm_get0 [] (events q) model) cutoff @ [now]) (events q)\<rparr>)
      in if i \<noteq> ''''
         then (case gm_get (seen p1) i of
                 Some _ \<Rightarrow> p1
               | None \<Rightarrow> add (p1\<lparr>seen := gm_put i now (seen p1)\<rparr>))
         else add p1)"

definition pressure_reset :: "string \<Rightarrow> string \<Rightarrow> time \<Rightarrow> pressure \<Rightarrow> pressure" where
  "pressure_reset model i now p =
     (case gm_get (seen p) i of
        Some _ \<Rightarrow> p
      | None \<Rightarrow> p\<lparr>seen := gm_put i now (seen p), events := gm_del model (events p)\<rparr>)"

definition next_id :: "pressure \<Rightarrow> string \<times> pressure" where
  "next_id p = (let n = seq p + 1 in (origin p @ '':'' @ dec_of (unat n), p\<lparr>seq := n\<rparr>))"

definition pressure_publish :: "pressure_event \<Rightarrow> pressure \<Rightarrow> pressure" where
  "pressure_publish ev p = (if pub_set p then p\<lparr>published := published p @ [ev]\<rparr> else p)"

definition Record :: "string \<Rightarrow> time \<Rightarrow> pressure \<Rightarrow> pressure" where
  "Record model now p =
     (let (i, p1) = next_id p
      in pressure_publish \<lparr>PEId = i, PEModel = model, PEReset = False\<rparr> (pressure_record model i now p1))"

definition Reset :: "string \<Rightarrow> time \<Rightarrow> pressure \<Rightarrow> pressure" where
  "Reset model now p =
     (let (i, p1) = next_id p
      in pressure_publish \<lparr>PEId = i, PEModel = model, PEReset = True\<rparr> (pressure_reset model i now p1))"

definition ApplyPressure :: "pressure_event \<Rightarrow> time \<Rightarrow> pressure \<Rightarrow> pressure" where
  "ApplyPressure ev now p =
     (if PEId ev = '''' \<or> PEModel ev = '''' then p
      else if PEReset ev then pressure_reset (PEModel ev) (PEId ev) now p
      else pressure_record (PEModel ev) (PEId ev) now p)"

definition Count :: "string \<Rightarrow> time \<Rightarrow> pressure \<Rightarrow> nat \<times> pressure" where
  "Count model now p =
     (let ts = gm_get0 [] (events p) model
      in if length ts = 0 then (0, p)
         else let kept = pruneLocked ts (now - window p)
              in if length kept = 0 then (0, p\<lparr>events := gm_del model (events p)\<rparr>)
                 else (length kept, p\<lparr>events := gm_put model kept (events p)\<rparr>))"

section \<open>Facts\<close>

lemma Count_window:
  "fst (Count model now p) = length (filter (\<lambda>t. now - window p \<le> t) (gm_get0 [] (events p) model))"
  by (auto simp: Count_def Let_def pruneLocked_def not_less)

lemma gm_get_filter_value:
  "distinct (gm_keys m) \<Longrightarrow> gm_get (filter (\<lambda>(k, v). P v) m) k =
    (case gm_get m k of None \<Rightarrow> None | Some v \<Rightarrow> if P v then Some v else None)"
proof (induction m)
  case (Cons e m)
  then show ?case
    by (cases e) (auto simp: gm_get_None_iff split: option.splits dest: map_of_SomeD)
qed simp

lemma filter_value_keys: "distinct (gm_keys m) \<Longrightarrow> distinct (gm_keys (filter (\<lambda>(k, v). P v) m))"
  by (induction m) auto

text \<open>A redelivery of an event seen within the window changes no count.\<close>

lemma ApplyPressure_duplicate:
  assumes "distinct (gm_keys (seen p))" and "gm_get (seen p) (PEId ev) = Some t" and "now - window p \<le> t"
  shows "events (ApplyPressure ev now p) = events p"
  using assms gm_get_filter_value [OF assms(1), of "\<lambda>r. \<not> r < now - window p" "PEId ev"]
  by (auto simp: ApplyPressure_def pressure_reset_def pressure_record_def Let_def)

text \<open>
  What a fresh counter holds after the deliveries \<open>ds\<close>, all within one window ending at \<open>T\<close>: every
  id is seen, with a time within the window, and a model has one timestamp for each of its ids.
\<close>

definition deliveries_ok :: "duration \<Rightarrow> time \<Rightarrow> (pressure_event \<times> time) list \<Rightarrow> bool" where
  "deliveries_ok w T ds \<longleftrightarrow>
     (\<forall>(ev, t) \<in> set ds. PEId ev \<noteq> '''' \<and> PEModel ev \<noteq> '''' \<and> \<not> PEReset ev \<and> T - w \<le> t \<and> t \<le> T
        \<and> (\<forall>(ev', t') \<in> set ds. PEId ev' = PEId ev \<longrightarrow> PEModel ev' = PEModel ev))"

definition ids_of :: "string \<Rightarrow> (pressure_event \<times> time) list \<Rightarrow> string set" where
  "ids_of m ds = {PEId ev | ev t. (ev, t) \<in> set ds \<and> PEModel ev = m}"

definition counted :: "duration \<Rightarrow> time \<Rightarrow> (pressure_event \<times> time) list \<Rightarrow> pressure \<Rightarrow> bool" where
  "counted w T ds p \<longleftrightarrow> window p = w \<and> distinct (gm_keys (seen p))
     \<and> set (gm_keys (seen p)) = (\<lambda>(ev, t). PEId ev) ` set ds
     \<and> (\<forall>(i, t) \<in> set (seen p). T - w \<le> t)
     \<and> (\<forall>m. length (gm_get0 [] (events p) m) = card (ids_of m ds)
          \<and> (\<forall>t \<in> set (gm_get0 [] (events p) m). T - w \<le> t))"

lemma ids_of_finite: "finite (ids_of m ds)"
proof -
  have "ids_of m ds \<subseteq> (\<lambda>(ev, t). PEId ev) ` set ds" by (force simp: ids_of_def)
  then show ?thesis by (rule finite_subset) simp
qed

lemma pruneLocked_recent: "\<forall>t \<in> set ts. c \<le> t \<Longrightarrow> pruneLocked ts c = ts"
  by (auto simp: pruneLocked_def filter_id_conv)

lemma pressure_record_recent:
  assumes "\<forall>(i, t) \<in> set (seen p). now - window p \<le> t"
    and "\<forall>t \<in> set (gm_get0 [] (events p) m). now - window p \<le> t" and "i \<noteq> ''''"
  shows "pressure_record m i now p =
    (if gm_get (seen p) i = None
     then p\<lparr>seen := gm_put i now (seen p), events := gm_put m (gm_get0 [] (events p) m @ [now]) (events p)\<rparr>
     else p)"
proof -
  have "filter (\<lambda>(e, r). \<not> r < now - window p) (seen p) = seen p"
    using assms(1) by (auto simp: filter_id_conv)
  then show ?thesis
    using assms(3) by (auto simp: pressure_record_def Let_def pruneLocked_recent [OF assms(2)] split: option.splits)
qed

lemma counted_step:
  assumes inv: "counted w T ds p" and ok: "deliveries_ok w T (ds @ [(ev, t)])"
  shows "counted w T (ds @ [(ev, t)]) (ApplyPressure ev t p)"
proof -
  let ?i = "PEId ev" and ?m = "PEModel ev"
  have ev: "?i \<noteq> ''''" "?m \<noteq> ''''" "\<not> PEReset ev" "T - w \<le> t" "t \<le> T"
    using ok by (auto simp: deliveries_ok_def)
  have w: "window p = w" and recent: "\<forall>(i, t) \<in> set (seen p). T - w \<le> t"
    and recent': "\<And>m. \<forall>t \<in> set (gm_get0 [] (events p) m). T - w \<le> t"
    using inv by (auto simp: counted_def)
  have ap: "ApplyPressure ev t p =
      (if gm_get (seen p) ?i = None
       then p\<lparr>seen := gm_put ?i t (seen p), events := gm_put ?m (gm_get0 [] (events p) ?m @ [t]) (events p)\<rparr>
       else p)"
    unfolding ApplyPressure_def using ev recent recent' [of ?m] w
    by (subst pressure_record_recent) (auto split: prod.splits)
  have same: "PEModel ev' = ?m" if "(ev', t') \<in> set ds" "PEId ev' = ?i" for ev' t'
    using ok that by (auto simp: deliveries_ok_def)
  show ?thesis
  proof (cases "?i \<in> (\<lambda>(ev, t). PEId ev) ` set ds")
    case True
    then obtain ev' t' where e: "(ev', t') \<in> set ds" "PEId ev' = ?i" by auto
    have "gm_get (seen p) ?i \<noteq> None" using inv True by (auto simp: counted_def gm_get_None_iff)
    moreover have "ids_of m (ds @ [(ev, t)]) = ids_of m ds" for m
      using e same [OF e] unfolding ids_of_def by auto metis+
    ultimately show ?thesis using inv True ap by (auto simp: counted_def)
  next
    case False
    then have new: "gm_get (seen p) ?i = None" and ni: "?i \<notin> ids_of ?m ds"
      using inv by (force simp: counted_def gm_get_None_iff ids_of_def)+
    have ids: "ids_of m (ds @ [(ev, t)]) = (if m = ?m then insert ?i (ids_of m ds) else ids_of m ds)" for m
      by (auto simp: ids_of_def)
    have ev_get: "gm_get0 [] (gm_put ?m (gm_get0 [] (events p) ?m @ [t]) (events p)) m =
        (if m = ?m then gm_get0 [] (events p) ?m @ [t] else gm_get0 [] (events p) m)" for m
      by (simp add: gm_get0_def gm_get_put)
    have seen': "\<forall>(i, t) \<in> set (gm_put ?i t (seen p)). T - w \<le> t"
      using recent ev(4) new by (auto dest!: set_gm_put [THEN subsetD])
    have keys: "set (gm_keys (gm_put ?i t (seen p))) = (\<lambda>(ev, t). PEId ev) ` set (ds @ [(ev, t)])"
      using inv by (simp add: counted_def gm_put_keys del: set_map)
    show ?thesis
      using inv new ids ni ev(4) ids_of_finite [of ?m ds] recent' seen' keys
      unfolding ap counted_def by (simp add: ev_get del: set_map)
  qed
qed

lemma counted_run:
  "deliveries_ok w T ds \<Longrightarrow> counted w T ds (fold (\<lambda>(ev, t). ApplyPressure ev t) ds (NewPressure w))"
proof (induction ds rule: rev_induct)
  case Nil
  show ?case by (simp add: counted_def NewPressure_def gm_get0_def ids_of_def)
next
  case (snoc d ds)
  obtain ev t where d: "d = (ev, t)" by (cases d)
  have "deliveries_ok w T ds" using snoc.prems by (auto simp: deliveries_ok_def)
  then have "counted w T ds (fold (\<lambda>(ev, t). ApplyPressure ev t) ds (NewPressure w))" by (rule snoc.IH)
  then show ?case using counted_step snoc.prems by (simp add: d)
qed

section \<open>Properties\<close>

text \<open>
  C11: whatever the order and however often NATS delivers a set of pressure events within one
  window, the count of a model at its end is the number of distinct events for that model.
\<close>

theorem pressure_counts_once:
  assumes "deliveries_ok w T ds"
  shows "fst (Count m T (fold (\<lambda>(ev, t). ApplyPressure ev t) ds (NewPressure w))) = card (ids_of m ds)"
proof -
  let ?p = "fold (\<lambda>(ev, t). ApplyPressure ev t) ds (NewPressure w)"
  from counted_run [OF assms] have "window ?p = w" "length (gm_get0 [] (events ?p) m) = card (ids_of m ds)"
    "\<forall>t \<in> set (gm_get0 [] (events ?p) m). T - w \<le> t"
    by (simp_all add: counted_def)
  then show ?thesis by (simp add: Count_window)
qed

definition sample_deliveries :: "(pressure_event \<times> time) list" where
  "sample_deliveries =
     [(\<lparr>PEId = ''a:1'', PEModel = ''m'', PEReset = False\<rparr>, 10),
      (\<lparr>PEId = ''b:1'', PEModel = ''m'', PEReset = False\<rparr>, 12),
      (\<lparr>PEId = ''a:1'', PEModel = ''m'', PEReset = False\<rparr>, 15)]"

theorem pressure_counts_once_witness:
  "deliveries_ok 60 20 sample_deliveries
   \<and> fst (Count ''m'' 20 (fold (\<lambda>(ev, t). ApplyPressure ev t) sample_deliveries (NewPressure 60))) = 2"
proof -
  have ok: "deliveries_ok 60 20 sample_deliveries"
    by (simp add: deliveries_ok_def sample_deliveries_def)
  have "ids_of ''m'' sample_deliveries = {''a:1'', ''b:1''}"
    by (auto simp: ids_of_def sample_deliveries_def intro: exI [of _ "\<lparr>PEId = ''a:1'', PEModel = ''m'', PEReset = False\<rparr>"]
        exI [of _ "\<lparr>PEId = ''b:1'', PEModel = ''m'', PEReset = False\<rparr>"])
  with ok pressure_counts_once [OF ok, of "''m''"] show ?thesis by simp
qed

end
