(* ===== verification/FailoverConfig.thy ===== *)
theory FailoverConfig
  imports Prelude
begin

text \<open>
  The configuration of a failover chain: \<^verbatim>\<open>core/config/model_config_failover.go\<close>, the chain and
  alias checks of \<^verbatim>\<open>core/config/model_config_loader.go\<close>, and \<^verbatim>\<open>core/services/failover/types.go\<close>.
  Of a \<^verbatim>\<open>ModelConfig\<close> the record holds the fields this code reads; \<open>lookup\<close> is
  \<open>ModelConfigLoader.GetModelConfig\<close>. The time spans of a chain are strings read by
  \<^verbatim>\<open>time.ParseDuration\<close>, whose algorithm is \<open>ParseDuration\<close> below; the one step of it
  that goes through \<^verbatim>\<open>float64\<close>, scaling the fraction, is exact here.
\<close>

section \<open>Durations\<close>

definition is_digit :: "char \<Rightarrow> bool" where
  "is_digit c \<longleftrightarrow> 48 \<le> (of_char c :: nat) \<and> (of_char c :: nat) \<le> 57"

definition digit_val :: "char \<Rightarrow> nat" where
  "digit_val c = of_char c - 48"

fun leadingInt :: "string \<Rightarrow> nat \<Rightarrow> (nat \<times> string) option" where
  "leadingInt [] x = Some (x, [])"
| "leadingInt (c # s) x =
     (if \<not> is_digit c then Some (x, c # s)
      else if x > 2 ^ 63 div 10 then None
      else if x * 10 + digit_val c > 2 ^ 63 then None
      else leadingInt s (x * 10 + digit_val c))"

fun leadingFraction :: "string \<Rightarrow> nat \<Rightarrow> nat \<Rightarrow> bool \<Rightarrow> nat \<times> nat \<times> string" where
  "leadingFraction [] x scale overflow = (x, scale, [])"
| "leadingFraction (c # s) x scale overflow =
     (if \<not> is_digit c then (x, scale, c # s)
      else if overflow then leadingFraction s x scale True
      else if x > (2 ^ 63 - 1) div 10 then leadingFraction s x scale True
      else if x * 10 + digit_val c > 2 ^ 63 then leadingFraction s x scale True
      else leadingFraction s (x * 10 + digit_val c) (scale * 10) False)"

definition unitMap :: "(string, nat) gomap" where
  "unitMap =
     [(''ns'', 1), (''us'', 1000), ([char_of (194 :: nat), char_of (181 :: nat)] @ ''s'', 1000),
      ([char_of (206 :: nat), char_of (188 :: nat)] @ ''s'', 1000), (''ms'', 1000000),
      (''s'', 1000000000), (''m'', 60000000000), (''h'', 3600000000000)]"

definition in_unit :: "char \<Rightarrow> bool" where
  "in_unit c \<longleftrightarrow> c \<noteq> CHR ''.'' \<and> \<not> is_digit c"

definition durFraction :: "string \<Rightarrow> nat \<times> nat \<times> string" where
  "durFraction s =
     (if s \<noteq> [] \<and> hd s = CHR ''.'' then leadingFraction (tl s) 0 1 False else (0, 1, s))"

text \<open>One \<open>number unit\<close> group: the nanoseconds it stands for and the rest of the text.\<close>

definition durSegment :: "string \<Rightarrow> (nat \<times> string) option" where
  "durSegment s =
     (if s = [] \<or> \<not> (hd s = CHR ''.'' \<or> is_digit (hd s)) then None
      else
        case leadingInt s 0 of
          None \<Rightarrow> None
        | Some (v, s1) \<Rightarrow>
            let pre = length s \<noteq> length s1;
                dot = s1 \<noteq> [] \<and> hd s1 = CHR ''.'';
                (f, scale, s2) = durFraction s1;
                post = dot \<and> length (tl s1) \<noteq> length s2
            in if \<not> pre \<and> \<not> post then None
               else let u = takeWhile in_unit s2; s3 = dropWhile in_unit s2
                    in if u = [] then None
                       else case gm_get unitMap u of
                              None \<Rightarrow> None
                            | Some unit \<Rightarrow>
                                if v > 2 ^ 63 div unit then None
                                else let v1 = v * unit;
                                         v2 = (if f > 0 then v1 + f * unit div scale else v1)
                                     in if f > 0 \<and> v2 > 2 ^ 63 then None else Some (v2, s3))"

lemma leadingInt_length: "leadingInt s x = Some (v, r) \<Longrightarrow> length r \<le> length s"
  by (induction s x rule: leadingInt.induct) (auto split: if_splits)

lemma leadingFraction_length: "leadingFraction s x sc ov = (f, sc', r) \<Longrightarrow> length r \<le> length s"
  by (induction s x sc ov rule: leadingFraction.induct) (auto split: if_splits)

lemma dropWhile_shorter: "takeWhile P xs \<noteq> [] \<Longrightarrow> length (dropWhile P xs) < length xs"
  by (metis length_append length_greater_0_conv less_add_same_cancel2 takeWhile_dropWhile_id)

lemma durSegment_shorter: "durSegment s = Some (v, r) \<Longrightarrow> length r < length s"
proof -
  assume seg: "durSegment s = Some (v, r)"
  then obtain w s1 where i: "leadingInt s 0 = Some (w, s1)"
    by (auto simp: durSegment_def split: if_splits option.splits)
  obtain f sc s2 where fr: "durFraction s1 = (f, sc, s2)" by (cases "durFraction s1")
  then have "length s2 \<le> length s1"
    using leadingFraction_length [of "tl s1" 0 1 False f sc s2] by (auto simp: durFraction_def split: if_splits)
  moreover from seg i fr have "takeWhile in_unit s2 \<noteq> []" and "r = dropWhile in_unit s2"
    by (auto simp: durSegment_def Let_def split: if_splits option.splits)
  ultimately show ?thesis
    using dropWhile_shorter [of in_unit s2] leadingInt_length [OF i] by simp
qed

function durLoop :: "string \<Rightarrow> nat \<Rightarrow> nat option" where
  "durLoop s d =
     (if s = [] then Some d
      else case durSegment s of
             None \<Rightarrow> None
           | Some (v, r) \<Rightarrow>
               let d' = (d + v) mod 2 ^ 64 in if d' > 2 ^ 63 then None else durLoop r d')"
  by auto

termination
  by (relation "measure (\<lambda>(s, d). length s)") (auto dest: durSegment_shorter)

declare durLoop.simps [simp del]

definition ParseDuration :: "string \<Rightarrow> duration option" where
  "ParseDuration s0 =
     (let sign = s0 \<noteq> [] \<and> (hd s0 = CHR ''-'' \<or> hd s0 = CHR ''+'');
          neg = s0 \<noteq> [] \<and> hd s0 = CHR ''-'';
          s = (if sign then tl s0 else s0)
      in if s = ''0'' then Some 0
         else if s = [] then None
         else case durLoop s 0 of
                None \<Rightarrow> None
              | Some d \<Rightarrow>
                  if neg then Some (- int d)
                  else if d > 2 ^ 63 - 1 then None else Some (int d))"

section \<open>The chain configuration\<close>

record failover_target =
  FTModel :: string
  FTWarm :: bool

record failover_config =
  Targets :: "failover_target list"
  Probe_Interval :: string
  Probe_Timeout :: string
  Trip_Errors :: int
  Trip_Window :: string
  Recovery_Probes :: int
  Recovery_MinDwell :: string

record model_config =
  Name :: string
  Alias :: string
  VisionAlias :: string
  Backend :: string
  MModel :: string
  Disabled :: bool
  Pinned :: bool
  ConcurrencyGroups :: "string list"
  Failover :: "failover_config option"

type_synonym config_lookup = "string \<Rightarrow> model_config option"

definition IsFailover :: "model_config \<Rightarrow> bool" where
  "IsFailover c \<longleftrightarrow> Failover c \<noteq> None"

definition IsAlias :: "model_config \<Rightarrow> bool" where
  "IsAlias c \<longleftrightarrow> Alias c \<noteq> ''''"

definition IsRemoteProxy :: "model_config \<Rightarrow> bool" where
  "IsRemoteProxy c \<longleftrightarrow> Backend c = ''cloud-proxy'' \<or> Backend c = ''localai-proxy''"

definition durationOr :: "string \<Rightarrow> duration \<Rightarrow> duration" where
  "durationOr s def =
     (if s = '''' then def
      else case ParseDuration s of
             None \<Rightarrow> def
           | Some d \<Rightarrow> if d \<le> 0 then def else d)"

definition ProbeInterval :: "failover_config \<Rightarrow> duration" where
  "ProbeInterval f = durationOr (Probe_Interval f) (15 * second)"

definition ProbeTimeout :: "failover_config \<Rightarrow> duration" where
  "ProbeTimeout f = durationOr (Probe_Timeout f) (5 * second)"

definition TripWindow :: "failover_config \<Rightarrow> duration" where
  "TripWindow f = durationOr (Trip_Window f) (30 * second)"

definition MinDwell :: "failover_config \<Rightarrow> duration" where
  "MinDwell f = durationOr (Recovery_MinDwell f) (60 * second)"

definition TripErrors :: "failover_config \<Rightarrow> int" where
  "TripErrors f = (if Trip_Errors f \<le> 0 then 1 else Trip_Errors f)"

definition RecoveryProbes :: "failover_config \<Rightarrow> int" where
  "RecoveryProbes f = (if Recovery_Probes f \<le> 0 then 3 else Recovery_Probes f)"

definition WarmFailoverTargets :: "model_config \<Rightarrow> string list" where
  "WarmFailoverTargets c =
     (case Failover c of
        None \<Rightarrow> []
      | Some f \<Rightarrow> map FTModel (filter FTWarm (Targets f)))"

datatype failover_error =
    NoName
  | AliasAndFailover string
  | NotPureRedirect string
  | TooFewTargets string
  | TargetWithoutModel string
  | ListsItself string
  | ListsTwice string string
  | InvalidDuration string string
  | NegativeTripErrors string
  | NegativeRecoveryProbes string
  | TargetMissing string string
  | TargetIsChain string string

fun check_targets :: "string \<Rightarrow> string list \<Rightarrow> failover_target list \<Rightarrow> failover_error option" where
  "check_targets name seen [] = None"
| "check_targets name seen (t # ts) =
     (if FTModel t = '''' then Some (TargetWithoutModel name)
      else if FTModel t = name then Some (ListsItself name)
      else if FTModel t \<in> set seen then Some (ListsTwice name (FTModel t))
      else check_targets name (FTModel t # seen) ts)"

fun check_durations :: "string \<Rightarrow> (string \<times> string) list \<Rightarrow> failover_error option" where
  "check_durations name [] = None"
| "check_durations name ((key, v) # kvs) =
     (if v = '''' then check_durations name kvs
      else case ParseDuration v of
             None \<Rightarrow> Some (InvalidDuration name key)
           | Some d \<Rightarrow> if d \<le> 0 then Some (InvalidDuration name key) else check_durations name kvs)"

text \<open>
  The durations are checked in the order of a map literal, so the first error is any of those; the
  model takes the order of the text. \<open>validateFailover\<close> is only called on a chain.
\<close>

definition validateFailover :: "model_config \<Rightarrow> failover_error option" where
  "validateFailover c =
     (if Name c = '''' then Some NoName
      else if IsAlias c then Some (AliasAndFailover (Name c))
      else if Backend c \<noteq> '''' \<or> MModel c \<noteq> '''' then Some (NotPureRedirect (Name c))
      else case Failover c of
             None \<Rightarrow> None
           | Some f \<Rightarrow>
               if length (Targets f) < 2 then Some (TooFewTargets (Name c))
               else case check_targets (Name c) [] (Targets f) of
                      Some e \<Rightarrow> Some e
                    | None \<Rightarrow>
                        (case check_durations (Name c)
                             [(''probe.interval'', Probe_Interval f), (''probe.timeout'', Probe_Timeout f),
                              (''trip.window'', Trip_Window f), (''recovery.min_dwell'', Recovery_MinDwell f)] of
                           Some e \<Rightarrow> Some e
                         | None \<Rightarrow>
                             if Trip_Errors f < 0 then Some (NegativeTripErrors (Name c))
                             else if Recovery_Probes f < 0 then Some (NegativeRecoveryProbes (Name c))
                             else None))"

section \<open>Checks against the other configurations\<close>

fun check_lookups :: "config_lookup \<Rightarrow> string \<Rightarrow> failover_target list \<Rightarrow> failover_error option" where
  "check_lookups lookup name [] = None"
| "check_lookups lookup name (t # ts) =
     (case lookup (FTModel t) of
        None \<Rightarrow> Some (TargetMissing name (FTModel t))
      | Some target \<Rightarrow>
          let resolved = (if IsAlias target
                          then (case lookup (Alias target) of Some r \<Rightarrow> r | None \<Rightarrow> target)
                          else target)
          in if IsFailover resolved then Some (TargetIsChain name (FTModel t))
             else check_lookups lookup name ts)"

definition validateFailoverTargets :: "model_config option \<Rightarrow> config_lookup \<Rightarrow> failover_error option" where
  "validateFailoverTargets cfg lookup =
     (case cfg of
        None \<Rightarrow> None
      | Some c \<Rightarrow> (case Failover c of None \<Rightarrow> None | Some f \<Rightarrow> check_lookups lookup (Name c) (Targets f)))"

definition failoverWarmRemoteTargets :: "model_config option \<Rightarrow> config_lookup \<Rightarrow> string list" where
  "failoverWarmRemoteTargets cfg lookup =
     (case cfg of
        None \<Rightarrow> []
      | Some c \<Rightarrow>
          (case Failover c of
             None \<Rightarrow> []
           | Some f \<Rightarrow>
               map FTModel (filter (\<lambda>t. FTWarm t \<and>
                 (case (case lookup (FTModel t) of
                          None \<Rightarrow> None
                        | Some target \<Rightarrow> if IsAlias target then lookup (Alias target) else Some target) of
                    None \<Rightarrow> False
                  | Some target \<Rightarrow> IsRemoteProxy target)) (Targets f))))"

definition ResolveAliasName :: "config_lookup \<Rightarrow> string \<Rightarrow> string \<times> bool" where
  "ResolveAliasName lookup name =
     (case lookup name of
        None \<Rightarrow> (name, False)
      | Some cfg \<Rightarrow>
          if \<not> IsAlias cfg then (name, False)
          else case lookup (Alias cfg) of
                 None \<Rightarrow> (name, True)
               | Some target \<Rightarrow> if IsAlias target then (name, True) else (Name target, True))"

datatype alias_error =
    AliasUnknown string
  | AliasChained string
  | AliasDisabled string
  | VisionUnknown string
  | VisionChained string
  | VisionDisabled string

definition ValidateAliasTarget :: "model_config option \<Rightarrow> config_lookup \<Rightarrow> alias_error option" where
  "ValidateAliasTarget cfg lookup =
     (case cfg of
        None \<Rightarrow> None
      | Some c \<Rightarrow>
          if \<not> IsAlias c then None
          else case lookup (Alias c) of
                 None \<Rightarrow> Some (AliasUnknown (Alias c))
               | Some target \<Rightarrow>
                   if IsAlias target then Some (AliasChained (Alias c))
                   else if Disabled target then Some (AliasDisabled (Alias c))
                   else if VisionAlias c = '''' then None
                   else case lookup (VisionAlias c) of
                          None \<Rightarrow> Some (VisionUnknown (VisionAlias c))
                        | Some vision \<Rightarrow>
                            if IsAlias vision then Some (VisionChained (VisionAlias c))
                            else if Disabled vision then Some (VisionDisabled (VisionAlias c))
                            else None)"

section \<open>Kinds and pins\<close>

text \<open>\<open>KindUnset\<close> is the empty string a target has until its configuration was found once.\<close>

datatype kind = KindUnset | KindLocal | KindRemote

definition KindOf :: "model_config \<Rightarrow> kind" where
  "KindOf cfg = (if IsRemoteProxy cfg then KindRemote else KindLocal)"

definition MergePinned :: "string list \<Rightarrow> string list \<Rightarrow> string list" where
  "MergePinned pinned warm = fold (\<lambda>w out. if w \<in> set out then out else out @ [w]) warm pinned"

section \<open>Facts\<close>

lemma durationOr_pos: "0 < def \<Longrightarrow> 0 < durationOr s def"
  by (auto simp: durationOr_def split: option.splits)

lemma spans_pos: "0 < ProbeInterval f" "0 < ProbeTimeout f" "0 < TripWindow f" "0 < MinDwell f"
    "0 < TripErrors f" "0 < RecoveryProbes f"
  by (auto simp: ProbeInterval_def ProbeTimeout_def TripWindow_def MinDwell_def TripErrors_def
      RecoveryProbes_def second_def intro: durationOr_pos)

lemma check_targets_None:
  "check_targets name seen ts = None \<longleftrightarrow>
     '''' \<notin> FTModel ` set ts \<and> name \<notin> FTModel ` set ts \<and> FTModel ` set ts \<inter> set seen = {}
     \<and> distinct (map FTModel ts)"
  by (induction ts arbitrary: seen) auto

lemma check_durations_None:
  "check_durations name kvs = None \<Longrightarrow> (key, v) \<in> set kvs \<Longrightarrow> v \<noteq> '''' \<Longrightarrow>
     \<exists>d > 0. ParseDuration v = Some d"
  by (induction name kvs rule: check_durations.induct) (auto split: if_splits option.splits)

lemma validateFailover_targets:
  assumes "validateFailover c = None" and "Failover c = Some f"
  shows "2 \<le> length (Targets f)" and "distinct (map FTModel (Targets f))"
    and "'''' \<notin> FTModel ` set (Targets f)" and "Name c \<notin> FTModel ` set (Targets f)" and "Name c \<noteq> ''''"
    and "check_durations (Name c)
      [(''probe.interval'', Probe_Interval f), (''probe.timeout'', Probe_Timeout f),
       (''trip.window'', Trip_Window f), (''recovery.min_dwell'', Recovery_MinDwell f)] = None"
  using assms by (auto simp: validateFailover_def check_targets_None split: if_splits option.splits
      simp del: check_durations.simps)

lemma MergePinned_set: "set (MergePinned pinned warm) = set pinned \<union> set warm"
  by (induction warm arbitrary: pinned) (auto simp: MergePinned_def)

lemma MergePinned_distinct: "distinct pinned \<Longrightarrow> distinct (MergePinned pinned warm)"
  by (induction warm arbitrary: pinned) (auto simp: MergePinned_def)

section \<open>Properties\<close>

lemma span_in_use:
  assumes "check_durations name kvs = None" and "(key, v) \<in> set kvs"
  shows "if v = '''' then durationOr v def = def else ParseDuration v = Some (durationOr v def)"
  using check_durations_None [OF assms] by (auto simp: durationOr_def)


definition two_targets :: failover_config where
  "two_targets =
     \<lparr>Targets = [\<lparr>FTModel = ''a'', FTWarm = False\<rparr>, \<lparr>FTModel = ''b'', FTWarm = True\<rparr>],
      Probe_Interval = ''1m30s'', Probe_Timeout = '''', Trip_Errors = 2, Trip_Window = ''0.5h'',
      Recovery_Probes = 0, Recovery_MinDwell = ''''\<rparr>"

definition chain_c :: model_config where
  "chain_c = \<lparr>Name = ''c'', Alias = '''', VisionAlias = '''', Backend = '''', MModel = '''', Disabled = False, Pinned = False, ConcurrencyGroups = [],
     Failover = Some two_targets\<rparr>"

lemmas duration_eval = ParseDuration_def durLoop.simps durSegment_def durFraction_def in_unit_def is_digit_def
  digit_val_def unitMap_def Let_def

lemma parse_1m30s: "ParseDuration ''1m30s'' = Some 90000000000"
  by (simp add: duration_eval)

lemma parse_half_hour: "ParseDuration ''0.5h'' = Some 1800000000000"
  by (simp add: duration_eval)

lemma chain_c_valid: "validateFailover chain_c = None"
  by (simp add: validateFailover_def chain_c_def two_targets_def IsAlias_def parse_1m30s parse_half_hour)


end
