(* ===== verification/FailoverManager.thy ===== *)
theory FailoverManager
  imports FailoverConfig
begin

text \<open>
  \<^verbatim>\<open>core/services/failover\<close>: \<^verbatim>\<open>classify.go\<close> (which errors move a request to the next target),
  \<^verbatim>\<open>manager.go\<close> (health per target, the active target per chain, the attempts of a request) and the
  publishing half of \<^verbatim>\<open>statesync.go\<close>.

  The state of a \<^verbatim>\<open>Manager\<close> is the record \<open>manager\<close>; an operation is the code between taking and
  releasing \<open>m.mu\<close>, with \<open>now\<close> the reading of \<open>m.clock\<close> during it and \<open>src\<close> the configurations it
  reads. A pointer into \<open>m.targets\<close> or \<open>m.chains\<close> is a value written back under its name. An
  operation returns an \<open>option\<close>: \<open>None\<close> is a panic, an index out of range or a nil pointer. What
  the manager hands to other parts is logged in the state: \<open>sent\<close> (the calls on \<open>StateSync\<close>, made
  by \<open>unlockAndFlush\<close>), \<open>switches\<close> (the metric) and \<open>warmCalls\<close> (\<open>onWarm\<close>). An event channel is
  its capacity and its buffer.
\<close>

section \<open>Data\<close>

datatype target_st = StateHealthy | StateDown | StateRecovering | StateMissing | StateOther string

datatype chain_st = ChainPrimary | ChainFallback | ChainDegraded | ChainOther string

datatype reason = ReasonTrip | ReasonRecovery | ReasonManual | ReasonDegraded | ReasonMissing | ReasonInitial
  | ReasonOther string

abbreviation no_reason :: reason where
  "no_reason \<equiv> ReasonOther ''''"

datatype event_type = EventChainSwitched | EventTargetState

fun target_st_string :: "target_st \<Rightarrow> string" where
  "target_st_string StateHealthy = ''healthy''"
| "target_st_string StateDown = ''down''"
| "target_st_string StateRecovering = ''recovering''"
| "target_st_string StateMissing = ''missing''"
| "target_st_string (StateOther s) = s"

fun chain_st_string :: "chain_st \<Rightarrow> string" where
  "chain_st_string ChainPrimary = ''primary''"
| "chain_st_string ChainFallback = ''fallback''"
| "chain_st_string ChainDegraded = ''degraded''"
| "chain_st_string (ChainOther s) = s"

record event =
  EType :: event_type
  EChain :: string
  ETarget :: string
  EFrom :: string
  ETo :: string
  EState :: string
  EReason :: reason
  EError :: string
  EAt :: time

record target_state =
  tname :: string
  serving :: string
  tkind :: kind
  twarm :: bool
  tstate :: target_st
  failures :: "time list"
  consecutiveOK :: int
  downSince :: time
  lastProbe :: time
  lastActivity :: time
  lastError :: string
  tsince :: time
  treason :: reason
  probing :: bool
  params :: failover_config

record chain_state =
  cname :: string
  ccfg :: failover_config
  ctargets :: "string list"
  active :: int
  activeSince :: time
  pinned :: string
  cstate :: chain_st
  adopted :: bool

record target_snapshot =
  TSTarget :: string
  TSState :: target_st
  TSReason :: reason
  TSError :: string
  TSConsecutiveOK :: int
  TSSince :: time
  TSOrigin :: string

record chain_snapshot =
  CSChain :: string
  CSActive :: string
  CSActiveSince :: time
  CSState :: chain_st
  CSReason :: reason

datatype publish = PublishTarget target_snapshot | PublishChain chain_snapshot

record event_chan =
  cap :: nat
  buf :: "event list"

record manager =
  mid :: string
  pins :: "(string, string) gomap"
  mtargets :: "(string, target_state) gomap"
  mchains :: "(string, chain_state) gomap"
  subs :: "(int, event_chan) gomap"
  nextSub :: int
  mwarm :: "string list"
  warmPending :: bool
  mclosed :: bool
  hasChains :: bool
  hasProber :: bool
  hasOnWarm :: bool
  hasSync :: bool
  hasGate :: bool
  leader :: bool
  applying :: bool
  pending :: "publish list"
  ticks :: int
  sent :: "publish list"
  switches :: "event list"
  warmCalls :: "string list list"

record config_source =
  GetModelConfig :: config_lookup
  GetAllModelsConfigs :: "model_config list"

definition zero_failover :: failover_config where
  "zero_failover = \<lparr>Targets = [], Probe_Interval = '''', Probe_Timeout = '''', Trip_Errors = 0, Trip_Window = '''',
     Recovery_Probes = 0, Recovery_MinDwell = ''''\<rparr>"

definition new_target :: "string \<Rightarrow> target_state" where
  "new_target n = \<lparr>tname = n, serving = '''', tkind = KindUnset, twarm = False, tstate = StateHealthy,
     failures = [], consecutiveOK = 0, downSince = 0, lastProbe = 0, lastActivity = 0, lastError = '''',
     tsince = 0, treason = no_reason, probing = False, params = zero_failover\<rparr>"

definition manager_New :: "string \<Rightarrow> bool \<Rightarrow> bool \<Rightarrow> bool \<Rightarrow> manager" where
  "manager_New uid prober onWarm gate =
     \<lparr>mid = uid, pins = [], mtargets = [], mchains = [], subs = [], nextSub = 0, mwarm = [], warmPending = False,
      mclosed = False, hasChains = False, hasProber = prober, hasOnWarm = onWarm, hasSync = False,
      hasGate = gate, leader = (\<not> gate), applying = False, pending = [], ticks = 0, sent = [],
      switches = [], warmCalls = []\<rparr>"

definition cold :: "target_state \<Rightarrow> bool" where
  "cold ts \<longleftrightarrow> tkind ts = KindLocal \<and> \<not> twarm ts"

definition put_target :: "target_state \<Rightarrow> manager \<Rightarrow> manager" where
  "put_target ts m = m\<lparr>mtargets := gm_put (tname ts) ts (mtargets m)\<rparr>"

definition put_chain :: "chain_state \<Rightarrow> manager \<Rightarrow> manager" where
  "put_chain ch m = m\<lparr>mchains := gm_put (cname ch) ch (mchains m)\<rparr>"

section \<open>Errors of a request\<close>

text \<open>
  An error as far as the code inspects it: whether it wraps \<^verbatim>\<open>context.Canceled\<close> or
  \<^verbatim>\<open>context.DeadlineExceeded\<close>, the code of an \<^verbatim>\<open>echo.HTTPError\<close> in its chain, what
  \<^verbatim>\<open>grpcstatus.FromError\<close> finds, and its text.
\<close>

datatype grpc_code = CUnavailable | CInternal | CDeadlineExceeded | CUnknown | CResourceExhausted
  | CUnimplemented | COther int

record go_error =
  isCanceled :: bool
  httpCode :: "int option"
  isDeadline :: bool
  grpcStatus :: "(grpc_code \<times> string) option"
  errText :: string

fun str_contains :: "string \<Rightarrow> string \<Rightarrow> bool" where
  "str_contains p [] = (p = [])"
| "str_contains p (c # s) = (take (length p) (c # s) = p \<or> str_contains p s)"

definition requestErrorMarkers :: "string list" where
  "requestErrorMarkers =
     [''exceeds the available context size'', ''is larger than the max context size'', ''maximum context length'',
      ''larger than max'', ''gRPC message limit exceeded'']"

definition isRequestError :: "string \<Rightarrow> bool" where
  "isRequestError msg = list_ex (\<lambda>m. str_contains m msg) requestErrorMarkers"

definition retryableStatus :: "int \<Rightarrow> bool" where
  "retryableStatus code \<longleftrightarrow> code \<ge> 500 \<and> code \<noteq> 501"

text \<open>The leftmost match of \<^verbatim>\<open>upstream (\d{3})\<close>, as the number it captures.\<close>

fun upstreamStatus :: "string \<Rightarrow> int option" where
  "upstreamStatus [] = None"
| "upstreamStatus (c # s) =
     (let d = take 3 (drop 9 (c # s))
      in if take 9 (c # s) = ''upstream '' \<and> length d = 3 \<and> list_all is_digit d
         then Some (int (fold (\<lambda>x n. n * 10 + digit_val x) d 0))
         else upstreamStatus s)"

definition IsRetryable :: "go_error option \<Rightarrow> int \<Rightarrow> bool" where
  "IsRetryable err status =
     (if (case err of Some e \<Rightarrow> isCanceled e | None \<Rightarrow> False) then False
      else if status \<noteq> 0 then retryableStatus status
      else case err of
             None \<Rightarrow> False
           | Some e \<Rightarrow>
               (case httpCode e of
                  Some code \<Rightarrow> retryableStatus code
                | None \<Rightarrow>
                    if isDeadline e then True
                    else case grpcStatus e of
                           Some (code, msg) \<Rightarrow>
                             if code \<in> {CUnavailable, CInternal, CDeadlineExceeded, CUnknown, CResourceExhausted}
                             then \<not> isRequestError msg else False
                         | None \<Rightarrow>
                             (case upstreamStatus (errText e) of
                                Some code \<Rightarrow> retryableStatus code
                              | None \<Rightarrow> \<not> isRequestError (errText e))))"

definition IsCapabilityGap :: "go_error option \<Rightarrow> bool" where
  "IsCapabilityGap err =
     (case err of
        None \<Rightarrow> False
      | Some e \<Rightarrow> httpCode e = Some 501 \<or> (case grpcStatus e of Some (code, _) \<Rightarrow> code = CUnimplemented | None \<Rightarrow> False))"

section \<open>Events and publishing\<close>

definition chan_send :: "event \<Rightarrow> event_chan \<Rightarrow> event_chan" where
  "chan_send ev c = (if length (buf c) < cap c then c\<lparr>buf := buf c @ [ev]\<rparr> else c)"

definition emitLocked :: "event \<Rightarrow> manager \<Rightarrow> manager" where
  "emitLocked ev m =
     (let m1 = (if EType ev = EventChainSwitched \<and> (leader m \<or> \<not> hasSync m)
                then m\<lparr>switches := switches m @ [ev]\<rparr> else m)
      in m1\<lparr>subs := map (\<lambda>(i, c). (i, chan_send ev c)) (subs m1)\<rparr>)"

definition targetSnapshotLocked :: "target_state \<Rightarrow> manager \<Rightarrow> target_snapshot" where
  "targetSnapshotLocked ts m =
     \<lparr>TSTarget = tname ts, TSState = tstate ts, TSReason = treason ts, TSError = lastError ts,
      TSConsecutiveOK = consecutiveOK ts,
      TSSince = (if tstate ts = StateDown then downSince ts else tsince ts), TSOrigin = mid m\<rparr>"

definition chainSnapshotLocked :: "chain_state \<Rightarrow> reason \<Rightarrow> chain_snapshot option" where
  "chainSnapshotLocked ch r =
     (case slice_at (ctargets ch) (active ch) of
        None \<Rightarrow> None
      | Some act \<Rightarrow>
          Some \<lparr>CSChain = cname ch, CSActive = act, CSActiveSince = activeSince ch, CSState = cstate ch, CSReason = r\<rparr>)"

definition queuePublishTargetLocked :: "target_state \<Rightarrow> target_st \<Rightarrow> manager \<Rightarrow> manager" where
  "queuePublishTargetLocked ts from m =
     (if \<not> hasSync m \<or> applying m \<or> tstate ts = StateMissing \<or> from = StateMissing then m
      else m\<lparr>pending := pending m @ [PublishTarget (targetSnapshotLocked ts m)]\<rparr>)"

definition queuePublishChainLocked :: "chain_state \<Rightarrow> reason \<Rightarrow> manager \<Rightarrow> manager option" where
  "queuePublishChainLocked ch r m =
     (if \<not> hasSync m \<or> \<not> leader m then Some m
      else case chainSnapshotLocked ch r of
             None \<Rightarrow> None
           | Some snap \<Rightarrow> Some (m\<lparr>pending := pending m @ [PublishChain snap]\<rparr>))"

definition unlockAndFlush :: "manager \<Rightarrow> manager" where
  "unlockAndFlush m = m\<lparr>sent := sent m @ pending m, pending := []\<rparr>"

section \<open>Target transitions\<close>

definition setTargetLocked ::
  "time \<Rightarrow> target_state \<Rightarrow> target_st \<Rightarrow> reason \<Rightarrow> string \<Rightarrow> manager \<Rightarrow> target_state \<times> manager" where
  "setTargetLocked now ts st r errMsg m =
     (if tstate ts = st then (ts, m)
      else
        let from = tstate ts;
            ts1 = ts\<lparr>tstate := st, tsince := now, treason := r\<rparr>;
            ts2 = (case st of
                     StateDown \<Rightarrow> ts1\<lparr>downSince := now, consecutiveOK := 0, failures := []\<rparr>
                   | StateRecovering \<Rightarrow> ts1\<lparr>consecutiveOK := 0, failures := []\<rparr>
                   | StateHealthy \<Rightarrow> ts1\<lparr>consecutiveOK := 0, failures := []\<rparr>
                   | _ \<Rightarrow> ts1);
            ev = \<lparr>EType = EventTargetState, EChain = '''', ETarget = tname ts, EFrom = target_st_string from,
                  ETo = target_st_string st, EState = '''', EReason = r, EError = errMsg, EAt = now\<rparr>
        in (ts2, queuePublishTargetLocked ts2 from (emitLocked ev (put_target ts2 m))))"

definition recordFailureLocked :: "time \<Rightarrow> target_state \<Rightarrow> string \<Rightarrow> manager \<Rightarrow> target_state \<times> manager" where
  "recordFailureLocked now ts msg m =
     (let ts1 = ts\<lparr>lastError := msg\<rparr>; m1 = put_target ts1 m
      in case tstate ts1 of
           StateRecovering \<Rightarrow> setTargetLocked now ts1 StateDown ReasonTrip msg m1
         | StateHealthy \<Rightarrow>
             let cut = now - TripWindow (params ts1);
                 ts2 = ts1\<lparr>failures := filter (\<lambda>f. cut < f) (failures ts1) @ [now]\<rparr>;
                 m2 = put_target ts2 m1
             in if int (length (failures ts2)) \<ge> TripErrors (params ts2)
                then setTargetLocked now ts2 StateDown ReasonTrip msg m2
                else (ts2, m2)
         | _ \<Rightarrow> (ts1, m1))"

text \<open>\<open>count_pass\<close> is the end of \<open>recordPassLocked\<close>, after its switch.\<close>

definition count_pass :: "time \<Rightarrow> target_state \<Rightarrow> manager \<Rightarrow> target_state \<times> manager" where
  "count_pass now ts m =
     (let ts1 = ts\<lparr>consecutiveOK := consecutiveOK ts + 1\<rparr>; m1 = put_target ts1 m
      in if consecutiveOK ts1 \<ge> RecoveryProbes (params ts1)
         then setTargetLocked now ts1 StateHealthy ReasonRecovery '''' m1
         else (ts1, m1))"

definition recordPassLocked :: "time \<Rightarrow> target_state \<Rightarrow> manager \<Rightarrow> target_state \<times> manager" where
  "recordPassLocked now ts m =
     (case tstate ts of
        StateHealthy \<Rightarrow> let ts1 = ts\<lparr>failures := []\<rparr> in (ts1, put_target ts1 m)
      | StateMissing \<Rightarrow> (ts, m)
      | StateDown \<Rightarrow>
          if cold ts then setTargetLocked now ts StateHealthy ReasonRecovery '''' m
          else (let r = setTargetLocked now ts StateRecovering ReasonRecovery '''' m in count_pass now (fst r) (snd r))
      | _ \<Rightarrow> count_pass now ts m)"

section \<open>The active target of a chain\<close>

definition healthy_at :: "manager \<Rightarrow> string \<Rightarrow> bool" where
  "healthy_at m name = (case gm_get (mtargets m) name of Some ts \<Rightarrow> tstate ts = StateHealthy | None \<Rightarrow> False)"

fun best_healthy :: "manager \<Rightarrow> string list \<Rightarrow> int \<Rightarrow> int" where
  "best_healthy m [] i = -1"
| "best_healthy m (n # ns) i = (if healthy_at m n then i else best_healthy m ns (i + 1))"

definition choose_next :: "time \<Rightarrow> chain_state \<Rightarrow> int \<Rightarrow> manager \<Rightarrow> (int \<times> reason) option" where
  "choose_next now ch best m =
     (let prev = active ch
      in if pinned ch \<noteq> '''' then Some (slices_index (ctargets ch) (pinned ch), ReasonManual)
         else if best = -1 then Some (prev, ReasonTrip)
         else if best > prev then Some (best, ReasonTrip)
         else if best < prev
         then (case slice_at (ctargets ch) prev of
                 None \<Rightarrow> None
               | Some cur \<Rightarrow>
                   if \<not> healthy_at m cur then Some (best, ReasonTrip)
                   else if time_sub now (activeSince ch) \<ge> MinDwell (ccfg ch) then Some (best, ReasonRecovery)
                   else Some (prev, ReasonTrip))
         else Some (prev, ReasonTrip))"

definition switch_event :: "time \<Rightarrow> chain_state \<Rightarrow> int \<Rightarrow> int \<Rightarrow> chain_st \<Rightarrow> reason \<Rightarrow> event option" where
  "switch_event now ch prev nxt st r =
     (case slice_at (ctargets ch) prev of
        None \<Rightarrow> None
      | Some f \<Rightarrow>
          (case slice_at (ctargets ch) nxt of
             None \<Rightarrow> None
           | Some t \<Rightarrow>
               Some \<lparr>EType = EventChainSwitched, EChain = cname ch, ETarget = '''', EFrom = f, ETo = t,
                     EState = chain_st_string st, EReason = r, EError = '''', EAt = now\<rparr>))"

definition emit_switch :: "event option \<Rightarrow> manager \<Rightarrow> manager option" where
  "emit_switch ev m = (case ev of None \<Rightarrow> None | Some e \<Rightarrow> Some (emitLocked e m))"

text \<open>
  \<open>apply_decision\<close> is the second half of \<open>recomputeLocked\<close>, once the next index, the state and the reason
  are known.
\<close>

definition apply_decision :: "time \<Rightarrow> chain_state \<Rightarrow> int \<Rightarrow> chain_st \<Rightarrow> reason \<Rightarrow> manager \<Rightarrow> manager option" where
  "apply_decision now ch nxt st r m =
     (let prev = active ch;
          changed = (nxt \<noteq> prev \<or> st \<noteq> cstate ch);
          ch1 = (if nxt \<noteq> prev then ch\<lparr>active := nxt, activeSince := now\<rparr> else ch);
          m1 = (if nxt \<noteq> prev then emit_switch (switch_event now ch prev nxt st r) (put_chain ch1 m)
                else if st = ChainDegraded \<and> cstate ch \<noteq> ChainDegraded
                then emit_switch (switch_event now ch prev nxt st ReasonDegraded) m
                else if st \<noteq> ChainDegraded \<and> cstate ch = ChainDegraded
                then emit_switch (switch_event now ch prev nxt st ReasonRecovery) m
                else Some m);
          ch2 = ch1\<lparr>cstate := st\<rparr>;
          pub = (if nxt = prev then (if st = ChainDegraded then ReasonDegraded else ReasonRecovery) else r)
      in case m1 of
           None \<Rightarrow> None
         | Some m2 \<Rightarrow>
             if changed then queuePublishChainLocked ch2 pub (put_chain ch2 m2) else Some (put_chain ch2 m2))"

definition recomputeLocked :: "time \<Rightarrow> string \<Rightarrow> reason \<Rightarrow> manager \<Rightarrow> manager option" where
  "recomputeLocked now cn override m =
     (case gm_get (mchains m) cn of
        None \<Rightarrow> None
      | Some ch \<Rightarrow>
          if hasSync m \<and> \<not> leader m \<and> adopted ch \<and> pinned ch = '''' then Some m
          else
            let best = best_healthy m (ctargets ch) 0
            in case choose_next now ch best m of
                 None \<Rightarrow> None
               | Some (nxt, r0) \<Rightarrow>
                   let r = (if override \<noteq> no_reason then override else r0);
                       st = (if pinned ch = '''' \<and> best = -1 then ChainDegraded
                             else if nxt = 0 then ChainPrimary else ChainFallback)
                   in apply_decision now ch nxt st r m)"

definition recompute_all :: "time \<Rightarrow> manager \<Rightarrow> manager option" where
  "recompute_all now m = ofold (\<lambda>n. recomputeLocked now n no_reason) (gm_keys (mchains m)) m"

definition recomputeForLocked :: "time \<Rightarrow> string \<Rightarrow> manager \<Rightarrow> manager option" where
  "recomputeForLocked now target m =
     ofold (\<lambda>n. recomputeLocked now n no_reason)
       (map fst (filter (\<lambda>(n, ch). target \<in> set (ctargets ch)) (mchains m))) m"

text \<open>The end of most operations: recompute the chains of the target, then release the lock.\<close>

definition recompute_flush :: "time \<Rightarrow> string \<Rightarrow> manager \<Rightarrow> manager option" where
  "recompute_flush now target m = map_option unlockAndFlush (recomputeForLocked now target m)"

definition Reevaluate :: "time \<Rightarrow> manager \<Rightarrow> manager option" where
  "Reevaluate now m = map_option unlockAndFlush (recompute_all now m)"

section \<open>Reconciling with the configuration\<close>

definition lookupTarget :: "config_source \<Rightarrow> string \<Rightarrow> model_config option" where
  "lookupTarget src name =
     (case GetModelConfig src name of
        None \<Rightarrow> None
      | Some c \<Rightarrow> if IsAlias c then GetModelConfig src (Alias c) else Some c)"

text \<open>
  The body of the inner loop of \<open>syncLocked\<close>, for one target of the chain configuration \<open>f\<close>;
  \<open>claimed\<close> lists the targets that an earlier chain, or this one, has listed.
\<close>

definition sync_target ::
  "config_source \<Rightarrow> time \<Rightarrow> failover_config \<Rightarrow> failover_target \<Rightarrow> string list \<times> manager \<Rightarrow> string list \<times> manager" where
  "sync_target src now f t = (\<lambda>(claimed, m).
     let n = FTModel t;
         ts = (case gm_get (mtargets m) n of Some ts \<Rightarrow> ts | None \<Rightarrow> new_target n);
         ts1 = (if n \<in> set claimed then ts else ts\<lparr>params := f, twarm := False\<rparr>);
         claimed1 = (if n \<in> set claimed then claimed else n # claimed);
         m1 = put_target ts1 m
     in (claimed1,
         case lookupTarget src n of
           None \<Rightarrow> snd (setTargetLocked now ts1 StateMissing ReasonMissing ''target config not found'' m1)
         | Some tc \<Rightarrow>
             if IsFailover tc
             then snd (setTargetLocked now ts1 StateMissing ReasonMissing ''target is itself a failover chain'' m1)
             else
               let ts2 = ts1\<lparr>tkind := KindOf tc, serving := Name tc,
                     twarm := (if FTWarm t \<and> KindOf tc = KindLocal then True else twarm ts1)\<rparr>;
                   m2 = put_target ts2 m1
               in if tstate ts2 = StateMissing
                  then snd (setTargetLocked now ts2 StateHealthy ReasonRecovery '''' m2)
                  else m2))"

definition rebuild_chain :: "time \<Rightarrow> string \<Rightarrow> string list \<Rightarrow> manager \<Rightarrow> manager" where
  "rebuild_chain now n names m =
     (let p = gm_get0 '''' (pins m) n;
          keep = p \<in> set names;
          m1 = (if \<not> keep \<and> \<not> hasSync m then m\<lparr>pins := gm_del n (pins m)\<rparr> else m)
      in put_chain \<lparr>cname = n, ccfg = zero_failover, ctargets = names, active = 0, activeSince = now,
           pinned = (if keep then p else ''''), cstate = ChainPrimary, adopted = False\<rparr> m1)"

definition sync_chain ::
  "config_source \<Rightarrow> time \<Rightarrow> model_config
     \<Rightarrow> string list \<times> string list \<times> manager \<Rightarrow> string list \<times> string list \<times> manager" where
  "sync_chain src now c = (\<lambda>(seenChains, claimed, m).
     case Failover c of
       None \<Rightarrow> (seenChains, claimed, m)
     | Some f \<Rightarrow>
         let names = map FTModel (Targets f);
             m1 = (case gm_get (mchains m) (Name c) of
                     Some ch \<Rightarrow> if ctargets ch = names then m else rebuild_chain now (Name c) names m
                   | None \<Rightarrow> rebuild_chain now (Name c) names m);
             m2 = (case gm_get (mchains m1) (Name c) of
                     Some ch \<Rightarrow> put_chain (ch\<lparr>ccfg := f\<rparr>) m1
                   | None \<Rightarrow> m1);
             (claimed', m3) = fold (sync_target src now f) (Targets f) (claimed, m2)
         in (Name c # seenChains, claimed', m3))"

definition drop_unseen :: "string list \<Rightarrow> string list \<Rightarrow> manager \<Rightarrow> manager" where
  "drop_unseen seenChains claimed m =
     m\<lparr>mchains := filter (\<lambda>(n, ch). n \<in> set seenChains) (mchains m),
       pins := (if hasSync m then pins m
                else fold gm_del (filter (\<lambda>n. n \<notin> set seenChains) (gm_keys (mchains m))) (pins m)),
       mtargets := filter (\<lambda>(n, ts). n \<in> set claimed) (mtargets m)\<rparr>"

definition warm_names :: "manager \<Rightarrow> string list" where
  "warm_names m =
     go_sort (<) (fold (\<lambda>(n, ts) w.
        if twarm ts \<and> serving ts \<noteq> '''' \<and> serving ts \<notin> set w then w @ [serving ts] else w) (mtargets m) [])"

definition sync_warm :: "manager \<Rightarrow> manager" where
  "sync_warm m = (let w = warm_names m in if w \<noteq> mwarm m then m\<lparr>mwarm := w, warmPending := True\<rparr> else m)"

definition sync_configs :: "config_source \<Rightarrow> time \<Rightarrow> manager \<Rightarrow> manager" where
  "sync_configs src now m =
     (let (seenChains, claimed, m1) = fold (sync_chain src now) (GetAllModelsConfigs src) ([], [], m);
          m2 = drop_unseen seenChains claimed m1
      in m2\<lparr>hasChains := (length (mchains m2) > 0)\<rparr>)"

definition syncLocked :: "config_source \<Rightarrow> time \<Rightarrow> manager \<Rightarrow> manager option" where
  "syncLocked src now m = map_option sync_warm (recompute_all now (sync_configs src now m))"

definition takeWarmLocked :: "manager \<Rightarrow> (string list \<times> bool) \<times> manager" where
  "takeWarmLocked m =
     (if \<not> warmPending m then (([], False), m) else ((mwarm m, True), m\<lparr>warmPending := False\<rparr>))"

definition call_onWarm :: "string list \<times> bool \<Rightarrow> manager \<Rightarrow> manager" where
  "call_onWarm wd m = (if snd wd \<and> hasOnWarm m then m\<lparr>warmCalls := warmCalls m @ [fst wd]\<rparr> else m)"

definition manager_Sync :: "config_source \<Rightarrow> time \<Rightarrow> manager \<Rightarrow> manager option" where
  "manager_Sync src now m =
     (case syncLocked src now m of
        None \<Rightarrow> None
      | Some m1 \<Rightarrow> let (wd, m2) = takeWarmLocked m1 in Some (call_onWarm wd (unlockAndFlush m2)))"

definition HasChains :: "manager option \<Rightarrow> bool" where
  "HasChains m = (case m of None \<Rightarrow> False | Some m' \<Rightarrow> hasChains m')"

definition chainLocked :: "config_source \<Rightarrow> time \<Rightarrow> string \<Rightarrow> manager \<Rightarrow> (chain_state option \<times> manager) option" where
  "chainLocked src now name m =
     (case gm_get (mchains m) name of
        Some ch \<Rightarrow> Some (Some ch, m)
      | None \<Rightarrow> map_option (\<lambda>m1. (gm_get (mchains m1) name, m1)) (syncLocked src now m))"

definition targetLocked :: "config_source \<Rightarrow> time \<Rightarrow> string \<Rightarrow> manager \<Rightarrow> (target_state option \<times> manager) option" where
  "targetLocked src now name m =
     (case gm_get (mtargets m) name of
        Some ts \<Rightarrow> Some (Some ts, m)
      | None \<Rightarrow> map_option (\<lambda>m1. (gm_get (mtargets m1) name, m1)) (syncLocked src now m))"

definition WarmTargets :: "manager \<Rightarrow> string list" where
  "WarmTargets m = mwarm m"

definition targetStates :: "manager \<Rightarrow> (string, target_st) gomap" where
  "targetStates m = map (\<lambda>(n, ts). (n, tstate ts)) (mtargets m)"

section \<open>Attempts of a request\<close>

datatype manager_error = ErrChainNotFound string | ErrTargetNotInChain string | ErrNoTarget string | ErrSync string

record attempt =
  achain :: string
  aprimary :: string
  adegraded :: bool
  atargets :: "string list"
  ai :: int

definition usable :: "manager \<Rightarrow> bool \<Rightarrow> string \<Rightarrow> bool" where
  "usable m degraded name =
     (case gm_get (mtargets m) name of
        None \<Rightarrow> False
      | Some ts \<Rightarrow> if tstate ts = StateMissing then False else degraded \<or> tstate ts = StateHealthy)"

definition plan_targets :: "chain_state \<Rightarrow> manager \<Rightarrow> string list option" where
  "plan_targets ch m =
     (let degraded = (cstate ch = ChainDegraded)
      in if pinned ch \<noteq> '''' then Some [pinned ch]
         else if degraded then Some (filter (usable m degraded) (ctargets ch))
         else case slice_at (ctargets ch) (active ch) of
                None \<Rightarrow> None
              | Some act \<Rightarrow>
                  Some ((if usable m degraded act then [act] else [])
                    @ filter (\<lambda>n. n \<noteq> act \<and> usable m degraded n) (ctargets ch)))"

definition Plan :: "config_source \<Rightarrow> time \<Rightarrow> string \<Rightarrow> manager \<Rightarrow> ((manager_error + attempt) \<times> manager) option" where
  "Plan src now chain m =
     (case chainLocked src now chain m of
        None \<Rightarrow> None
      | Some (None, m1) \<Rightarrow> Some (Inl (ErrChainNotFound chain), unlockAndFlush m1)
      | Some (Some ch, m1) \<Rightarrow>
          (case slice_at (ctargets ch) 0 of
             None \<Rightarrow> None
           | Some prim \<Rightarrow>
               (case plan_targets ch m1 of
                  None \<Rightarrow> None
                | Some ts \<Rightarrow>
                    Some (if ts = [] then Inl (ErrNoTarget chain)
                          else Inr \<lparr>achain = cname ch, aprimary = prim, adegraded = (cstate ch = ChainDegraded),
                                    atargets = ts, ai = 0\<rparr>,
                          unlockAndFlush m1))))"

definition Target :: "attempt \<Rightarrow> string option" where
  "Target a = slice_at (atargets a) (ai a)"

definition ReportFailure :: "config_source \<Rightarrow> time \<Rightarrow> string \<Rightarrow> string \<Rightarrow> manager \<Rightarrow> manager option" where
  "ReportFailure src now target msg m =
     (case targetLocked src now target m of
        None \<Rightarrow> None
      | Some (None, m1) \<Rightarrow> Some (unlockAndFlush m1)
      | Some (Some ts, m1) \<Rightarrow>
          recompute_flush now target (snd (recordFailureLocked now ts msg m1)))"

definition ReportSuccess :: "config_source \<Rightarrow> time \<Rightarrow> string \<Rightarrow> manager \<Rightarrow> manager option" where
  "ReportSuccess src now target m =
     (case targetLocked src now target m of
        None \<Rightarrow> None
      | Some (None, m1) \<Rightarrow> Some (unlockAndFlush m1)
      | Some (Some ts, m1) \<Rightarrow>
          let ts1 = ts\<lparr>lastActivity := now\<rparr>
          in recompute_flush now target (snd (recordPassLocked now ts1 (put_target ts1 m1))))"

definition Skip :: "attempt \<Rightarrow> bool \<times> attempt" where
  "Skip a = (if ai a + 1 \<ge> int (length (atargets a)) then (False, a) else (True, a\<lparr>ai := ai a + 1\<rparr>))"

definition Report :: "config_source \<Rightarrow> time \<Rightarrow> string \<Rightarrow> attempt \<Rightarrow> manager \<Rightarrow> manager option" where
  "Report src now msg a m = (case Target a of None \<Rightarrow> None | Some t \<Rightarrow> ReportFailure src now t msg m)"

definition Fail :: "config_source \<Rightarrow> time \<Rightarrow> string \<Rightarrow> attempt \<Rightarrow> manager \<Rightarrow> (bool \<times> attempt \<times> manager) option" where
  "Fail src now msg a m =
     (case Report src now msg a m of
        None \<Rightarrow> None
      | Some m1 \<Rightarrow> let (more_left, a1) = Skip a in Some (more_left, a1, m1))"

definition Succeed :: "config_source \<Rightarrow> time \<Rightarrow> attempt \<Rightarrow> manager \<Rightarrow> manager option" where
  "Succeed src now a m = (case Target a of None \<Rightarrow> None | Some t \<Rightarrow> ReportSuccess src now t m)"

text \<open>
  \<open>Do\<close>: \<open>fn\<close> is the caller's function; for the target it is called with it gives the error, whether it
  called \<open>commit\<close>, and whether \<open>ctx\<close> has ended by then. The result holds the targets tried, in order.
\<close>

datatype do_error = DoPlan manager_error | DoCall go_error

definition left :: "attempt \<Rightarrow> nat" where
  "left a = nat (int (length (atargets a)) - ai a)"

lemma Skip_less: "Skip a = (True, a1) \<Longrightarrow> left a1 < left a"
  by (auto simp: Skip_def left_def split: if_splits)

lemma Fail_less: "Fail src now msg a m = Some (True, a1, m1) \<Longrightarrow> left a1 < left a"
  by (auto simp: Fail_def dest: Skip_less split: option.splits prod.splits)

function do_loop ::
  "config_source \<Rightarrow> time \<Rightarrow> (string \<Rightarrow> go_error option \<times> bool \<times> bool) \<Rightarrow> attempt \<Rightarrow> manager
     \<Rightarrow> (do_error option \<times> string list \<times> manager) option" where
  "do_loop src now fn a m =
     (case Target a of
        None \<Rightarrow> None
      | Some t \<Rightarrow>
          (case fn t of
             (None, _, _) \<Rightarrow> map_option (\<lambda>m1. (None, [t], m1)) (Succeed src now a m)
           | (Some e, committed, ended) \<Rightarrow>
               if IsCapabilityGap (Some e) \<and> \<not> committed
               then (case Skip a of
                       (False, _) \<Rightarrow> Some (Some (DoCall e), [t], m)
                     | (True, a1) \<Rightarrow> map_option (\<lambda>(r, ts, m2). (r, t # ts, m2)) (do_loop src now fn a1 m))
               else if ended \<or> \<not> IsRetryable (Some e) 0 then Some (Some (DoCall e), [t], m)
               else if committed then map_option (\<lambda>m1. (Some (DoCall e), [t], m1)) (Report src now (errText e) a m)
               else (case Fail src now (errText e) a m of
                       None \<Rightarrow> None
                     | Some (False, _, m1) \<Rightarrow> Some (Some (DoCall e), [t], m1)
                     | Some (True, a1, m1) \<Rightarrow> map_option (\<lambda>(r, ts, m2). (r, t # ts, m2)) (do_loop src now fn a1 m1))))"
  by pat_completeness auto

termination
  by (relation "measure (\<lambda>(src, now, fn, a, m). left a)")
     (auto dest: Skip_less [OF sym] Fail_less)

declare do_loop.simps [simp del]

definition Do ::
  "config_source \<Rightarrow> time \<Rightarrow> string \<Rightarrow> (string \<Rightarrow> go_error option \<times> bool \<times> bool) \<Rightarrow> manager
     \<Rightarrow> (do_error option \<times> string list \<times> manager) option" where
  "Do src now chain fn m =
     (case Plan src now chain m of
        None \<Rightarrow> None
      | Some (Inl e, m1) \<Rightarrow> Some (Some (DoPlan e), [], m1)
      | Some (Inr a, m1) \<Rightarrow> do_loop src now fn a m1)"

section \<open>Pins\<close>

text \<open>\<open>set_chain_pin\<close> is the part of \<open>Pin\<close>, \<open>Unpin\<close> and \<open>ApplyPin\<close> after their checks.\<close>

definition set_chain_pin :: "time \<Rightarrow> chain_state \<Rightarrow> string \<Rightarrow> manager \<Rightarrow> manager option" where
  "set_chain_pin now ch target m = recomputeLocked now (cname ch) ReasonManual (put_chain (ch\<lparr>pinned := target\<rparr>) m)"

definition ApplyPin :: "config_source \<Rightarrow> time \<Rightarrow> string \<Rightarrow> string \<Rightarrow> manager \<Rightarrow> manager option" where
  "ApplyPin src now chain target m =
     (let m0 = (if target = '''' then m\<lparr>pins := gm_del chain (pins m)\<rparr>
                else m\<lparr>pins := gm_put chain target (pins m)\<rparr>)
      in case chainLocked src now chain m0 of
           None \<Rightarrow> None
         | Some (None, m1) \<Rightarrow> Some (unlockAndFlush m1)
         | Some (Some ch, m1) \<Rightarrow>
             if target \<noteq> '''' \<and> target \<notin> set (ctargets ch) then Some (unlockAndFlush m1)
             else if pinned ch = target then Some (unlockAndFlush m1)
             else map_option unlockAndFlush (set_chain_pin now ch target m1))"

definition rollbackPin :: "config_source \<Rightarrow> time \<Rightarrow> string \<Rightarrow> string \<Rightarrow> string \<Rightarrow> manager \<Rightarrow> manager option" where
  "rollbackPin src now chain applied prev m =
     (if gm_get0 '''' (pins m) chain = applied then ApplyPin src now chain prev m else Some m)"

text \<open>\<open>shared\<close> is the result of \<open>SetPin\<close> or \<open>ClearPin\<close> of the sync layer, \<open>Some\<close> an error.\<close>

definition Pin ::
  "config_source \<Rightarrow> time \<Rightarrow> string option \<Rightarrow> string \<Rightarrow> string \<Rightarrow> manager \<Rightarrow> (manager_error option \<times> manager) option" where
  "Pin src now shared chain target m =
     (case chainLocked src now chain m of
        None \<Rightarrow> None
      | Some (None, m1) \<Rightarrow> Some (Some (ErrChainNotFound chain), unlockAndFlush m1)
      | Some (Some ch, m1) \<Rightarrow>
          if target \<notin> set (ctargets ch) then Some (Some (ErrTargetNotInChain target), unlockAndFlush m1)
          else
            let prev = gm_get0 '''' (pins m1) chain
            in case set_chain_pin now ch target (m1\<lparr>pins := gm_put chain target (pins m1)\<rparr>) of
                 None \<Rightarrow> None
               | Some m2 \<Rightarrow>
                   let m3 = unlockAndFlush m2
                   in if \<not> hasSync m2 then Some (None, m3)
                      else (case shared of
                              None \<Rightarrow> Some (None, m3)
                            | Some e \<Rightarrow>
                                map_option (\<lambda>m4. (Some (ErrSync e), m4)) (rollbackPin src now chain target prev m3)))"

definition Unpin ::
  "config_source \<Rightarrow> time \<Rightarrow> string option \<Rightarrow> string \<Rightarrow> manager \<Rightarrow> (manager_error option \<times> manager) option" where
  "Unpin src now shared chain m =
     (case chainLocked src now chain m of
        None \<Rightarrow> None
      | Some (None, m1) \<Rightarrow> Some (Some (ErrChainNotFound chain), unlockAndFlush m1)
      | Some (Some ch, m1) \<Rightarrow>
          let prev = gm_get0 '''' (pins m1) chain
          in case set_chain_pin now ch '''' (m1\<lparr>pins := gm_del chain (pins m1)\<rparr>) of
               None \<Rightarrow> None
             | Some m2 \<Rightarrow>
                 let m3 = unlockAndFlush m2
                 in if \<not> hasSync m2 then Some (None, m3)
                    else (case shared of
                            None \<Rightarrow> Some (None, m3)
                          | Some e \<Rightarrow>
                              map_option (\<lambda>m4. (Some (ErrSync e), m4)) (rollbackPin src now chain '''' prev m3)))"

section \<open>Status\<close>

record target_status =
  STModel :: string
  STKind :: kind
  STWarm :: bool
  STState :: target_st
  STConsecutiveOK :: int
  STLastProbe :: "time option"
  STLastError :: string

record chain_status =
  SCName :: string
  SCState :: chain_st
  SCActive :: string
  SCActiveSince :: time
  SCPinned :: "string option"
  SCTargets :: "target_status list"

definition target_statusLocked :: "manager \<Rightarrow> string \<Rightarrow> target_status" where
  "target_statusLocked m name =
     (case gm_get (mtargets m) name of
        None \<Rightarrow> \<lparr>STModel = name, STKind = KindUnset, STWarm = False, STState = StateOther '''', STConsecutiveOK = 0,
                 STLastProbe = None, STLastError = ''''\<rparr>
      | Some ts \<Rightarrow> \<lparr>STModel = name, STKind = tkind ts, STWarm = twarm ts, STState = tstate ts,
                    STConsecutiveOK = consecutiveOK ts,
                    STLastProbe = (if is_zero (lastProbe ts) then None else Some (lastProbe ts)),
                    STLastError = lastError ts\<rparr>)"

definition statusLocked :: "chain_state \<Rightarrow> manager \<Rightarrow> chain_status option" where
  "statusLocked ch m =
     (case slice_at (ctargets ch) (active ch) of
        None \<Rightarrow> None
      | Some act \<Rightarrow>
          Some \<lparr>SCName = cname ch, SCState = cstate ch, SCActive = act, SCActiveSince = activeSince ch,
                SCPinned = (if pinned ch \<noteq> '''' then Some (pinned ch) else None),
                SCTargets = map (target_statusLocked m) (ctargets ch)\<rparr>)"

definition status_step :: "manager \<Rightarrow> string \<Rightarrow> chain_status list \<Rightarrow> chain_status list option" where
  "status_step m n out =
     (case gm_get (mchains m) n of
        None \<Rightarrow> None
      | Some ch \<Rightarrow> map_option (\<lambda>cs. out @ [cs]) (statusLocked ch m))"

definition Status :: "config_source \<Rightarrow> time \<Rightarrow> manager \<Rightarrow> (chain_status list \<times> manager) option" where
  "Status src now m =
     (case syncLocked src now m of
        None \<Rightarrow> None
      | Some m1 \<Rightarrow>
          map_option (\<lambda>out. (out, unlockAndFlush m1)) (ofold (status_step m1) (go_sort (<) (gm_keys (mchains m1))) []))"

definition ChainStatus :: "config_source \<Rightarrow> time \<Rightarrow> string \<Rightarrow> manager \<Rightarrow> (chain_status option \<times> manager) option" where
  "ChainStatus src now name m =
     (case chainLocked src now name m of
        None \<Rightarrow> None
      | Some (None, m1) \<Rightarrow> Some (None, unlockAndFlush m1)
      | Some (Some ch, m1) \<Rightarrow> map_option (\<lambda>cs. (Some cs, unlockAndFlush m1)) (statusLocked ch m1))"

section \<open>Subscribers\<close>

text \<open>
  \<open>Subscribe\<close> returns the id of the subscription, or \<open>None\<close> for the channel that is closed at once; the
  buffer is at least 1, for which a send succeeds exactly when the buffer is not full.
\<close>

definition Subscribe :: "nat \<Rightarrow> manager \<Rightarrow> int option \<times> manager" where
  "Subscribe buffer m =
     (if mclosed m then (None, m)
      else (Some (nextSub m),
            m\<lparr>nextSub := nextSub m + 1, subs := gm_put (nextSub m) \<lparr>cap = buffer, buf = []\<rparr> (subs m)\<rparr>))"

definition cancel_sub :: "int \<Rightarrow> manager \<Rightarrow> manager" where
  "cancel_sub i m = m\<lparr>subs := gm_del i (subs m)\<rparr>"

definition manager_close :: "manager \<Rightarrow> manager" where
  "manager_close m = m\<lparr>mclosed := True, subs := []\<rparr>"

section \<open>Well-formed managers\<close>

definition chain_wf :: "string \<Rightarrow> chain_state \<Rightarrow> bool" where
  "chain_wf n ch \<longleftrightarrow> cname ch = n \<and> ctargets ch \<noteq> [] \<and> distinct (ctargets ch) \<and> 0 \<le> active ch \<and> active ch < int (length (ctargets ch))
     \<and> (pinned ch \<noteq> '''' \<longrightarrow> pinned ch \<in> set (ctargets ch))"

definition chains_ok :: "manager \<Rightarrow> bool" where
  "chains_ok m \<longleftrightarrow> distinct (gm_keys (mchains m)) \<and> (\<forall>n ch. gm_get (mchains m) n = Some ch \<longrightarrow> chain_wf n ch)"

definition targets_ok :: "manager \<Rightarrow> bool" where
  "targets_ok m \<longleftrightarrow> distinct (gm_keys (mtargets m)) \<and> (\<forall>n ts. gm_get (mtargets m) n = Some ts \<longrightarrow> tname ts = n)"

definition manager_ok :: "manager \<Rightarrow> bool" where
  "manager_ok m \<longleftrightarrow> chains_ok m \<and> targets_ok m \<and> \<not> applying m
     \<and> (\<forall>n ch. gm_get (mchains m) n = Some ch \<longrightarrow> set (ctargets ch) \<subseteq> set (gm_keys (mtargets m)))"

text \<open>What a recomputation of chains leaves alone: everything but the chains, the events and the publishes.\<close>

definition other_fields :: "manager \<Rightarrow> manager" where
  "other_fields m = m\<lparr>mchains := [], subs := [], switches := [], pending := []\<rparr>"

lemma other_fields_sel:
  "mid (other_fields m) = mid m" "pins (other_fields m) = pins m" "mtargets (other_fields m) = mtargets m"
  "mwarm (other_fields m) = mwarm m" "hasSync (other_fields m) = hasSync m" "leader (other_fields m) = leader m"
  "applying (other_fields m) = applying m" "sent (other_fields m) = sent m" "hasChains (other_fields m) = hasChains m"
  "hasGate (other_fields m) = hasGate m"
  by (simp_all add: other_fields_def)

lemma other_fieldsD:
  assumes "other_fields m' = other_fields m"
  shows "mid m' = mid m" "pins m' = pins m" "mtargets m' = mtargets m" "mwarm m' = mwarm m" "hasSync m' = hasSync m"
    "leader m' = leader m" "applying m' = applying m" "sent m' = sent m" "hasChains m' = hasChains m"
    "hasGate m' = hasGate m"
  by (metis assms other_fields_sel)+

lemma healthy_at_cong: "mtargets m' = mtargets m \<Longrightarrow> healthy_at m' = healthy_at m"
  by (simp add: healthy_at_def fun_eq_iff)

lemma emitLocked_fields [simp]:
  "mchains (emitLocked ev m) = mchains m" "mtargets (emitLocked ev m) = mtargets m"
  "other_fields (emitLocked ev m) = other_fields m" "pending (emitLocked ev m) = pending m"
  "hasSync (emitLocked ev m) = hasSync m" "leader (emitLocked ev m) = leader m" "mid (emitLocked ev m) = mid m"
  "applying (emitLocked ev m) = applying m" "pins (emitLocked ev m) = pins m" "sent (emitLocked ev m) = sent m"
  by (auto simp: emitLocked_def other_fields_def Let_def)

lemma put_chain_fields [simp]:
  "mchains (put_chain ch m) = gm_put (cname ch) ch (mchains m)" "mtargets (put_chain ch m) = mtargets m"
  "other_fields (put_chain ch m) = other_fields m" "pending (put_chain ch m) = pending m"
  "hasSync (put_chain ch m) = hasSync m" "leader (put_chain ch m) = leader m" "mid (put_chain ch m) = mid m"
  "applying (put_chain ch m) = applying m" "pins (put_chain ch m) = pins m" "sent (put_chain ch m) = sent m"
  by (auto simp: put_chain_def other_fields_def)

lemma put_target_fields [simp]:
  "mchains (put_target ts m) = mchains m" "mtargets (put_target ts m) = gm_put (tname ts) ts (mtargets m)"
  "hasSync (put_target ts m) = hasSync m" "leader (put_target ts m) = leader m" "mid (put_target ts m) = mid m"
  "applying (put_target ts m) = applying m" "pins (put_target ts m) = pins m" "pending (put_target ts m) = pending m"
  "sent (put_target ts m) = sent m"
  by (auto simp: put_target_def)

lemma unlockAndFlush_fields [simp]:
  "mchains (unlockAndFlush m) = mchains m" "mtargets (unlockAndFlush m) = mtargets m" "pins (unlockAndFlush m) = pins m"
  "hasSync (unlockAndFlush m) = hasSync m" "leader (unlockAndFlush m) = leader m" "mid (unlockAndFlush m) = mid m"
  "applying (unlockAndFlush m) = applying m" "pending (unlockAndFlush m) = []" "hasGate (unlockAndFlush m) = hasGate m"
  by (auto simp: unlockAndFlush_def)

lemma gm_put_same: "gm_get m k = Some v \<Longrightarrow> gm_put k v m = m"
  by (induction m) (auto split: if_splits)

lemma gm_put_put: "gm_put k v (gm_put k w m) = gm_put k v m"
  by (induction m) auto

section \<open>The decision\<close>

text \<open>
  The index that a recomputation makes active, written as a specification: the pin; without one, the
  first healthy target, except that a healthy active target is kept until it was active for
  the minimum dwell time; and no change where no target is healthy.
\<close>

definition first_healthy :: "manager \<Rightarrow> string list \<Rightarrow> int option" where
  "first_healthy m ns = (if best_healthy m ns 0 < 0 then None else Some (best_healthy m ns 0))"

definition active_healthy :: "manager \<Rightarrow> chain_state \<Rightarrow> bool" where
  "active_healthy m ch = healthy_at m (ctargets ch ! nat (active ch))"

definition decided :: "time \<Rightarrow> manager \<Rightarrow> chain_state \<Rightarrow> int" where
  "decided now m ch =
     (if pinned ch \<noteq> '''' then slices_index (ctargets ch) (pinned ch)
      else case first_healthy m (ctargets ch) of
             None \<Rightarrow> active ch
           | Some b \<Rightarrow>
               if active_healthy m ch \<and> time_sub now (activeSince ch) < MinDwell (ccfg ch) then active ch else b)"

definition decided_state :: "time \<Rightarrow> manager \<Rightarrow> chain_state \<Rightarrow> chain_st" where
  "decided_state now m ch =
     (if pinned ch = '''' \<and> first_healthy m (ctargets ch) = None then ChainDegraded
      else if decided now m ch = 0 then ChainPrimary else ChainFallback)"

definition follows :: "manager \<Rightarrow> chain_state \<Rightarrow> bool" where
  "follows m ch \<longleftrightarrow> hasSync m \<and> \<not> leader m \<and> adopted ch \<and> pinned ch = ''''"

definition recomputed :: "time \<Rightarrow> manager \<Rightarrow> chain_state \<Rightarrow> chain_state" where
  "recomputed now m ch =
     (if follows m ch then ch
      else ch\<lparr>active := decided now m ch,
              activeSince := (if decided now m ch \<noteq> active ch then now else activeSince ch),
              cstate := decided_state now m ch\<rparr>)"

lemma best_healthy_range:
  "best_healthy m ns i = -1 \<or> (i \<le> best_healthy m ns i \<and> best_healthy m ns i < i + int (length ns))"
proof (induction ns arbitrary: i)
  case (Cons n ns)
  from Cons [of "i + 1"] show ?case by auto
qed simp

lemma best_healthy_first:
  assumes "0 \<le> i" and "best_healthy m ns i \<noteq> -1"
  shows "healthy_at m (ns ! nat (best_healthy m ns i - i))
    \<and> (\<forall>j < nat (best_healthy m ns i - i). \<not> healthy_at m (ns ! j))"
  using assms
proof (induction ns arbitrary: i)
  case (Cons n ns)
  show ?case
  proof (cases "healthy_at m n")
    case False
    with Cons.prems have b: "best_healthy m ns (i + 1) \<noteq> -1" by simp
    then have ge: "i + 1 \<le> best_healthy m ns (i + 1)" using best_healthy_range by metis
    then have "nat (best_healthy m ns (i + 1) - i) = Suc (nat (best_healthy m ns (i + 1) - (i + 1)))" by simp
    with Cons.IH [of "i + 1"] Cons.prems(1) b False show ?thesis
      by (auto simp: less_Suc_eq_0_disj)
  qed simp
qed simp

lemma best_healthy_none: "0 \<le> i \<Longrightarrow> best_healthy m ns i = -1 \<longleftrightarrow> (\<forall>n \<in> set ns. \<not> healthy_at m n)"
  by (induction ns arbitrary: i) auto

lemma first_healthy_Some:
  assumes "first_healthy m ns = Some b"
  shows "0 \<le> b" "b < int (length ns)" "healthy_at m (ns ! nat b)" "\<And>j. j < nat b \<Longrightarrow> \<not> healthy_at m (ns ! j)"
  using assms best_healthy_range [of m ns 0] best_healthy_first [of 0 m ns]
  by (auto simp: first_healthy_def split: if_splits)

lemma first_healthy_None: "first_healthy m ns = None \<longleftrightarrow> (\<forall>n \<in> set ns. \<not> healthy_at m n)"
  using best_healthy_range [of m ns 0] best_healthy_none [of 0 m ns] by (auto simp: first_healthy_def)

lemma best_healthy_first_healthy:
  "best_healthy m ns 0 = (case first_healthy m ns of None \<Rightarrow> -1 | Some b \<Rightarrow> b)"
  using best_healthy_range [of m ns 0] by (auto simp: first_healthy_def)

lemma first_healthy_le_active:
  assumes "chain_wf n ch" and "active_healthy m ch"
  shows "\<exists>b. first_healthy m (ctargets ch) = Some b \<and> b \<le> active ch"
proof -
  have act: "0 \<le> active ch" "active ch < int (length (ctargets ch))" using assms(1) by (auto simp: chain_wf_def)
  then have "ctargets ch ! nat (active ch) \<in> set (ctargets ch)" by simp
  with assms(2) obtain b where b: "first_healthy m (ctargets ch) = Some b"
    using first_healthy_None [of m "ctargets ch"] by (auto simp: active_healthy_def)
  moreover have "\<not> nat (active ch) < nat b"
    using first_healthy_Some(4) [OF b] assms(2) by (auto simp: active_healthy_def)
  ultimately show ?thesis using act by auto
qed

lemma decided_range: "chain_wf n ch \<Longrightarrow> 0 \<le> decided now m ch \<and> decided now m ch < int (length (ctargets ch))"
  using slices_index_valid [of "pinned ch" "ctargets ch"] first_healthy_Some(1,2) [of m "ctargets ch"]
  by (auto simp: decided_def chain_wf_def split: option.splits)

lemma choose_next_decided:
  assumes wf: "chain_wf n ch"
  shows "\<exists>r. choose_next now ch (best_healthy m (ctargets ch) 0) m = Some (decided now m ch, r)"
proof (cases "pinned ch = ''''")
  case False
  then show ?thesis by (simp add: choose_next_def decided_def)
next
  case True
  have at: "slice_at (ctargets ch) (active ch) = Some (ctargets ch ! nat (active ch))"
    using wf by (auto simp: chain_wf_def slice_at_def)
  show ?thesis
  proof (cases "first_healthy m (ctargets ch)")
    case None
    with True show ?thesis by (simp add: choose_next_def decided_def best_healthy_first_healthy)
  next
    case (Some b)
    have "b \<noteq> -1" using first_healthy_Some(1) [OF Some] by simp
    moreover have "\<not> b > active ch" if "active_healthy m ch"
      using first_healthy_le_active [OF wf that] Some by auto
    moreover have "active_healthy m ch" if "b = active ch"
      using first_healthy_Some(3) [OF Some] that by (simp add: active_healthy_def)
    ultimately show ?thesis
      using True Some at
      by (auto simp: choose_next_def decided_def best_healthy_first_healthy active_healthy_def Let_def)
  qed
qed

lemma decided_state_eq:
  "decided_state now m ch =
     (if pinned ch = '''' \<and> best_healthy m (ctargets ch) 0 = -1 then ChainDegraded
      else if decided now m ch = 0 then ChainPrimary else ChainFallback)"
  using first_healthy_Some(1) [of m "ctargets ch"]
  by (auto simp: decided_state_def best_healthy_first_healthy split: option.splits)

lemma switch_event_Some:
  "chain_wf n ch \<Longrightarrow> 0 \<le> i \<Longrightarrow> i < int (length (ctargets ch)) \<Longrightarrow> \<exists>ev. switch_event now ch (active ch) i st r = Some ev"
  by (auto simp: switch_event_def chain_wf_def slice_at_Some)

lemma emit_switch_Some: "\<exists>e. ev = Some e \<Longrightarrow> \<exists>e. emit_switch ev m = Some (emitLocked e m)"
  by (auto simp: emit_switch_def)

lemma queuePublishChainLocked_Some:
  assumes "0 \<le> active ch" and "active ch < int (length (ctargets ch))"
  shows "\<exists>ps. queuePublishChainLocked ch r m = Some (m\<lparr>pending := pending m @ ps\<rparr>)"
  using assms by (auto simp: queuePublishChainLocked_def chainSnapshotLocked_def slice_at_Some
      intro: exI [of _ "[]"] exI [of _ "[PublishChain p]" for p])

lemma chain_wf_recomputed: "chain_wf n ch \<Longrightarrow> chain_wf n (recomputed now m ch)"
  using decided_range [of n ch now m] by (auto simp: recomputed_def chain_wf_def)

lemma apply_decision_returns:
  assumes wf: "chain_wf n ch" and d: "0 \<le> d" "d < int (length (ctargets ch))"
    and ch': "ch' = ch\<lparr>active := d, activeSince := (if d \<noteq> active ch then now else activeSince ch), cstate := st\<rparr>"
  shows "\<exists>m'. apply_decision now ch d st r m = Some m' \<and> other_fields m' = other_fields m
    \<and> mchains m' = gm_put n ch' (mchains m)"
proof -
  define ch1 where "ch1 = (if d \<noteq> active ch then ch\<lparr>active := d, activeSince := now\<rparr> else ch)"
  define m1 where "m1 = (if d \<noteq> active ch then emit_switch (switch_event now ch (active ch) d st r) (put_chain ch1 m)
     else if st = ChainDegraded \<and> cstate ch \<noteq> ChainDegraded
     then emit_switch (switch_event now ch (active ch) d st ReasonDegraded) m
     else if st \<noteq> ChainDegraded \<and> cstate ch = ChainDegraded
     then emit_switch (switch_event now ch (active ch) d st ReasonRecovery) m
     else Some m)"
  define pub where "pub = (if d = active ch then (if st = ChainDegraded then ReasonDegraded else ReasonRecovery) else r)"
  have name: "cname ch = n" using wf by (simp add: chain_wf_def)
  have ev: "\<exists>e. switch_event now ch (active ch) d st rr = Some e" for rr
    using switch_event_Some [OF wf d] .
  obtain e1 e2 e3 where
    e: "emit_switch (switch_event now ch (active ch) d st r) (put_chain ch1 m) = Some (emitLocked e1 (put_chain ch1 m))"
      "emit_switch (switch_event now ch (active ch) d st ReasonDegraded) m = Some (emitLocked e2 m)"
      "emit_switch (switch_event now ch (active ch) d st ReasonRecovery) m = Some (emitLocked e3 m)"
    using emit_switch_Some [OF ev] by meson
  have "cname ch1 = n" using name by (simp add: ch1_def)
  then have "\<exists>m2. m1 = Some m2 \<and> other_fields m2 = other_fields m \<and> gm_put n ch' (mchains m2) = gm_put n ch' (mchains m)"
    unfolding m1_def e by (auto simp: gm_put_put)
  then obtain m2 where m2: "m1 = Some m2" "other_fields m2 = other_fields m"
      "gm_put n ch' (mchains m2) = gm_put n ch' (mchains m)"
    by blast
  have ch2: "ch1\<lparr>cstate := st\<rparr> = ch'" by (simp add: ch1_def ch')
  have run: "apply_decision now ch d st r m =
      (if d \<noteq> active ch \<or> st \<noteq> cstate ch then queuePublishChainLocked ch' pub (put_chain ch' m2)
       else Some (put_chain ch' m2))"
    using m2(1) unfolding apply_decision_def Let_def m1_def pub_def ch2 [symmetric] ch1_def by simp
  have pc: "mchains (put_chain ch' m2) = gm_put n ch' (mchains m)" "other_fields (put_chain ch' m2) = other_fields m"
    using m2 name by (simp_all add: ch')
  have "0 \<le> active ch'" "active ch' < int (length (ctargets ch'))" using d by (simp_all add: ch')
  from queuePublishChainLocked_Some [OF this] obtain ps where
    q: "queuePublishChainLocked ch' pub (put_chain ch' m2) = Some ((put_chain ch' m2)\<lparr>pending := pending (put_chain ch' m2) @ ps\<rparr>)"
    by blast
  have "other_fields ((put_chain ch' m2)\<lparr>pending := p\<rparr>) = other_fields (put_chain ch' m2)" for p
    by (simp add: other_fields_def)
  with run q pc show ?thesis by simp
qed

lemma recomputeLocked_returns:
  assumes ok: "chains_ok m" and get: "gm_get (mchains m) n = Some ch"
  shows "\<exists>m'. recomputeLocked now n r m = Some m' \<and> other_fields m' = other_fields m
    \<and> mchains m' = gm_put n (recomputed now m ch) (mchains m)"
proof (cases "follows m ch")
  case True
  with get show ?thesis
    by (auto simp: recomputeLocked_def follows_def recomputed_def gm_put_same)
next
  case False
  have wf: "chain_wf n ch" using ok get by (auto simp: chains_ok_def)
  obtain r0 where ch_next: "choose_next now ch (best_healthy m (ctargets ch) 0) m = Some (decided now m ch, r0)"
    using choose_next_decided [OF wf] by blast
  have "recomputeLocked now n r m =
      apply_decision now ch (decided now m ch) (decided_state now m ch) (if r \<noteq> no_reason then r else r0) m"
  proof -
    have guard: "\<not> (hasSync m \<and> \<not> leader m \<and> adopted ch \<and> pinned ch = '''')"
      using False by (simp add: follows_def)
    show ?thesis
      unfolding recomputeLocked_def get option.case if_not_P [OF guard] Let_def ch_next prod.case
      by (simp only: decided_state_eq)
  qed
  moreover have "recomputed now m ch = ch\<lparr>active := decided now m ch,
      activeSince := (if decided now m ch \<noteq> active ch then now else activeSince ch), cstate := decided_state now m ch\<rparr>"
    using False by (simp add: recomputed_def)
  ultimately show ?thesis
    using apply_decision_returns [OF wf _ _ refl, of "decided now m ch"] decided_range [OF wf, of now m] by simp
qed

lemma recomputed_ctargets [simp]: "ctargets (recomputed now m ch) = ctargets ch" "cname (recomputed now m ch) = cname ch"
  "pinned (recomputed now m ch) = pinned ch" "ccfg (recomputed now m ch) = ccfg ch" "adopted (recomputed now m ch) = adopted ch"
  by (auto simp: recomputed_def)

lemma recomputed_cong:
  "other_fields m' = other_fields m \<Longrightarrow> recomputed now m' ch = recomputed now m ch"
proof -
  assume o: "other_fields m' = other_fields m"
  have "best_healthy m' ns i = best_healthy m ns i" for ns i
    using healthy_at_cong [OF other_fieldsD(3) [OF o]] by (induction ns arbitrary: i) auto
  then show ?thesis
    using other_fieldsD [OF o] healthy_at_cong [OF other_fieldsD(3) [OF o]]
    by (auto simp: recomputed_def follows_def decided_def decided_state_def first_healthy_def active_healthy_def)
qed

text \<open>A loop of recomputations over chains of the manager: it returns, and each chain listed is recomputed once.\<close>

lemma recompute_loop:
  assumes "chains_ok m" and "distinct ns" and "set ns \<subseteq> set (gm_keys (mchains m))"
  shows "\<exists>m'. ofold (\<lambda>n. recomputeLocked now n r) ns m = Some m' \<and> other_fields m' = other_fields m
    \<and> chains_ok m' \<and> gm_keys (mchains m') = gm_keys (mchains m)
    \<and> (\<forall>n. gm_get (mchains m') n =
         map_option (\<lambda>ch. if n \<in> set ns then recomputed now m ch else ch) (gm_get (mchains m) n))"
  using assms
proof (induction ns arbitrary: m)
  case Nil
  then show ?case by (auto simp: option.map_ident)
next
  case (Cons n ns)
  then obtain ch where ch: "gm_get (mchains m) n = Some ch"
    by (cases "gm_get (mchains m) n") (auto simp: gm_get_None_iff)
  from recomputeLocked_returns [OF Cons.prems(1) ch, of now r] obtain m1 where
    m1: "recomputeLocked now n r m = Some m1" "other_fields m1 = other_fields m"
      "mchains m1 = gm_put n (recomputed now m ch) (mchains m)" by blast
  have wf: "chain_wf n ch" using Cons.prems(1) ch by (auto simp: chains_ok_def)
  have keys: "gm_keys (mchains m1) = gm_keys (mchains m)"
    using m1(3) gm_get_in_keys [OF ch] by (simp add: update_keys)
  have ok1: "chains_ok m1"
    using Cons.prems(1) m1(3) keys chain_wf_recomputed [OF wf] by (auto simp: chains_ok_def gm_get_put)
  from Cons.IH [OF ok1] Cons.prems keys obtain m' where
    m': "ofold (\<lambda>n. recomputeLocked now n r) ns m1 = Some m'" "other_fields m' = other_fields m1" "chains_ok m'"
      "gm_keys (mchains m') = gm_keys (mchains m1)"
      "\<forall>k. gm_get (mchains m') k =
        map_option (\<lambda>ch. if k \<in> set ns then recomputed now m1 ch else ch) (gm_get (mchains m1) k)"
    by auto
  have "gm_get (mchains m') k =
      map_option (\<lambda>ch. if k \<in> set (n # ns) then recomputed now m ch else ch) (gm_get (mchains m) k)" for k
  proof -
    have "gm_get (mchains m') k =
        map_option (\<lambda>ch. if k \<in> set ns then recomputed now m ch else ch) (gm_get (mchains m1) k)"
      using m'(5) [rule_format, of k] unfolding recomputed_cong [OF m1(2)] .
    with m1(3) ch Cons.prems(2) show ?thesis by (auto simp: gm_get_put)
  qed
  with m' m1 keys show ?case by auto
qed

lemma recompute_all_returns:
  assumes "chains_ok m"
  shows "\<exists>m'. recompute_all now m = Some m' \<and> other_fields m' = other_fields m \<and> chains_ok m'
    \<and> gm_keys (mchains m') = gm_keys (mchains m)
    \<and> (\<forall>n. gm_get (mchains m') n = map_option (recomputed now m) (gm_get (mchains m) n))"
proof -
  have "distinct (gm_keys (mchains m))" using assms by (simp add: chains_ok_def)
  from recompute_loop [OF assms this subset_refl, of now no_reason] obtain m' where
    m': "recompute_all now m = Some m'" "other_fields m' = other_fields m" "chains_ok m'"
      "gm_keys (mchains m') = gm_keys (mchains m)"
      "\<forall>n. gm_get (mchains m') n =
        map_option (\<lambda>ch. if n \<in> set (gm_keys (mchains m)) then recomputed now m ch else ch) (gm_get (mchains m) n)"
    unfolding recompute_all_def by blast
  have "gm_get (mchains m') n = map_option (recomputed now m) (gm_get (mchains m) n)" for n
    using m'(5) gm_get_in_keys [of "mchains m" n] by (cases "gm_get (mchains m) n") auto
  with m' show ?thesis by blast
qed

lemma recomputeForLocked_returns:
  assumes "chains_ok m"
  shows "\<exists>m'. recomputeForLocked now t m = Some m' \<and> other_fields m' = other_fields m \<and> chains_ok m'
    \<and> gm_keys (mchains m') = gm_keys (mchains m)
    \<and> (\<forall>n. gm_get (mchains m') n =
         map_option (\<lambda>ch. if t \<in> set (ctargets ch) then recomputed now m ch else ch) (gm_get (mchains m) n))"
proof -
  let ?ns = "map fst (filter (\<lambda>(n, ch). t \<in> set (ctargets ch)) (mchains m))"
  have dist: "distinct (gm_keys (mchains m))" using assms by (simp add: chains_ok_def)
  then have "distinct ?ns" by (simp add: distinct_map_filter)
  moreover have "set ?ns \<subseteq> set (gm_keys (mchains m))" by auto
  ultimately obtain m' where
    m': "recomputeForLocked now t m = Some m'" "other_fields m' = other_fields m" "chains_ok m'"
      "gm_keys (mchains m') = gm_keys (mchains m)"
      "\<forall>n. gm_get (mchains m') n =
        map_option (\<lambda>ch. if n \<in> set ?ns then recomputed now m ch else ch) (gm_get (mchains m) n)"
    unfolding recomputeForLocked_def using recompute_loop [OF assms] by blast
  have "n \<in> set ?ns \<longleftrightarrow> t \<in> set (ctargets ch)" if "gm_get (mchains m) n = Some ch" for n ch
  proof -
    have "(n, ch) \<in> set (mchains m)" by (rule gm_entry_in [OF that])
    moreover have "ch' = ch" if "(n, ch') \<in> set (mchains m)" for ch'
      using gm_get_entry [OF dist that] \<open>gm_get (mchains m) n = Some ch\<close> by simp
    moreover have "n \<in> set ?ns \<longleftrightarrow> (\<exists>ch'. (n, ch') \<in> set (mchains m) \<and> t \<in> set (ctargets ch'))"
      by (auto intro: rev_image_eqI)
    ultimately show ?thesis by blast
  qed
  then have "gm_get (mchains m') n =
      map_option (\<lambda>ch. if t \<in> set (ctargets ch) then recomputed now m ch else ch) (gm_get (mchains m) n)" for n
    using m'(5) by (cases "gm_get (mchains m) n") auto
  with m' show ?thesis by blast
qed

end
