(* ===== verification/FailoverSync.thy ===== *)
theory FailoverSync
  imports FailoverManager
begin

text \<open>
  The failover manager among other frontends, and its scheduler: the receiving half of
  \<^verbatim>\<open>core/services/failover/statesync.go\<close> and \<^verbatim>\<open>schedule.go\<close>. What the shared pin store returns, whether
  the leader gate grants leadership and what a probe finds are arguments. A tick returns the probes it starts;
  each runs beside the manager and later ends in \<open>runProbe\<close>. \<open>step\<close> is one locked section of
  any of the goroutines, so a sequence of steps is one interleaving of requests, ticks, probes, pin
  changes and messages from peers.
\<close>

section \<open>Messages from peers\<close>

text \<open>\<open>adopt_snapshot\<close> is what \<open>ApplyTarget\<close> takes over from the publisher after the transition.\<close>

definition adopt_snapshot :: "target_snapshot \<Rightarrow> target_state \<Rightarrow> target_state" where
  "adopt_snapshot s ts =
     (let ts1 = (if \<not> is_zero (TSSince s)
                 then ts\<lparr>tsince := TSSince s,
                        downSince := (if TSState s = StateDown then TSSince s else downSince ts)\<rparr>
                 else ts)
      in ts1\<lparr>consecutiveOK := TSConsecutiveOK s,
             lastError := (if TSError s \<noteq> '''' then TSError s else lastError ts1)\<rparr>)"

definition ApplyTarget :: "config_source \<Rightarrow> time \<Rightarrow> target_snapshot \<Rightarrow> manager \<Rightarrow> manager option" where
  "ApplyTarget src now s m =
     (if TSOrigin s \<noteq> '''' \<and> TSOrigin s = mid m then Some (unlockAndFlush m)
      else case targetLocked src now (TSTarget s) m of
             None \<Rightarrow> None
           | Some (None, m1) \<Rightarrow> Some (unlockAndFlush m1)
           | Some (Some ts, m1) \<Rightarrow>
               if tstate ts = StateMissing \<or> TSState s = StateMissing then Some (unlockAndFlush m1)
               else if tstate ts = TSState s then Some (unlockAndFlush m1)
               else
                 let (ts1, m2) = setTargetLocked now ts (TSState s) (TSReason s) (TSError s) (m1\<lparr>applying := True\<rparr>);
                     ts2 = adopt_snapshot s ts1
                 in recompute_flush now (tname ts2) (put_target ts2 (m2\<lparr>applying := False\<rparr>)))"

definition ApplyChain :: "config_source \<Rightarrow> time \<Rightarrow> chain_snapshot \<Rightarrow> manager \<Rightarrow> manager option" where
  "ApplyChain src now s m =
     (if leader m then Some (unlockAndFlush m)
      else case chainLocked src now (CSChain s) m of
             None \<Rightarrow> None
           | Some (None, m1) \<Rightarrow> Some (unlockAndFlush m1)
           | Some (Some ch, m1) \<Rightarrow>
               let nxt = slices_index (ctargets ch) (CSActive s); prev = active ch
               in if nxt < 0 then Some (unlockAndFlush m1)
                  else
                    let changed = (nxt \<noteq> prev \<or> CSState s \<noteq> cstate ch);
                        ch1 = ch\<lparr>active := nxt, activeSince := CSActiveSince s, cstate := CSState s, adopted := True\<rparr>;
                        m2 = put_chain ch1 m1
                    in map_option unlockAndFlush
                         (if changed then emit_switch (switch_event now ch prev nxt (CSState s) (CSReason s)) m2
                          else Some m2))"

definition ReconcilePins :: "config_source \<Rightarrow> time \<Rightarrow> (string, string) gomap \<Rightarrow> manager \<Rightarrow> manager option" where
  "ReconcilePins src now want m =
     (if \<not> hasSync m then Some m
      else case ofold (\<lambda>chain. ApplyPin src now chain '''')
                  (filter (\<lambda>chain. gm_get want chain = None) (gm_keys (pins m))) m of
             None \<Rightarrow> None
           | Some m1 \<Rightarrow> ofold (\<lambda>(chain, target). ApplyPin src now chain target) want m1)"

definition SetLeaderGate :: "bool \<Rightarrow> manager \<Rightarrow> manager" where
  "SetLeaderGate g m = m\<lparr>hasGate := g, leader := (\<not> g)\<rparr>"

definition SetStateSync :: "config_source \<Rightarrow> time \<Rightarrow> (string, string) gomap option \<Rightarrow> manager \<Rightarrow> manager option" where
  "SetStateSync src now s m =
     (case s of
        None \<Rightarrow> Some (m\<lparr>hasSync := False\<rparr>)
      | Some want \<Rightarrow> ReconcilePins src now want (m\<lparr>hasSync := True\<rparr>))"

definition IsLeader :: "manager \<Rightarrow> bool" where
  "IsLeader m = leader m"

definition republish_chain :: "string \<Rightarrow> manager \<Rightarrow> manager option" where
  "republish_chain n m =
     (case gm_get (mchains m) n of None \<Rightarrow> None | Some ch \<Rightarrow> queuePublishChainLocked ch ReasonInitial m)"

definition Republish :: "manager \<Rightarrow> manager option" where
  "Republish m =
     (if \<not> hasSync m \<or> \<not> leader m then Some (unlockAndFlush m)
      else
        let snaps = map (\<lambda>(n, ts). PublishTarget (targetSnapshotLocked ts m))
                      (filter (\<lambda>(n, ts). tstate ts \<noteq> StateMissing) (mtargets m))
        in map_option unlockAndFlush
             (ofold republish_chain (gm_keys (mchains m)) (m\<lparr>pending := pending m @ snaps\<rparr>)))"

section \<open>The scheduler\<close>

record probe_job =
  jtarget :: string
  jcfg :: model_config
  jkind :: kind
  jwarm :: bool
  inference :: bool
  jtimeout :: duration

text \<open>The body of the loop of \<open>dueProbes\<close>; \<open>start_probe\<close> is what follows the switch.\<close>

definition start_probe ::
  "config_source \<Rightarrow> time \<Rightarrow> target_state \<Rightarrow> bool \<Rightarrow> probe_job list \<times> manager \<Rightarrow> probe_job list \<times> manager" where
  "start_probe src now ts infer = (\<lambda>(jobs, m).
     if \<not> hasProber m then (jobs, m)
     else case lookupTarget src (tname ts) of
            None \<Rightarrow> (jobs, m)
          | Some cfg \<Rightarrow>
              (jobs @ [\<lparr>jtarget = tname ts, jcfg = cfg, jkind = tkind ts, jwarm = twarm ts, inference = infer,
                        jtimeout = ProbeTimeout (params ts)\<rparr>],
               put_target (ts\<lparr>lastProbe := now, probing := True\<rparr>) m))"

definition due_probe ::
  "config_source \<Rightarrow> time \<Rightarrow> string \<Rightarrow> probe_job list \<times> manager \<Rightarrow> (probe_job list \<times> manager) option" where
  "due_probe src now n = (\<lambda>(jobs, m).
     case gm_get (mtargets m) n of
       None \<Rightarrow> None
     | Some ts \<Rightarrow>
         if probing ts then Some (jobs, m)
         else
           let interval = ProbeInterval (params ts)
           in case tstate ts of
                StateMissing \<Rightarrow> Some (jobs, m)
              | StateHealthy \<Rightarrow>
                  if time_sub now (lastActivity ts) < interval \<or> time_sub now (lastProbe ts) < interval
                  then Some (jobs, m)
                  else Some (start_probe src now ts False (jobs, m))
              | StateDown \<Rightarrow>
                  if cold ts
                  then (if time_sub now (downSince ts) \<ge> MinDwell (params ts)
                        then map_option (Pair jobs)
                               (recomputeForLocked now (tname ts)
                                  (snd (setTargetLocked now ts StateHealthy ReasonRecovery '''' m)))
                        else Some (jobs, m))
                  else if time_sub now (lastProbe ts) < interval then Some (jobs, m)
                  else Some (start_probe src now ts False (jobs, m))
              | StateRecovering \<Rightarrow>
                  if cold ts \<or> time_sub now (lastProbe ts) < interval then Some (jobs, m)
                  else Some (start_probe src now ts True (jobs, m))
              | StateOther _ \<Rightarrow> Some (start_probe src now ts False (jobs, m)))"

definition dueProbes :: "config_source \<Rightarrow> time \<Rightarrow> manager \<Rightarrow> (probe_job list \<times> manager) option" where
  "dueProbes src now m =
     map_option (\<lambda>(jobs, m1). (jobs, unlockAndFlush m1)) (ofold (due_probe src now) (gm_keys (mtargets m)) ([], m))"

definition lead :: "config_source \<Rightarrow> time \<Rightarrow> manager \<Rightarrow> (probe_job list \<times> manager) option" where
  "lead src now m =
     (let became = (\<not> leader m);
          m1 = m\<lparr>leader := True, warmPending := (if became then True else warmPending m)\<rparr>;
          (wd, m2) = takeWarmLocked m1;
          m3 = call_onWarm wd (unlockAndFlush m2)
      in case (if became then Republish m3 else Some m3) of
           None \<Rightarrow> None
         | Some m4 \<Rightarrow>
             (case dueProbes src now m4 of
                None \<Rightarrow> None
              | Some (jobs, m5) \<Rightarrow> map_option (Pair jobs) (Reevaluate now m5)))"

text \<open>
  \<open>granted\<close> is what the leader gate decides: a gate runs its function exactly when it reports that it did.
\<close>

definition Tick :: "config_source \<Rightarrow> time \<Rightarrow> bool \<Rightarrow> manager \<Rightarrow> (probe_job list \<times> manager) option" where
  "Tick src now granted m =
     (case manager_Sync src now m of
        None \<Rightarrow> None
      | Some m1 \<Rightarrow>
          if \<not> hasGate m1 \<or> granted then lead src now m1
          else map_option (Pair []) (Reevaluate now (m1\<lparr>leader := False\<rparr>)))"

text \<open>One round of the loop of \<open>Run\<close>; \<open>want\<close> is the shared pin set, read every tenth time.\<close>

definition run_round ::
  "config_source \<Rightarrow> time \<Rightarrow> bool \<Rightarrow> (string, string) gomap \<Rightarrow> manager \<Rightarrow> (probe_job list \<times> manager) option" where
  "run_round src now granted want m =
     (case Tick src now granted m of
        None \<Rightarrow> None
      | Some (jobs, m1) \<Rightarrow>
          let m2 = m1\<lparr>ticks := ticks m1 + 1\<rparr>
          in if ticks m2 mod 10 = 0
             then (case ReconcilePins src now want m2 of
                     None \<Rightarrow> None
                   | Some m3 \<Rightarrow> map_option (Pair jobs) (if IsLeader m3 then Republish m3 else Some m3))
             else Some (jobs, m2))"

datatype probe_result = ProbeOk | ProbeNotLoaded | ProbeError string

definition endProbe :: "string \<Rightarrow> manager \<Rightarrow> manager" where
  "endProbe target m =
     (case gm_get (mtargets m) target of
        None \<Rightarrow> m
      | Some ts \<Rightarrow> put_target (ts\<lparr>probing := False\<rparr>) m)"

definition applyProbe :: "time \<Rightarrow> probe_job \<Rightarrow> probe_result \<Rightarrow> manager \<Rightarrow> manager option" where
  "applyProbe now j r m =
     (case gm_get (mtargets m) (jtarget j) of
        None \<Rightarrow> Some (unlockAndFlush m)
      | Some ts0 \<Rightarrow>
          let ts = ts0\<lparr>probing := False\<rparr>; m1 = put_target ts m;
              fin = recompute_flush now (tname ts)
          in if tstate ts = StateMissing then Some (unlockAndFlush m1)
             else case r of
                    ProbeNotLoaded \<Rightarrow>
                      if tstate ts = StateRecovering \<and> time_sub now (downSince ts) \<ge> MinDwell (params ts)
                      then fin (snd (setTargetLocked now ts StateHealthy ReasonRecovery '''' m1))
                      else Some (unlockAndFlush m1)
                  | ProbeError msg \<Rightarrow>
                      if tstate ts = StateDown then fin (put_target (ts\<lparr>lastError := msg\<rparr>) m1)
                      else fin (snd (recordFailureLocked now ts msg m1))
                  | ProbeOk \<Rightarrow>
                      (case tstate ts of
                         StateHealthy \<Rightarrow> fin (put_target (ts\<lparr>lastActivity := now, failures := []\<rparr>) m1)
                       | StateDown \<Rightarrow> fin (snd (setTargetLocked now ts StateRecovering ReasonRecovery '''' m1))
                       | StateRecovering \<Rightarrow>
                           if inference j then fin (snd (recordPassLocked now ts m1)) else fin m1
                       | _ \<Rightarrow> fin m1))"

definition runProbe :: "time \<Rightarrow> probe_job \<Rightarrow> bool \<Rightarrow> probe_result \<Rightarrow> manager \<Rightarrow> manager option" where
  "runProbe now j cancelled r m = (if cancelled then Some (endProbe (jtarget j) m) else applyProbe now j r m)"

end
