(* ===== verification/FailoverInvariant.thy ===== *)
theory FailoverInvariant
  imports FailoverSync
begin

text \<open>
  Every operation of the failover manager, on a well-formed manager and valid chain configurations, returns
  (no index is out of range and no nil pointer is followed) and leaves the manager well formed. The contract
  of an operation is the locale \<open>panic_free_step\<close> of the prelude; the operations interpret it, and a loop of
  operations gets it from there.
\<close>

section \<open>Target transitions\<close>

lemma manager_okI:
  assumes "manager_ok m" and "mchains m' = mchains m" and "mtargets m' = mtargets m" and "applying m' = applying m"
  shows "manager_ok m'"
  using assms by (simp add: manager_ok_def chains_ok_def targets_ok_def)

lemma manager_ok_flush [simp]: "manager_ok (unlockAndFlush m) = manager_ok m"
  by (simp add: manager_ok_def chains_ok_def targets_ok_def)

lemma targets_ok_put: "targets_ok m \<Longrightarrow> targets_ok (put_target ts m)"
  by (auto simp: targets_ok_def gm_get_put split: if_splits)

lemma manager_ok_targets_changed:
  assumes "manager_ok m" and "mchains m' = mchains m" and "targets_ok m'" and "\<not> applying m'"
    and "set (gm_keys (mtargets m)) \<subseteq> set (gm_keys (mtargets m'))"
  shows "manager_ok m'"
proof -
  have "set (ctargets ch) \<subseteq> set (gm_keys (mtargets m'))" if "gm_get (mchains m) n = Some ch" for n ch
    using assms(1,5) that unfolding manager_ok_def by blast
  moreover have "chains_ok m'" using assms(1,2) by (simp add: manager_ok_def chains_ok_def)
  ultimately show ?thesis using assms(2-4) unfolding manager_ok_def by simp
qed

lemma put_target_ok:
  assumes "manager_ok m"
  shows "manager_ok (put_target ts m)"
proof (rule manager_ok_targets_changed [OF assms])
  show "targets_ok (put_target ts m)" using assms targets_ok_put by (simp add: manager_ok_def)
  show "set (gm_keys (mtargets m)) \<subseteq> set (gm_keys (mtargets (put_target ts m)))"
    using gm_put_keys [of "tname ts" ts "mtargets m"] by auto
qed (use assms in \<open>simp_all add: manager_ok_def\<close>)

lemma queuePublishTargetLocked_fields [simp]:
  "mchains (queuePublishTargetLocked ts f m) = mchains m" "mtargets (queuePublishTargetLocked ts f m) = mtargets m"
  "applying (queuePublishTargetLocked ts f m) = applying m" "pins (queuePublishTargetLocked ts f m) = pins m"
  "hasSync (queuePublishTargetLocked ts f m) = hasSync m" "leader (queuePublishTargetLocked ts f m) = leader m"
  "mid (queuePublishTargetLocked ts f m) = mid m"
  by (auto simp: queuePublishTargetLocked_def)

lemma setTargetLocked_fields [simp]:
  "mchains (snd (setTargetLocked now ts st r e m)) = mchains m"
  "applying (snd (setTargetLocked now ts st r e m)) = applying m"
  "pins (snd (setTargetLocked now ts st r e m)) = pins m"
  "hasSync (snd (setTargetLocked now ts st r e m)) = hasSync m"
  "leader (snd (setTargetLocked now ts st r e m)) = leader m"
  "mid (snd (setTargetLocked now ts st r e m)) = mid m"
  by (auto simp: setTargetLocked_def Let_def)

lemma setTargetLocked_target [simp]:
  "tname (fst (setTargetLocked now ts st r e m)) = tname ts"
  "tstate (fst (setTargetLocked now ts st r e m)) = st"
  "params (fst (setTargetLocked now ts st r e m)) = params ts"
  "tkind (fst (setTargetLocked now ts st r e m)) = tkind ts"
  "twarm (fst (setTargetLocked now ts st r e m)) = twarm ts"
  "serving (fst (setTargetLocked now ts st r e m)) = serving ts"
  "lastError (fst (setTargetLocked now ts st r e m)) = lastError ts"
  by (auto simp: setTargetLocked_def Let_def split: target_st.splits)

lemma setTargetLocked_mtargets:
  "mtargets (snd (setTargetLocked now ts st r e m)) =
     (if tstate ts = st then mtargets m else gm_put (tname ts) (fst (setTargetLocked now ts st r e m)) (mtargets m))"
  by (auto simp: setTargetLocked_def Let_def split: target_st.splits)

lemma setTargetLocked_put:
  "setTargetLocked now ts st r e (put_target ts m) = (ts', m') \<Longrightarrow> mtargets m' = gm_put (tname ts) ts' (mtargets m)"
  using setTargetLocked_mtargets [of now ts st r e "put_target ts m"]
  by (auto simp: setTargetLocked_def Let_def gm_put_put split: if_splits)

lemma setTargetLocked_ok: "manager_ok m \<Longrightarrow> manager_ok (snd (setTargetLocked now ts st r e m))"
  using manager_okI [OF put_target_ok [of m "fst (setTargetLocked now ts st r e m)"], of "snd (setTargetLocked now ts st r e m)"]
  by (cases "tstate ts = st") (auto simp: setTargetLocked_mtargets, simp add: setTargetLocked_def)

lemma setTargetLocked_targets_ok: "targets_ok m \<Longrightarrow> targets_ok (snd (setTargetLocked now ts st r e m))"
  using targets_ok_put [of m "fst (setTargetLocked now ts st r e m)"]
  by (auto simp: targets_ok_def setTargetLocked_mtargets)

lemma recordFailureLocked_fields [simp]:
  "mchains (snd (recordFailureLocked now ts msg m)) = mchains m"
  "applying (snd (recordFailureLocked now ts msg m)) = applying m"
  "pins (snd (recordFailureLocked now ts msg m)) = pins m"
  "hasSync (snd (recordFailureLocked now ts msg m)) = hasSync m"
  "leader (snd (recordFailureLocked now ts msg m)) = leader m"
  by (auto simp: recordFailureLocked_def Let_def split: target_st.splits)

lemma recordFailureLocked_ok: "manager_ok m \<Longrightarrow> manager_ok (snd (recordFailureLocked now ts msg m))"
  by (auto simp: recordFailureLocked_def Let_def setTargetLocked_ok put_target_ok split: target_st.splits)

lemma count_pass_fields [simp]:
  "mchains (snd (count_pass now ts m)) = mchains m" "applying (snd (count_pass now ts m)) = applying m"
  "pins (snd (count_pass now ts m)) = pins m" "hasSync (snd (count_pass now ts m)) = hasSync m"
  "leader (snd (count_pass now ts m)) = leader m"
  by (simp_all add: count_pass_def Let_def)

lemma count_pass_ok: "manager_ok m \<Longrightarrow> manager_ok (snd (count_pass now ts m))"
  by (simp add: count_pass_def Let_def setTargetLocked_ok put_target_ok)

lemma recordPassLocked_fields [simp]:
  "mchains (snd (recordPassLocked now ts m)) = mchains m"
  "applying (snd (recordPassLocked now ts m)) = applying m"
  "pins (snd (recordPassLocked now ts m)) = pins m"
  "hasSync (snd (recordPassLocked now ts m)) = hasSync m"
  "leader (snd (recordPassLocked now ts m)) = leader m"
  by (simp_all add: recordPassLocked_def Let_def split: target_st.splits)

lemma recordPassLocked_ok: "manager_ok m \<Longrightarrow> manager_ok (snd (recordPassLocked now ts m))"
  by (cases "tstate ts")
     (auto simp: recordPassLocked_def Let_def intro: setTargetLocked_ok put_target_ok count_pass_ok)

section \<open>Chains\<close>

lemma manager_ok_chains: "manager_ok m \<Longrightarrow> chains_ok m"
  by (simp add: manager_ok_def)

text \<open>A change of chains that keeps them well formed and changes the targets of none keeps the manager well formed.\<close>

lemma manager_ok_chains_changed:
  assumes "manager_ok m" and "other_fields m' = other_fields m" and "chains_ok m'"
    and "\<And>n ch'. gm_get (mchains m') n = Some ch' \<Longrightarrow> \<exists>ch. gm_get (mchains m) n = Some ch \<and> ctargets ch' = ctargets ch"
  shows "manager_ok m'"
  unfolding manager_ok_def
proof (intro conjI allI impI)
  show "chains_ok m'" by (rule assms(3))
  show "targets_ok m'" "\<not> applying m'"
    using assms(1) other_fieldsD(3,7) [OF assms(2)] by (simp_all add: manager_ok_def targets_ok_def)
  fix n ch'
  assume "gm_get (mchains m') n = Some ch'"
  from assms(4) [OF this] obtain ch where "gm_get (mchains m) n = Some ch" "ctargets ch' = ctargets ch" by blast
  with assms(1) show "set (ctargets ch') \<subseteq> set (gm_keys (mtargets m'))"
    unfolding manager_ok_def other_fieldsD(3) [OF assms(2)] by auto
qed

lemma recompute_all_ok:
  assumes "manager_ok m"
  shows "\<exists>m'. recompute_all now m = Some m' \<and> manager_ok m' \<and> other_fields m' = other_fields m
    \<and> (\<forall>n. gm_get (mchains m') n = map_option (recomputed now m) (gm_get (mchains m) n))"
proof -
  obtain m' where m': "recompute_all now m = Some m'" "other_fields m' = other_fields m" "chains_ok m'"
      "\<forall>n. gm_get (mchains m') n = map_option (recomputed now m) (gm_get (mchains m) n)"
    using recompute_all_returns [OF manager_ok_chains [OF assms]] by blast
  then have "manager_ok m'" by (intro manager_ok_chains_changed [OF assms]) auto
  with m' show ?thesis by blast
qed

lemma recomputeForLocked_ok:
  assumes "manager_ok m"
  shows "\<exists>m'. recomputeForLocked now t m = Some m' \<and> manager_ok m' \<and> other_fields m' = other_fields m
    \<and> (\<forall>n. gm_get (mchains m') n =
         map_option (\<lambda>ch. if t \<in> set (ctargets ch) then recomputed now m ch else ch) (gm_get (mchains m) n))"
proof -
  obtain m' where m': "recomputeForLocked now t m = Some m'" "other_fields m' = other_fields m" "chains_ok m'"
      "\<forall>n. gm_get (mchains m') n =
         map_option (\<lambda>ch. if t \<in> set (ctargets ch) then recomputed now m ch else ch) (gm_get (mchains m) n)"
    using recomputeForLocked_returns [OF manager_ok_chains [OF assms]] by blast
  then have "manager_ok m'" by (intro manager_ok_chains_changed [OF assms]) (auto split: if_splits)
  with m' show ?thesis by blast
qed

lemma recomputeLocked_ok:
  assumes "manager_ok m" and "gm_get (mchains m) n = Some ch"
  shows "\<exists>m'. recomputeLocked now n r m = Some m' \<and> manager_ok m' \<and> other_fields m' = other_fields m
    \<and> mchains m' = gm_put n (recomputed now m ch) (mchains m)"
proof -
  obtain m' where m': "recomputeLocked now n r m = Some m'" "other_fields m' = other_fields m"
      "mchains m' = gm_put n (recomputed now m ch) (mchains m)"
    using recomputeLocked_returns [OF manager_ok_chains [OF assms(1)] assms(2)] by blast
  have "chain_wf n (recomputed now m ch)"
    using assms by (auto simp: manager_ok_def chains_ok_def intro: chain_wf_recomputed)
  then have "chains_ok m'" using m'(3) assms by (auto simp: manager_ok_def chains_ok_def gm_get_put)
  then have "manager_ok m'"
    using m' assms by (intro manager_ok_chains_changed [OF assms(1)]) (auto simp: gm_get_put split: if_splits)
  with m' show ?thesis by blast
qed

lemma put_chain_ok:
  assumes "manager_ok m" and "chain_wf (cname ch) ch" and "set (ctargets ch) \<subseteq> set (gm_keys (mtargets m))"
  shows "manager_ok (put_chain ch m)"
  using assms by (auto simp: manager_ok_def chains_ok_def targets_ok_def gm_get_put split: if_splits)

section \<open>Reconciling with the configuration\<close>

definition valid_source :: "config_source \<Rightarrow> bool" where
  "valid_source src \<longleftrightarrow> (\<forall>c \<in> set (GetAllModelsConfigs src). IsFailover c \<longrightarrow> validateFailover c = None)"

lemma sync_target_fields:
  "mchains (snd (sync_target src now f t (cl, m))) = mchains m"
  "applying (snd (sync_target src now f t (cl, m))) = applying m"
  "pins (snd (sync_target src now f t (cl, m))) = pins m"
  "hasSync (snd (sync_target src now f t (cl, m))) = hasSync m"
  "leader (snd (sync_target src now f t (cl, m))) = leader m"
  by (auto simp: sync_target_def Let_def split: option.splits)

lemma sync_target_claimed: "set (fst (sync_target src now f t (cl, m))) = insert (FTModel t) (set cl)"
  by (auto simp: sync_target_def Let_def)

lemma setTargetLocked_keys:
  "set (gm_keys (mtargets m)) \<subseteq> set (gm_keys (mtargets (snd (setTargetLocked now ts st r e m))))"
  using gm_put_keys [of "tname ts" "fst (setTargetLocked now ts st r e m)" "mtargets m"]
  by (auto simp: setTargetLocked_mtargets)

text \<open>Each step from one manager to the next within \<open>sync_target\<close> writes the target under its own name.\<close>

lemma sync_target_targets_ok:
  assumes ok: "targets_ok m"
  shows "targets_ok (snd (sync_target src now f t (cl, m)))
    \<and> insert (FTModel t) (set (gm_keys (mtargets m))) \<subseteq> set (gm_keys (mtargets (snd (sync_target src now f t (cl, m)))))"
proof -
  define ts where "ts = (case gm_get (mtargets m) (FTModel t) of Some ts \<Rightarrow> ts | None \<Rightarrow> new_target (FTModel t))"
  define ts1 where "ts1 = (if FTModel t \<in> set cl then ts else ts\<lparr>params := f, twarm := False\<rparr>)"
  define m1 where "m1 = put_target ts1 m"
  have name: "tname ts1 = FTModel t"
    using ok by (auto simp: ts1_def ts_def targets_ok_def new_target_def split: option.splits)
  have m1: "targets_ok m1" "insert (FTModel t) (set (gm_keys (mtargets m))) \<subseteq> set (gm_keys (mtargets m1))"
    using targets_ok_put [OF ok] gm_put_keys [of "tname ts1" ts1 "mtargets m"] name by (auto simp: m1_def)
  have set_ok: "targets_ok (snd (setTargetLocked now x st r e m'))
      \<and> insert (FTModel t) (set (gm_keys (mtargets m))) \<subseteq> set (gm_keys (mtargets (snd (setTargetLocked now x st r e m'))))"
    if "targets_ok m'" "insert (FTModel t) (set (gm_keys (mtargets m))) \<subseteq> set (gm_keys (mtargets m'))" for x st r e m'
    using setTargetLocked_targets_ok [OF that(1)] setTargetLocked_keys that(2) by (meson subset_trans)
  have put_ok: "targets_ok (put_target x m1)
      \<and> insert (FTModel t) (set (gm_keys (mtargets m))) \<subseteq> set (gm_keys (mtargets (put_target x m1)))" for x
    using targets_ok_put [OF m1(1)] m1(2) gm_put_keys [of "tname x" x "mtargets m1"] by auto
  show ?thesis
  proof (cases "lookupTarget src (FTModel t)")
    case None
    then have eq: "snd (sync_target src now f t (cl, m)) =
        snd (setTargetLocked now ts1 StateMissing ReasonMissing ''target config not found'' m1)"
      unfolding sync_target_def Let_def m1_def ts1_def ts_def by simp
    show ?thesis unfolding eq by (rule set_ok [OF m1])
  next
    case (Some tc)
    define ts2 where "ts2 = ts1\<lparr>tkind := KindOf tc, serving := Name tc,
        twarm := (if FTWarm t \<and> KindOf tc = KindLocal then True else twarm ts1)\<rparr>"
    have eq: "snd (sync_target src now f t (cl, m)) =
        (if IsFailover tc then snd (setTargetLocked now ts1 StateMissing ReasonMissing ''target is itself a failover chain'' m1)
         else if tstate ts2 = StateMissing then snd (setTargetLocked now ts2 StateHealthy ReasonRecovery '''' (put_target ts2 m1))
         else put_target ts2 m1)"
      using Some unfolding sync_target_def Let_def ts2_def m1_def ts1_def ts_def by simp
    show ?thesis
      unfolding eq using set_ok [OF m1] put_ok [of ts2] set_ok [of "put_target ts2 m1"] by simp
  qed
qed

lemma sync_targets_fold:
  assumes "targets_ok m" and "set cl \<subseteq> set (gm_keys (mtargets m))"
    and "fold (sync_target src now f) ts (cl, m) = (cl', m')"
  shows "targets_ok m' \<and> mchains m' = mchains m \<and> applying m' = applying m \<and> pins m' = pins m
    \<and> hasSync m' = hasSync m \<and> leader m' = leader m
    \<and> set cl' = set cl \<union> FTModel ` set ts \<and> set cl' \<subseteq> set (gm_keys (mtargets m'))"
  using assms
proof (induction ts arbitrary: cl m)
  case (Cons t ts)
  let ?cl = "fst (sync_target src now f t (cl, m))" and ?m = "snd (sync_target src now f t (cl, m))"
  have "targets_ok ?m" and k: "insert (FTModel t) (set (gm_keys (mtargets m))) \<subseteq> set (gm_keys (mtargets ?m))"
    using sync_target_targets_ok [OF Cons.prems(1)] by blast+
  moreover have "set ?cl \<subseteq> set (gm_keys (mtargets ?m))"
    using k Cons.prems(2) by (auto simp: sync_target_claimed simp del: set_map)
  moreover have "fold (sync_target src now f) ts (?cl, ?m) = (cl', m')" using Cons.prems(3) by simp
  ultimately show ?case
    using Cons.IH [of ?m ?cl] by (auto simp: sync_target_fields sync_target_claimed)
qed auto

definition sync_inv :: "string list \<Rightarrow> string list \<Rightarrow> manager \<Rightarrow> bool" where
  "sync_inv seen_chains cl m \<longleftrightarrow> chains_ok m \<and> targets_ok m \<and> \<not> applying m
     \<and> set cl \<subseteq> set (gm_keys (mtargets m))
     \<and> (\<forall>n ch. n \<in> set seen_chains \<and> gm_get (mchains m) n = Some ch \<longrightarrow> set (ctargets ch) \<subseteq> set cl)"

lemma rebuild_chain_get:
  "gm_get (mchains (rebuild_chain now n names m)) k =
     (if k = n then Some \<lparr>cname = n, ccfg = zero_failover, ctargets = names, active = 0, activeSince = now,
        pinned = (if gm_get0 '''' (pins m) n \<in> set names then gm_get0 '''' (pins m) n else ''''),
        cstate = ChainPrimary, adopted = False\<rparr> else gm_get (mchains m) k)"
  by (auto simp: rebuild_chain_def Let_def gm_get_put)

lemma rebuild_chain_fields [simp]:
  "mtargets (rebuild_chain now n names m) = mtargets m" "applying (rebuild_chain now n names m) = applying m"
  "hasSync (rebuild_chain now n names m) = hasSync m" "leader (rebuild_chain now n names m) = leader m"
  "distinct (gm_keys (mchains m)) \<Longrightarrow> distinct (gm_keys (mchains (rebuild_chain now n names m)))"
  by (auto simp: rebuild_chain_def Let_def)

definition chain_for :: "time \<Rightarrow> string \<Rightarrow> failover_config \<Rightarrow> manager \<Rightarrow> chain_state" where
  "chain_for now n f m =
     (case gm_get (mchains m) n of
        Some ch \<Rightarrow>
          if ctargets ch = map FTModel (Targets f) then ch\<lparr>ccfg := f\<rparr>
          else \<lparr>cname = n, ccfg = f, ctargets = map FTModel (Targets f), active = 0, activeSince = now,
             pinned = (if gm_get0 '''' (pins m) n \<in> FTModel ` set (Targets f) then gm_get0 '''' (pins m) n else ''''),
             cstate = ChainPrimary, adopted = False\<rparr>
      | None \<Rightarrow> \<lparr>cname = n, ccfg = f, ctargets = map FTModel (Targets f), active = 0, activeSince = now,
             pinned = (if gm_get0 '''' (pins m) n \<in> FTModel ` set (Targets f) then gm_get0 '''' (pins m) n else ''''),
             cstate = ChainPrimary, adopted = False\<rparr>)"

text \<open>The chain part of \<open>sync_chain\<close>: the chain of the configuration is there afterwards, with its targets.\<close>

lemma sync_chain_step:
  assumes ok: "chains_ok m" and f: "Failover c = Some f" and ne: "Targets f \<noteq> []"
    and di: "distinct (map FTModel (Targets f))"
  shows "\<exists>m2. sync_chain src now c (sc, cl, m) =
      (let (cl', m3) = fold (sync_target src now f) (Targets f) (cl, m2) in (Name c # sc, cl', m3))
    \<and> chains_ok m2 \<and> mtargets m2 = mtargets m \<and> applying m2 = applying m \<and> hasSync m2 = hasSync m \<and> leader m2 = leader m
    \<and> (\<forall>k. gm_get (mchains m2) k = (if k = Name c then Some (chain_for now (Name c) f m) else gm_get (mchains m) k))"
proof -
  let ?names = "map FTModel (Targets f)"
  define m1 where "m1 = (case gm_get (mchains m) (Name c) of
      Some ch \<Rightarrow> if ctargets ch = ?names then m else rebuild_chain now (Name c) ?names m
    | None \<Rightarrow> rebuild_chain now (Name c) ?names m)"
  have m1: "mtargets m1 = mtargets m" "applying m1 = applying m" "hasSync m1 = hasSync m" "leader m1 = leader m"
    "distinct (gm_keys (mchains m1))"
    using ok by (auto simp: m1_def chains_ok_def split: option.splits)
  obtain ch where ch: "gm_get (mchains m1) (Name c) = Some ch"
      and chf: "ch\<lparr>ccfg := f\<rparr> = chain_for now (Name c) f m" and wf: "chain_wf (Name c) (ch\<lparr>ccfg := f\<rparr>)"
  proof (cases "\<exists>ch. gm_get (mchains m) (Name c) = Some ch \<and> ctargets ch = ?names")
    case True
    then obtain ch where ch: "gm_get (mchains m) (Name c) = Some ch" "ctargets ch = ?names" by blast
    moreover have "chain_wf (Name c) ch" using ok ch(1) unfolding chains_ok_def by blast
    ultimately show thesis by (intro that [of ch]) (auto simp: m1_def chain_for_def chain_wf_def)
  next
    case False
    then have "m1 = rebuild_chain now (Name c) ?names m" by (auto simp: m1_def split: option.splits)
    with False ne di show thesis
      by (intro that) (auto simp: rebuild_chain_get chain_for_def chain_wf_def split: option.splits)
  qed
  have other: "gm_get (mchains m1) k = gm_get (mchains m) k" if "k \<noteq> Name c" for k
    using that by (auto simp: m1_def rebuild_chain_get split: option.splits)
  let ?m2 = "put_chain (ch\<lparr>ccfg := f\<rparr>) m1"
  have name: "cname ch = Name c" using wf by (simp add: chain_wf_def)
  have get: "gm_get (mchains ?m2) k = (if k = Name c then Some (chain_for now (Name c) f m) else gm_get (mchains m) k)" for k
  proof -
    have "cname (ch\<lparr>ccfg := f\<rparr>) = Name c" using name by simp
    then show ?thesis using other [of k] unfolding put_chain_fields chf by (simp add: gm_get_put)
  qed
  moreover have "chains_ok ?m2"
    unfolding chains_ok_def get using m1(5) ok wf chf by (auto simp: chains_ok_def)
  moreover have "sync_chain src now c (sc, cl, m) =
      (let (cl', m3) = fold (sync_target src now f) (Targets f) (cl, ?m2) in (Name c # sc, cl', m3))"
    unfolding sync_chain_def Let_def prod.case f option.case m1_def [symmetric] ch ..
  ultimately show ?thesis using m1 by (intro exI [of _ ?m2]) simp
qed

lemma chain_for_ctargets [simp]: "ctargets (chain_for now n f m) = map FTModel (Targets f)" "ccfg (chain_for now n f m) = f"
  by (auto simp: chain_for_def split: option.splits)

lemma sync_chain_inv:
  assumes inv: "sync_inv sc cl m" and val: "IsFailover c \<longrightarrow> validateFailover c = None"
    and run: "sync_chain src now c (sc, cl, m) = (sc', cl', m')"
  shows "sync_inv sc' cl' m'"
proof (cases "Failover c")
  case None
  with inv run show ?thesis by (simp add: sync_chain_def)
next
  case (Some f)
  have "Targets f \<noteq> []" "distinct (map FTModel (Targets f))"
    using validateFailover_targets(1,2) [of c f] val Some by (auto simp: IsFailover_def)
  with inv Some obtain m2 where
    m2: "sync_chain src now c (sc, cl, m) =
        (let (cl', m3) = fold (sync_target src now f) (Targets f) (cl, m2) in (Name c # sc, cl', m3))"
      "chains_ok m2" "mtargets m2 = mtargets m" "applying m2 = applying m"
      "\<forall>k. gm_get (mchains m2) k = (if k = Name c then Some (chain_for now (Name c) f m) else gm_get (mchains m) k)"
    using sync_chain_step [of m c f src now sc cl] by (auto simp: sync_inv_def)
  obtain cl3 m3 where fd: "fold (sync_target src now f) (Targets f) (cl, m2) = (cl3, m3)" by fastforce
  have eq: "sc' = Name c # sc" "cl' = cl3" "m' = m3" using run m2(1) fd by auto
  from inv m2 have "targets_ok m2" "set cl \<subseteq> set (gm_keys (mtargets m2))"
    by (simp_all add: sync_inv_def targets_ok_def)
  from sync_targets_fold [OF this fd]
  have f3: "targets_ok m3" "mchains m3 = mchains m2" "applying m3 = applying m2"
    "set cl3 = set cl \<union> FTModel ` set (Targets f)" "set cl3 \<subseteq> set (gm_keys (mtargets m3))" by auto
  have "set (ctargets ch) \<subseteq> set cl3" if "n \<in> set (Name c # sc)" "gm_get (mchains m2) n = Some ch" for n ch
  proof (cases "n = Name c")
    case True
    with that(2) m2(5) f3(4) show ?thesis by auto
  next
    case False
    with that m2(5) inv have "set (ctargets ch) \<subseteq> set cl" by (auto simp: sync_inv_def)
    with f3(4) show ?thesis by blast
  qed
  moreover have "chains_ok m3" using m2(2) f3(2) by (simp add: chains_ok_def)
  moreover have "\<not> applying m3" using f3(3) m2(4) inv by (simp add: sync_inv_def)
  ultimately show ?thesis
    unfolding eq sync_inv_def using f3(1,5) unfolding f3(2) by blast
qed

lemma gm_get_filter_key: "gm_get (filter (\<lambda>(n, v). P n) xs) k = (if P k then gm_get xs k else None)"
  by (induction xs) auto

lemma distinct_filter_keys: "distinct (gm_keys xs) \<Longrightarrow> distinct (gm_keys (filter P xs))"
  by (simp add: distinct_map_filter)

lemma sync_chains_fold:
  assumes "sync_inv sc cl m" and "\<forall>c \<in> set cs. IsFailover c \<longrightarrow> validateFailover c = None"
    and "fold (sync_chain src now) cs (sc, cl, m) = (sc', cl', m')"
  shows "sync_inv sc' cl' m'"
  using assms
proof (induction cs arbitrary: sc cl m)
  case (Cons c cs)
  obtain sc1 cl1 m1 where s: "sync_chain src now c (sc, cl, m) = (sc1, cl1, m1)" by (metis prod_cases3)
  have "IsFailover c \<longrightarrow> validateFailover c = None" using Cons.prems(2) by simp
  then have "sync_inv sc1 cl1 m1" by (rule sync_chain_inv [OF Cons.prems(1) _ s])
  with Cons.IH [of sc1 cl1 m1] Cons.prems(2,3) s show ?case by simp
qed simp

lemma drop_unseen_ok:
  assumes "sync_inv sc cl m"
  shows "manager_ok (drop_unseen sc cl m)"
proof -
  let ?m = "drop_unseen sc cl m"
  have c: "gm_get (mchains ?m) n = (if n \<in> set sc then gm_get (mchains m) n else None)" for n
    by (simp add: drop_unseen_def gm_get_filter_key)
  have t: "gm_get (mtargets ?m) n = (if n \<in> set cl then gm_get (mtargets m) n else None)" for n
    by (simp add: drop_unseen_def gm_get_filter_key)
  have keys: "set cl \<subseteq> set (gm_keys (mtargets ?m))"
  proof
    fix x
    assume x: "x \<in> set cl"
    then have "x \<in> set (gm_keys (mtargets m))" using assms unfolding sync_inv_def by blast
    then have "gm_get (mtargets ?m) x \<noteq> None" using x t [of x] gm_get_None_iff [of "mtargets m" x] by simp
    then show "x \<in> set (gm_keys (mtargets ?m))" using gm_get_None_iff [of "mtargets ?m" x] by simp
  qed
  have "chains_ok ?m" unfolding chains_ok_def c
    using assms by (auto simp: sync_inv_def chains_ok_def drop_unseen_def distinct_filter_keys)
  moreover have "targets_ok ?m" unfolding targets_ok_def t
    using assms by (auto simp: sync_inv_def targets_ok_def drop_unseen_def distinct_filter_keys)
  moreover have "\<not> applying ?m" using assms by (simp add: sync_inv_def drop_unseen_def)
  moreover have "set (ctargets ch) \<subseteq> set cl" if "gm_get (mchains ?m) n = Some ch" for n ch
    using that assms unfolding sync_inv_def c by (metis option.distinct(1))
  ultimately show ?thesis unfolding manager_ok_def using keys by blast
qed

lemma sync_configs_ok:
  assumes "manager_ok m" and "valid_source src"
  shows "manager_ok (sync_configs src now m)"
proof -
  have "sync_inv [] [] m" using assms(1) by (simp add: manager_ok_def sync_inv_def)
  moreover obtain sc cl m1 where fd: "fold (sync_chain src now) (GetAllModelsConfigs src) ([], [], m) = (sc, cl, m1)"
    by (metis prod_cases3)
  ultimately have "sync_inv sc cl m1"
    using sync_chains_fold assms(2) unfolding valid_source_def by blast
  then have "manager_ok (drop_unseen sc cl m1)" by (rule drop_unseen_ok)
  then show ?thesis
    unfolding sync_configs_def fd by (simp add: Let_def) (erule manager_okI, simp_all)
qed

lemma sync_warm_ok: "manager_ok m \<Longrightarrow> manager_ok (sync_warm m)"
  by (erule manager_okI) (auto simp: sync_warm_def Let_def)

lemma syncLocked_ok:
  assumes "manager_ok m" and "valid_source src"
  shows "\<exists>m'. syncLocked src now m = Some m' \<and> manager_ok m'"
  using recompute_all_ok [OF sync_configs_ok [OF assms], of now now] sync_warm_ok
  by (auto simp: syncLocked_def)

lemma chainLocked_ok:
  assumes "manager_ok m" and "valid_source src"
  shows "\<exists>m'. chainLocked src now n m = Some (gm_get (mchains m') n, m') \<and> manager_ok m'"
  using syncLocked_ok [OF assms, of now] assms(1)
  by (cases "gm_get (mchains m) n") (auto simp: chainLocked_def)

lemma targetLocked_ok:
  assumes "manager_ok m" and "valid_source src"
  shows "\<exists>m'. targetLocked src now n m = Some (gm_get (mtargets m') n, m') \<and> manager_ok m'"
  using syncLocked_ok [OF assms, of now] assms(1)
  by (cases "gm_get (mtargets m) n") (auto simp: targetLocked_def)

section \<open>The operations\<close>

lemma manager_Sync_ok:
  assumes "manager_ok m" and "valid_source src"
  shows "\<exists>m'. manager_Sync src now m = Some m' \<and> manager_ok m'"
proof -
  obtain m1 where "syncLocked src now m = Some m1" "manager_ok m1" using syncLocked_ok [OF assms] by blast
  moreover have "manager_ok (call_onWarm wd (unlockAndFlush (snd (takeWarmLocked m1))))" for wd
    using \<open>manager_ok m1\<close> by (rule manager_okI) (auto simp: call_onWarm_def takeWarmLocked_def)
  ultimately show ?thesis by (auto simp: manager_Sync_def split: prod.splits)
qed

lemma Reevaluate_ok: "manager_ok m \<Longrightarrow> \<exists>m'. Reevaluate now m = Some m' \<and> manager_ok m'"
  using recompute_all_ok [of m now] by (auto simp: Reevaluate_def)

lemma recompute_flush_ok:
  "manager_ok m \<Longrightarrow> \<exists>m'. recompute_flush now t m = Some m' \<and> manager_ok m'"
  using recomputeForLocked_ok [of m now t] by (auto simp: recompute_flush_def)

lemma ReportFailure_ok:
  assumes "manager_ok m" and "valid_source src"
  shows "\<exists>m'. ReportFailure src now t msg m = Some m' \<and> manager_ok m'"
proof -
  obtain m1 where m1: "targetLocked src now t m = Some (gm_get (mtargets m1) t, m1)" "manager_ok m1"
    using targetLocked_ok [OF assms] by blast
  then show ?thesis
    using recompute_flush_ok [OF recordFailureLocked_ok [OF m1(2)]]
    by (cases "gm_get (mtargets m1) t") (auto simp: ReportFailure_def)
qed

lemma ReportSuccess_ok:
  assumes "manager_ok m" and "valid_source src"
  shows "\<exists>m'. ReportSuccess src now t m = Some m' \<and> manager_ok m'"
proof -
  obtain m1 where m1: "targetLocked src now t m = Some (gm_get (mtargets m1) t, m1)" "manager_ok m1"
    using targetLocked_ok [OF assms] by blast
  then show ?thesis
    using recompute_flush_ok [OF recordPassLocked_ok [OF put_target_ok [OF m1(2)]]]
    by (cases "gm_get (mtargets m1) t") (auto simp: ReportSuccess_def Let_def)
qed

lemma chain_of_ok:
  assumes "manager_ok m" and "gm_get (mchains m) n = Some ch"
  shows "chain_wf n ch" and "set (ctargets ch) \<subseteq> set (gm_keys (mtargets m))"
  using assms unfolding manager_ok_def chains_ok_def by blast+

lemma set_chain_pin_ok:
  assumes "manager_ok m" and "gm_get (mchains m) n = Some ch" and "t = '''' \<or> t \<in> set (ctargets ch)"
  shows "\<exists>m'. set_chain_pin now ch t m = Some m' \<and> manager_ok m' \<and> pins m' = pins m \<and> hasSync m' = hasSync m
    \<and> mchains m' = gm_put n (recomputed now m (ch\<lparr>pinned := t\<rparr>)) (mchains m)"
proof -
  let ?ch = "ch\<lparr>pinned := t\<rparr>" and ?m = "put_chain (ch\<lparr>pinned := t\<rparr>) m"
  have wf: "chain_wf n ?ch" and nm: "cname ch = n"
    using chain_of_ok(1) [OF assms(1,2)] assms(3) by (auto simp: chain_wf_def)
  have ok: "manager_ok ?m"
    using put_chain_ok [OF assms(1), of ?ch] wf nm chain_of_ok(2) [OF assms(1,2)] by simp
  have "gm_get (mchains ?m) n = Some ?ch" using nm by (simp add: gm_get_put)
  from recomputeLocked_ok [OF ok this, of now ReasonManual] obtain m' where
    m': "recomputeLocked now n ReasonManual ?m = Some m'" "manager_ok m'" "other_fields m' = other_fields ?m"
      "mchains m' = gm_put n (recomputed now ?m ?ch) (mchains ?m)" by blast
  moreover have "recomputed now ?m ?ch = recomputed now m ?ch"
    by (rule recomputed_cong) simp
  ultimately show ?thesis
    using nm other_fieldsD [OF m'(3)] by (auto simp: set_chain_pin_def gm_put_put)
qed

lemma pins_ok [simp]: "manager_ok (m\<lparr>pins := p\<rparr>) = manager_ok m"
  by (simp add: manager_ok_def chains_ok_def targets_ok_def)

lemma ApplyPin_ok:
  assumes "manager_ok m" and "valid_source src"
  shows "\<exists>m'. ApplyPin src now n t m = Some m' \<and> manager_ok m'"
proof -
  define m0 where "m0 = (if t = '''' then m\<lparr>pins := gm_del n (pins m)\<rparr> else m\<lparr>pins := gm_put n t (pins m)\<rparr>)"
  have "manager_ok m0" using assms(1) by (simp add: m0_def)
  then obtain m1 where m1: "chainLocked src now n m0 = Some (gm_get (mchains m1) n, m1)" "manager_ok m1"
    using chainLocked_ok assms(2) by blast
  show ?thesis
  proof (cases "gm_get (mchains m1) n")
    case None
    with m1 show ?thesis by (simp add: ApplyPin_def Let_def m0_def [symmetric])
  next
    case (Some ch)
    with m1 set_chain_pin_ok [OF m1(2) Some, of t now] show ?thesis
      unfolding ApplyPin_def Let_def m0_def [symmetric] by auto
  qed
qed

lemma rollbackPin_ok:
  assumes "manager_ok m" and "valid_source src"
  shows "\<exists>m'. rollbackPin src now n a p m = Some m' \<and> manager_ok m'"
  using ApplyPin_ok [OF assms] assms(1) by (auto simp: rollbackPin_def)

lemma Pin_ok:
  assumes "manager_ok m" and "valid_source src"
  shows "\<exists>r m'. Pin src now shared n t m = Some (r, m') \<and> manager_ok m'"
proof -
  obtain m1 where m1: "chainLocked src now n m = Some (gm_get (mchains m1) n, m1)" "manager_ok m1"
    using chainLocked_ok [OF assms] by blast
  show ?thesis
  proof (cases "gm_get (mchains m1) n")
    case None
    with m1 show ?thesis by (simp add: Pin_def)
  next
    case (Some ch)
    show ?thesis
    proof (cases "t \<in> set (ctargets ch)")
      case False
      with m1 Some show ?thesis by (simp add: Pin_def)
    next
      case True
      let ?mp = "m1\<lparr>pins := gm_put n t (pins m1)\<rparr>"
      have "manager_ok ?mp" "gm_get (mchains ?mp) n = Some ch" using m1(2) Some by simp_all
      from set_chain_pin_ok [OF this, of t now] True obtain m2 where
        m2: "set_chain_pin now ch t ?mp = Some m2" "manager_ok m2" by blast
      moreover obtain m4 where "rollbackPin src now n t (gm_get0 '''' (pins m1) n) (unlockAndFlush m2) = Some m4" "manager_ok m4"
        using rollbackPin_ok [OF iffD2 [OF manager_ok_flush m2(2)] assms(2)] by blast
      ultimately show ?thesis using m1 Some True by (simp add: Pin_def Let_def split: option.splits)
    qed
  qed
qed

lemma Unpin_ok:
  assumes "manager_ok m" and "valid_source src"
  shows "\<exists>r m'. Unpin src now shared n m = Some (r, m') \<and> manager_ok m'"
proof -
  obtain m1 where m1: "chainLocked src now n m = Some (gm_get (mchains m1) n, m1)" "manager_ok m1"
    using chainLocked_ok [OF assms] by blast
  show ?thesis
  proof (cases "gm_get (mchains m1) n")
    case None
    with m1 show ?thesis by (simp add: Unpin_def)
  next
    case (Some ch)
    let ?mp = "m1\<lparr>pins := gm_del n (pins m1)\<rparr>"
    have "manager_ok ?mp" "gm_get (mchains ?mp) n = Some ch" using m1(2) Some by simp_all
    from set_chain_pin_ok [OF this, of "''''" now] obtain m2 where
      m2: "set_chain_pin now ch '''' ?mp = Some m2" "manager_ok m2" by blast
    moreover obtain m4 where "rollbackPin src now n '''' (gm_get0 '''' (pins m1) n) (unlockAndFlush m2) = Some m4" "manager_ok m4"
      using rollbackPin_ok [OF iffD2 [OF manager_ok_flush m2(2)] assms(2)] by blast
    ultimately show ?thesis using m1 Some by (simp add: Unpin_def Let_def split: option.splits)
  qed
qed

text \<open>
  An attempt list: what \<open>Plan\<close> gives a request on a well-formed manager. It is not empty and its targets are
  different targets of the chain.
\<close>

lemma active_at: "chain_wf n ch \<Longrightarrow> slice_at (ctargets ch) (active ch) = Some (ctargets ch ! nat (active ch))"
  by (simp add: chain_wf_def slice_at_def)

lemma usable_flush: "usable (unlockAndFlush m) = usable m"
  by (simp add: usable_def fun_eq_iff)

lemma Plan_ok:
  assumes "manager_ok m" and "valid_source src"
  shows "\<exists>m'. manager_ok m' \<and>
    (Plan src now n m = Some (Inl (ErrChainNotFound n), m') \<and> gm_get (mchains m') n = None
     \<or> (\<exists>ch ts. gm_get (mchains m') n = Some ch \<and> plan_targets ch m' = Some ts
          \<and> (if ts = [] then Plan src now n m = Some (Inl (ErrNoTarget n), m')
             else Plan src now n m = Some (Inr \<lparr>achain = n, aprimary = hd (ctargets ch),
                    adegraded = (cstate ch = ChainDegraded), atargets = ts, ai = 0\<rparr>, m'))))"
proof -
  obtain m1 where m1: "chainLocked src now n m = Some (gm_get (mchains m1) n, m1)" "manager_ok m1"
    using chainLocked_ok [OF assms] by blast
  show ?thesis
  proof (cases "gm_get (mchains m1) n")
    case None
    with m1 show ?thesis by (intro exI [of _ "unlockAndFlush m1"]) (simp add: Plan_def)
  next
    case (Some ch)
    have wf: "chain_wf n ch" by (rule chain_of_ok(1) [OF m1(2) Some])
    then have hd: "slice_at (ctargets ch) 0 = Some (hd (ctargets ch))" and nm: "cname ch = n"
      by (auto simp: chain_wf_def slice_at_def hd_conv_nth)
    have "\<exists>ts. plan_targets ch m1 = Some ts"
      using active_at [OF wf] by (simp add: plan_targets_def Let_def)
    then obtain ts where ts: "plan_targets ch m1 = Some ts" by blast
    have "plan_targets ch (unlockAndFlush m1) = plan_targets ch m1"
      by (simp only: plan_targets_def usable_flush Let_def)
    with m1 Some hd nm ts show ?thesis
      by (intro exI [of _ "unlockAndFlush m1"]) (simp add: Plan_def)
  qed
qed

text \<open>
  \<open>do_loop\<close> returns for every attempt whose index is in range; it tries the remaining targets in order, stopping
  at the first one that is served or not retried.
\<close>

definition attempt_ok :: "attempt \<Rightarrow> bool" where
  "attempt_ok a \<longleftrightarrow> 0 \<le> ai a \<and> ai a < int (length (atargets a))"

definition remaining :: "attempt \<Rightarrow> string list" where
  "remaining a = drop (nat (ai a)) (atargets a)"

lemma Target_remaining: "attempt_ok a \<Longrightarrow> Target a = Some (hd (remaining a)) \<and> remaining a \<noteq> []"
  by (auto simp: attempt_ok_def Target_def remaining_def slice_at_def hd_drop_conv_nth)

lemma Skip_remaining:
  "attempt_ok a \<Longrightarrow> Skip a = (False, a) \<and> tl (remaining a) = []
     \<or> (\<exists>a1. Skip a = (True, a1) \<and> attempt_ok a1 \<and> remaining a1 = tl (remaining a) \<and> left a1 < left a)"
  by (auto simp: Skip_def attempt_ok_def remaining_def left_def drop_Suc nat_add_distrib tl_drop
      intro: drop_all)

lemma Report_ok:
  assumes "attempt_ok a" and "manager_ok m" and "valid_source src"
  shows "\<exists>m'. Report src now msg a m = Some m' \<and> manager_ok m'"
  using Target_remaining [OF assms(1)] ReportFailure_ok [OF assms(2,3)] by (auto simp: Report_def)

lemma Fail_ok:
  assumes "attempt_ok a" and "manager_ok m" and "valid_source src"
  shows "\<exists>m'. Fail src now msg a m = Some (fst (Skip a), snd (Skip a), m') \<and> manager_ok m'"
proof -
  obtain m' where "Report src now msg a m = Some m'" "manager_ok m'" using Report_ok [OF assms] by blast
  then show ?thesis by (simp add: Fail_def split_beta)
qed

text \<open>What the attempts \<open>ts\<close> of a request over the targets \<open>ts0\<close> look like: a prefix of the
  targets, all but the last of them failed, and the last one settles the result.\<close>

definition attempts_ok ::
  "(string \<Rightarrow> go_error option \<times> bool \<times> bool) \<Rightarrow> string list \<Rightarrow> do_error option \<Rightarrow> string list \<Rightarrow> bool" where
  "attempts_ok fn ts0 r ts \<longleftrightarrow> ts \<noteq> [] \<and> (\<exists>us. ts0 = ts @ us)
     \<and> (r = None \<longleftrightarrow> fst (fn (last ts)) = None)
     \<and> (\<forall>t \<in> set (butlast ts). fst (fn t) \<noteq> None)
     \<and> (\<forall>e. r = Some e \<longrightarrow> (\<exists>g. e = DoCall g \<and> fst (fn (last ts)) = Some g
          \<and> (ts = ts0 \<or> fst (snd (fn (last ts))) \<or> snd (snd (fn (last ts)))
              \<or> \<not> IsRetryable (Some g) 0 \<and> \<not> IsCapabilityGap (Some g))))"

lemma attempts_ok_Cons:
  assumes "attempts_ok fn ts0 r ts" and "fst (fn t) \<noteq> None"
  shows "attempts_ok fn (t # ts0) r (t # ts)"
  using assms by (auto simp: attempts_ok_def)

text \<open>One round of the loop: success, a final failure, or the next target.\<close>

lemma do_loop_step:
  assumes "attempt_ok a" and "manager_ok m" and "valid_source src"
  shows "\<exists>t ts0. remaining a = t # ts0
    \<and> ((\<exists>r m'. do_loop src now fn a m = Some (r, [t], m') \<and> manager_ok m' \<and> attempts_ok fn (t # ts0) r [t])
       \<or> (\<exists>a1 m1. do_loop src now fn a m = map_option (\<lambda>(r, ts, m2). (r, t # ts, m2)) (do_loop src now fn a1 m1)
            \<and> fst (fn t) \<noteq> None \<and> attempt_ok a1 \<and> remaining a1 = ts0 \<and> left a1 < left a \<and> manager_ok m1))"
proof -
  from Target_remaining [OF assms(1)] obtain t ts0 where T: "Target a = Some t" and rem: "remaining a = t # ts0"
    by (metis list.collapse)
  obtain err committed ended where fn: "fn t = (err, committed, ended)" by (metis prod_cases3)
  let ?map = "map_option (\<lambda>(r, ts, m2). (r, t # ts, m2))"
  note loop = do_loop.simps [of src now fn a m]
  have skip: "Skip a = (False, a) \<and> ts0 = []
      \<or> (\<exists>a1. Skip a = (True, a1) \<and> attempt_ok a1 \<and> remaining a1 = ts0 \<and> left a1 < left a)"
    using Skip_remaining [OF assms(1)] rem by auto
  show ?thesis
  proof (cases err)
    case None
    then obtain m' where "Succeed src now a m = Some m'" "manager_ok m'"
      using ReportSuccess_ok [OF assms(2,3)] T by (auto simp: Succeed_def)
    then show ?thesis using T fn None rem by (simp add: loop attempts_ok_def)
  next
    case (Some e)
    obtain m1 where f: "Fail src now (errText e) a m = Some (fst (Skip a), snd (Skip a), m1)" "manager_ok m1"
      using Fail_ok [OF assms] by blast
    obtain m2 where r: "Report src now (errText e) a m = Some m2" "manager_ok m2"
      using Report_ok [OF assms] by blast
    show ?thesis
    proof (cases "committed \<or> \<not> IsCapabilityGap (Some e) \<and> (ended \<or> \<not> IsRetryable (Some e) 0)")
      case True
      then show ?thesis using T fn Some rem r assms(2) by (auto simp: loop attempts_ok_def)
    next
      case False
      from skip show ?thesis
      proof (elim disjE exE conjE)
        assume "Skip a = (False, a)" "ts0 = []"
        with False show ?thesis using T fn Some rem f assms(2) by (auto simp: loop attempts_ok_def)
      next
        fix a1 assume s: "Skip a = (True, a1)" "attempt_ok a1" "remaining a1 = ts0" "left a1 < left a"
        with False have "do_loop src now fn a m = ?map (do_loop src now fn a1 m)
            \<or> do_loop src now fn a m = ?map (do_loop src now fn a1 m1)"
          using T fn Some f by (auto simp: loop)
        with s Some fn rem f(2) assms(2) show ?thesis by auto
      qed
    qed
  qed
qed

lemma do_loop_attempts:
  assumes "attempt_ok a" and "manager_ok m" and "valid_source src"
  shows "\<exists>r ts m'. do_loop src now fn a m = Some (r, ts, m') \<and> manager_ok m' \<and> attempts_ok fn (remaining a) r ts"
  using assms
proof (induction "left a" arbitrary: a m rule: less_induct)
  case less
  from do_loop_step [OF less.prems, of now fn] obtain t ts0 where rem: "remaining a = t # ts0"
    and "(\<exists>r m'. do_loop src now fn a m = Some (r, [t], m') \<and> manager_ok m' \<and> attempts_ok fn (t # ts0) r [t])
       \<or> (\<exists>a1 m1. do_loop src now fn a m = map_option (\<lambda>(r, ts, m2). (r, t # ts, m2)) (do_loop src now fn a1 m1)
            \<and> fst (fn t) \<noteq> None \<and> attempt_ok a1 \<and> remaining a1 = ts0 \<and> left a1 < left a \<and> manager_ok m1)" by blast
  then show ?case
  proof (elim disjE exE conjE)
    fix a1 m1
    assume a1: "left a1 < left a" "attempt_ok a1" "manager_ok m1" "remaining a1 = ts0" "fst (fn t) \<noteq> None"
      and d: "do_loop src now fn a m = map_option (\<lambda>(r, ts, m2). (r, t # ts, m2)) (do_loop src now fn a1 m1)"
    from less.hyps [OF a1(1-3) less.prems(3)] attempts_ok_Cons [where fn = fn, OF _ a1(5)] a1(4) d rem
    show ?case by fastforce
  qed (simp add: rem)
qed

lemma do_loop_ok:
  assumes "attempt_ok a" and "manager_ok m" and "valid_source src"
  shows "\<exists>r ts m'. do_loop src now fn a m = Some (r, ts, m') \<and> manager_ok m' \<and> ts \<noteq> []
    \<and> (\<exists>us. remaining a = ts @ us) \<and> (r = None \<longleftrightarrow> fst (fn (last ts)) = None)
    \<and> (\<forall>t \<in> set (butlast ts). fst (fn t) \<noteq> None)
    \<and> (\<forall>e. r = Some e \<longrightarrow> (\<exists>g. e = DoCall g \<and> fst (fn (last ts)) = Some g
         \<and> (ts = remaining a \<or> fst (snd (fn (last ts))) \<or> snd (snd (fn (last ts)))
             \<or> \<not> IsRetryable (Some g) 0 \<and> \<not> IsCapabilityGap (Some g))))"
  using do_loop_attempts [OF assms] unfolding attempts_ok_def .

lemma Do_ok:
  assumes "manager_ok m" and "valid_source src"
  shows "\<exists>r ts m'. Do src now n fn m = Some (r, ts, m') \<and> manager_ok m'"
proof -
  from Plan_ok [OF assms, of now n] obtain m1 where m1: "manager_ok m1"
    and p: "(\<exists>e. Plan src now n m = Some (Inl e, m1)) \<or> (\<exists>a. Plan src now n m = Some (Inr a, m1) \<and> attempt_ok a)"
    by (fastforce simp: attempt_ok_def split: if_splits)
  from p show ?thesis
    using m1 do_loop_ok [OF _ m1 assms(2), of _ now fn] by (auto simp: Do_def) metis
qed

lemma statusLocked_ok: "chain_wf n ch \<Longrightarrow> \<exists>s. statusLocked ch m = Some s"
  using active_at by (auto simp: statusLocked_def)

interpretation status_loop: panic_free_step "\<lambda>out. manager_ok m" "\<lambda>n. gm_get (mchains m) n \<noteq> None" "status_step m" for m
proof
  fix out n
  assume "manager_ok m" and "gm_get (mchains m) n \<noteq> None"
  then obtain ch where ch: "gm_get (mchains m) n = Some ch" by blast
  obtain s where "statusLocked ch m = Some s"
    using statusLocked_ok [OF chain_of_ok(1) [OF \<open>manager_ok m\<close> ch]] by blast
  with ch \<open>manager_ok m\<close> show "\<exists>out'. status_step m n out = Some out' \<and> manager_ok m"
    by (simp add: status_step_def)
qed

lemma Status_ok:
  assumes "manager_ok m" and "valid_source src"
  shows "\<exists>out m'. Status src now m = Some (out, m') \<and> manager_ok m'"
proof -
  obtain m1 where m1: "syncLocked src now m = Some m1" "manager_ok m1" using syncLocked_ok [OF assms] by blast
  have "list_all (\<lambda>n. gm_get (mchains m1) n \<noteq> None) (go_sort (<) (gm_keys (mchains m1)))"
    by (auto simp: list_all_iff gm_get_None_iff simp del: map_of_eq_None_iff not_None_eq)
  from status_loop.loop_returns [OF m1(2) this] m1 show ?thesis by (auto simp: Status_def)
qed

lemma ChainStatus_ok:
  assumes "manager_ok m" and "valid_source src"
  shows "\<exists>out m'. ChainStatus src now n m = Some (out, m') \<and> manager_ok m'"
proof -
  obtain m1 where m1: "chainLocked src now n m = Some (gm_get (mchains m1) n, m1)" "manager_ok m1"
    using chainLocked_ok [OF assms] by blast
  show ?thesis
  proof (cases "gm_get (mchains m1) n")
    case (Some ch)
    with m1 statusLocked_ok [OF chain_of_ok(1) [OF m1(2) Some], of m1] show ?thesis by (auto simp: ChainStatus_def)
  qed (use m1 in \<open>simp add: ChainStatus_def\<close>)
qed

lemma applying_ok: "manager_ok m \<Longrightarrow> manager_ok (put_target ts ((snd (setTargetLocked now x st r e (m\<lparr>applying := True\<rparr>)))\<lparr>applying := False\<rparr>))"
proof -
  assume ok: "manager_ok m"
  let ?x = "snd (setTargetLocked now x st r e (m\<lparr>applying := True\<rparr>))"
  have "targets_ok (m\<lparr>applying := True\<rparr>)" using ok by (simp add: manager_ok_def targets_ok_def)
  from setTargetLocked_targets_ok [OF this] have "targets_ok (?x\<lparr>applying := False\<rparr>)"
    by (simp add: targets_ok_def)
  then have "manager_ok (?x\<lparr>applying := False\<rparr>)"
    using setTargetLocked_keys [of "m\<lparr>applying := True\<rparr>"] by (intro manager_ok_targets_changed [OF ok]) simp_all
  then show ?thesis by (rule put_target_ok)
qed

lemma ApplyTarget_ok:
  assumes "manager_ok m" and "valid_source src"
  shows "\<exists>m'. ApplyTarget src now s m = Some m' \<and> manager_ok m'"
proof -
  obtain m1 where m1: "targetLocked src now (TSTarget s) m = Some (gm_get (mtargets m1) (TSTarget s), m1)" "manager_ok m1"
    using targetLocked_ok [OF assms] by blast
  show ?thesis
    using m1 assms(1) recompute_flush_ok [OF applying_ok [OF m1(2)]]
    by (cases "gm_get (mtargets m1) (TSTarget s)") (simp_all add: ApplyTarget_def split_beta Let_def)
qed

lemma ApplyChain_ok:
  assumes "manager_ok m" and "valid_source src"
  shows "\<exists>m'. ApplyChain src now s m = Some m' \<and> manager_ok m'"
proof -
  obtain m1 where m1: "chainLocked src now (CSChain s) m = Some (gm_get (mchains m1) (CSChain s), m1)" "manager_ok m1"
    using chainLocked_ok [OF assms] by blast
  show ?thesis
  proof (cases "gm_get (mchains m1) (CSChain s)")
    case None
    with m1 assms(1) show ?thesis by (simp add: ApplyChain_def)
  next
    case (Some ch)
    let ?i = "slices_index (ctargets ch) (CSActive s)"
    define ch' where "ch' = ch\<lparr>active := ?i, activeSince := CSActiveSince s, cstate := CSState s, adopted := True\<rparr>"
    have wf: "chain_wf (CSChain s) ch" by (rule chain_of_ok(1) [OF m1(2) Some])
    show ?thesis
    proof (cases "?i < 0")
      case True
      with m1 Some assms(1) show ?thesis by (simp add: ApplyChain_def Let_def)
    next
      case False
      then have "chain_wf (CSChain s) ch'" and i: "0 \<le> ?i" "?i < int (length (ctargets ch))"
        using wf slices_index_range [of "ctargets ch" "CSActive s"] by (auto simp: chain_wf_def ch'_def)
      then have ok: "manager_ok (put_chain ch' m1)"
        using put_chain_ok [OF m1(2), of ch'] chain_of_ok(2) [OF m1(2) Some] by (simp add: chain_wf_def ch'_def)
      obtain e where e: "emit_switch (switch_event now ch (active ch) ?i (CSState s) (CSReason s)) (put_chain ch' m1)
          = Some (emitLocked e (put_chain ch' m1))"
        using emit_switch_Some [OF switch_event_Some [OF wf i]] by blast
      have ok': "manager_ok (emitLocked e (put_chain ch' m1))" using ok by (rule manager_okI) simp_all
      have "ApplyChain src now s m =
          (if leader m then Some (unlockAndFlush m)
           else map_option unlockAndFlush
             (if ?i \<noteq> active ch \<or> CSState s \<noteq> cstate ch
              then emit_switch (switch_event now ch (active ch) ?i (CSState s) (CSReason s)) (put_chain ch' m1)
              else Some (put_chain ch' m1)))"
        using m1(1) False unfolding Some ApplyChain_def Let_def ch'_def by simp
      with ok ok' e assms(1) show ?thesis by simp
    qed
  qed
qed

interpretation unpin_loop: panic_free_step manager_ok "\<lambda>_. valid_source src" "\<lambda>n. ApplyPin src now n ''''" for src now
  by unfold_locales (rule ApplyPin_ok)

interpretation pin_loop: panic_free_step manager_ok "\<lambda>_. valid_source src" "\<lambda>(n, t). ApplyPin src now n t" for src now
  by unfold_locales (auto intro: ApplyPin_ok)

lemma ReconcilePins_ok:
  assumes "manager_ok m" and "valid_source src"
  shows "\<exists>m'. ReconcilePins src now want m = Some m' \<and> manager_ok m'"
proof -
  obtain m1 where m1: "ofold (\<lambda>chain. ApplyPin src now chain '''')
      (filter (\<lambda>chain. gm_get want chain = None) (gm_keys (pins m))) m = Some m1" "manager_ok m1"
    using unpin_loop.loop_returns [OF assms(1)] assms(2) by (force simp: list_all_iff)
  obtain m2 where "ofold (\<lambda>(chain, target). ApplyPin src now chain target) want m1 = Some m2" "manager_ok m2"
    using pin_loop.loop_returns [OF m1(2)] assms(2) by (force simp: list_all_iff)
  with m1 assms(1) show ?thesis by (simp add: ReconcilePins_def)
qed

lemma SetStateSync_ok:
  assumes "manager_ok m" and "valid_source src"
  shows "\<exists>m'. SetStateSync src now s m = Some m' \<and> manager_ok m'"
proof -
  have "manager_ok (m\<lparr>hasSync := b\<rparr>)" for b using assms(1) by (rule manager_okI) simp_all
  then show ?thesis using ReconcilePins_ok [OF _ assms(2)] by (auto simp: SetStateSync_def split: option.splits)
qed

interpretation republish_loop: panic_free_step "\<lambda>m. manager_ok m \<and> mchains m = chs" "\<lambda>n. gm_get chs n \<noteq> None"
  republish_chain for chs
proof
  fix m n
  assume ok: "manager_ok m \<and> mchains m = chs" and "gm_get chs n \<noteq> None"
  then obtain ch where ch: "gm_get (mchains m) n = Some ch" by auto
  have "chain_wf n ch" using chain_of_ok(1) [OF _ ch] ok by blast
  then obtain ps where "queuePublishChainLocked ch ReasonInitial m = Some (m\<lparr>pending := pending m @ ps\<rparr>)"
    using queuePublishChainLocked_Some [of ch] by (auto simp: chain_wf_def)
  moreover have "manager_ok (m\<lparr>pending := p\<rparr>)" for p using conjunct1 [OF ok] by (rule manager_okI) simp_all
  ultimately show "\<exists>m'. republish_chain n m = Some m' \<and> manager_ok m' \<and> mchains m' = chs"
    using ch ok by (simp add: republish_chain_def)
qed

lemma Republish_ok:
  assumes "manager_ok m"
  shows "\<exists>m'. Republish m = Some m' \<and> manager_ok m'"
proof -
  have ok: "manager_ok (m\<lparr>pending := p\<rparr>)" for p using assms by (rule manager_okI) simp_all
  have "list_all (\<lambda>n. gm_get (mchains m) n \<noteq> None) (gm_keys (mchains m))"
    by (auto simp: list_all_iff gm_get_None_iff simp del: map_of_eq_None_iff not_None_eq)
  then have "\<exists>m'. ofold republish_chain (gm_keys (mchains m)) (m\<lparr>pending := p\<rparr>) = Some m'
      \<and> manager_ok m' \<and> mchains m' = mchains m" for p
    using republish_loop.loop_returns [of "m\<lparr>pending := p\<rparr>" "mchains m"] ok by simp
  then obtain m' where "ofold republish_chain (gm_keys (mchains m))
      (m\<lparr>pending := pending m @ map (\<lambda>(n, ts). PublishTarget (targetSnapshotLocked ts m))
                      (filter (\<lambda>(n, ts). tstate ts \<noteq> StateMissing) (mtargets m))\<rparr>) = Some m'" "manager_ok m'"
    by blast
  then show ?thesis using assms by (simp add: Republish_def Let_def)
qed

lemma start_probe_ok: "manager_ok m \<Longrightarrow> manager_ok (snd (start_probe src now ts i (jobs, m)))"
  by (auto simp: start_probe_def put_target_ok split: option.splits)

lemma start_probe_keys:
  "gm_get (mtargets m) (tname ts) \<noteq> None \<Longrightarrow> gm_keys (mtargets (snd (start_probe src now ts i (jobs, m)))) = gm_keys (mtargets m)"
  by (auto simp: start_probe_def update_keys dest: gm_get_in_keys split: option.splits)

lemma target_of_ok: "manager_ok m \<Longrightarrow> gm_get (mtargets m) n = Some ts \<Longrightarrow> tname ts = n"
  unfolding manager_ok_def targets_ok_def by blast

interpretation due_loop: panic_free_step "\<lambda>p. manager_ok (snd p) \<and> gm_keys (mtargets (snd p)) = K" "\<lambda>n. n \<in> set K"
  "due_probe src now" for K src now
proof
  fix p :: "probe_job list \<times> manager" and n
  assume inv: "manager_ok (snd p) \<and> gm_keys (mtargets (snd p)) = K" and n: "n \<in> set K"
  obtain jobs m where p: "p = (jobs, m)" by (cases p)
  have ok: "manager_ok m" and K: "gm_keys (mtargets m) = K" using inv p by auto
  obtain ts where ts: "gm_get (mtargets m) n = Some ts"
    using n K gm_get_None_iff [of "mtargets m" n] by (cases "gm_get (mtargets m) n") auto
  have nm: "tname ts = n" by (rule target_of_ok [OF ok ts])
  have probe: "\<exists>a b. start_probe src now ts i (jobs, m) = (a, b) \<and> manager_ok b \<and> gm_keys (mtargets b) = K" for i
    using start_probe_ok [OF ok, of src now ts i jobs] start_probe_keys [of m ts src now i jobs] ts nm K
    by (cases "start_probe src now ts i (jobs, m)") simp
  obtain m' where m': "recomputeForLocked now n (snd (setTargetLocked now ts StateHealthy ReasonRecovery '''' m)) = Some m'"
      "manager_ok m'" "other_fields m' = other_fields (snd (setTargetLocked now ts StateHealthy ReasonRecovery '''' m))"
    using recomputeForLocked_ok [OF setTargetLocked_ok [OF ok]] by blast
  have "gm_keys (mtargets m') = K"
    using other_fieldsD(3) [OF m'(3)] K gm_get_in_keys [OF ts] nm by (simp add: setTargetLocked_mtargets update_keys)
  then show "\<exists>p'. due_probe src now n p = Some p' \<and> manager_ok (snd p') \<and> gm_keys (mtargets (snd p')) = K"
    using m' ok K ts probe nm unfolding due_probe_def p prod.case
    by (cases "tstate ts") (simp_all add: Let_def)
qed

lemma dueProbes_ok:
  assumes "manager_ok m"
  shows "\<exists>jobs m'. dueProbes src now m = Some (jobs, m') \<and> manager_ok m'"
proof -
  have "list_all (\<lambda>n. n \<in> set (gm_keys (mtargets m))) (gm_keys (mtargets m))" by (simp add: list_all_iff)
  from due_loop.loop_returns [of "([], m)" "gm_keys (mtargets m)", OF _ this, of src now] assms
  obtain p where "ofold (due_probe src now) (gm_keys (mtargets m)) ([], m) = Some p" "manager_ok (snd p)" by auto
  then show ?thesis by (cases p) (simp add: dueProbes_def)
qed

lemma lead_ok:
  assumes "manager_ok m"
  shows "\<exists>jobs m'. lead src now m = Some (jobs, m') \<and> manager_ok m'"
proof -
  define m1 where "m1 = m\<lparr>leader := True, warmPending := (if \<not> leader m then True else warmPending m)\<rparr>"
  define m3 where "m3 = call_onWarm (fst (takeWarmLocked m1)) (unlockAndFlush (snd (takeWarmLocked m1)))"
  have "manager_ok m3"
    using assms by (rule manager_okI) (auto simp: m3_def m1_def call_onWarm_def takeWarmLocked_def)
  then obtain m4 where m4: "(if \<not> leader m then Republish m3 else Some m3) = Some m4" "manager_ok m4"
    using Republish_ok by (cases "leader m") auto
  obtain jobs m5 where m5: "dueProbes src now m4 = Some (jobs, m5)" "manager_ok m5" using dueProbes_ok [OF m4(2)] by blast
  obtain m6 where m6: "Reevaluate now m5 = Some m6" "manager_ok m6" using Reevaluate_ok [OF m5(2)] by blast
  have "lead src now m = Some (jobs, m6)"
    unfolding lead_def Let_def m1_def [symmetric] split_beta m3_def [symmetric] m4(1) using m5 m6 by simp
  with m6 show ?thesis by blast
qed

lemma Tick_ok:
  assumes "manager_ok m" and "valid_source src"
  shows "\<exists>jobs m'. Tick src now granted m = Some (jobs, m') \<and> manager_ok m'"
proof -
  obtain m1 where m1: "manager_Sync src now m = Some m1" "manager_ok m1" using manager_Sync_ok [OF assms] by blast
  have "manager_ok (m1\<lparr>leader := False\<rparr>)" using m1(2) by (rule manager_okI) simp_all
  from Reevaluate_ok [OF this, of now] lead_ok [OF m1(2), of src now] m1 show ?thesis by (auto simp: Tick_def)
qed

lemma run_round_ok:
  assumes "manager_ok m" and "valid_source src"
  shows "\<exists>jobs m'. run_round src now granted want m = Some (jobs, m') \<and> manager_ok m'"
proof -
  obtain jobs m1 where m1: "Tick src now granted m = Some (jobs, m1)" "manager_ok m1" using Tick_ok [OF assms] by blast
  have ok2: "manager_ok (m1\<lparr>ticks := ticks m1 + 1\<rparr>)" using m1(2) by (rule manager_okI) simp_all
  obtain m3 where m3: "ReconcilePins src now want (m1\<lparr>ticks := ticks m1 + 1\<rparr>) = Some m3" "manager_ok m3"
    using ReconcilePins_ok [OF ok2 assms(2)] by blast
  obtain m4 where m4: "Republish m3 = Some m4" "manager_ok m4" using Republish_ok [OF m3(2)] by blast
  show ?thesis using m1 ok2 m3 m4 by (simp add: run_round_def Let_def)
qed

lemma endProbe_ok: "manager_ok m \<Longrightarrow> manager_ok (endProbe t m)"
  by (auto simp: endProbe_def put_target_ok split: option.splits)

lemma applyProbe_ok:
  assumes "manager_ok m"
  shows "\<exists>m'. applyProbe now j r m = Some m' \<and> manager_ok m'"
proof (cases "gm_get (mtargets m) (jtarget j)")
  case None
  with assms show ?thesis by (simp add: applyProbe_def)
next
  case (Some ts0)
  define ts where "ts = ts0\<lparr>probing := False\<rparr>"
  define m1 where "m1 = put_target ts m"
  have ok: "manager_ok m1" unfolding m1_def by (rule put_target_ok [OF assms])
  note fins = recompute_flush_ok [OF ok] recompute_flush_ok [OF put_target_ok [OF ok]]
    recompute_flush_ok [OF setTargetLocked_ok [OF ok]] recompute_flush_ok [OF recordFailureLocked_ok [OF ok]]
    recompute_flush_ok [OF recordPassLocked_ok [OF ok]]
  show ?thesis
    unfolding applyProbe_def Some option.case Let_def ts_def [symmetric] m1_def [symmetric]
    by (cases r; cases "tstate ts") (simp_all add: ok fins)
qed

section \<open>Interleavings\<close>

text \<open>
  One locked section of some goroutine, with what it gets from outside: the configurations and the clock are
  arguments of \<open>step\<close>, so both may change from step to step.
\<close>

datatype manager_op =
    OpPlan string
  | OpFailure string string
  | OpSuccess string
  | OpDo string "string \<Rightarrow> go_error option \<times> bool \<times> bool"
  | OpPin "string option" string string
  | OpUnpin "string option" string
  | OpStatus
  | OpChainStatus string
  | OpSubscribe nat
  | OpCancel int
  | OpClose
  | OpSync
  | OpReevaluate
  | OpApplyTarget target_snapshot
  | OpApplyChain chain_snapshot
  | OpApplyPin string string
  | OpRollbackPin string string string
  | OpSetGate bool
  | OpSetStateSync "(string, string) gomap option"
  | OpRound bool "(string, string) gomap"
  | OpProbe probe_job bool probe_result

fun step :: "config_source \<Rightarrow> time \<Rightarrow> manager_op \<Rightarrow> manager \<Rightarrow> manager option" where
  "step src now (OpPlan n) m = map_option snd (Plan src now n m)"
| "step src now (OpFailure t msg) m = ReportFailure src now t msg m"
| "step src now (OpSuccess t) m = ReportSuccess src now t m"
| "step src now (OpDo n fn) m = map_option (snd \<circ> snd) (Do src now n fn m)"
| "step src now (OpPin e n t) m = map_option snd (Pin src now e n t m)"
| "step src now (OpUnpin e n) m = map_option snd (Unpin src now e n m)"
| "step src now OpStatus m = map_option snd (Status src now m)"
| "step src now (OpChainStatus n) m = map_option snd (ChainStatus src now n m)"
| "step src now (OpSubscribe b) m = Some (snd (Subscribe b m))"
| "step src now (OpCancel i) m = Some (cancel_sub i m)"
| "step src now OpClose m = Some (manager_close m)"
| "step src now OpSync m = manager_Sync src now m"
| "step src now OpReevaluate m = Reevaluate now m"
| "step src now (OpApplyTarget s) m = ApplyTarget src now s m"
| "step src now (OpApplyChain s) m = ApplyChain src now s m"
| "step src now (OpApplyPin n t) m = ApplyPin src now n t m"
| "step src now (OpRollbackPin n a p) m = rollbackPin src now n a p m"
| "step src now (OpSetGate g) m = Some (SetLeaderGate g m)"
| "step src now (OpSetStateSync s) m = SetStateSync src now s m"
| "step src now (OpRound g want) m = map_option snd (run_round src now g want m)"
| "step src now (OpProbe j c r) m = runProbe now j c r m"

lemma step_ok:
  assumes "manager_ok m" and "valid_source src"
  shows "\<exists>m'. step src now op m = Some m' \<and> manager_ok m'"
proof (cases op)
  case (OpPlan n)
  show ?thesis using Plan_ok [OF assms, of now n] OpPlan by (auto split: if_splits)
next
  case (OpDo n fn)
  show ?thesis using Do_ok [OF assms, of now n fn] OpDo by auto
next
  case (OpPin e n t)
  show ?thesis using Pin_ok [OF assms, of now e n t] OpPin by auto
next
  case (OpUnpin e n)
  show ?thesis using Unpin_ok [OF assms, of now e n] OpUnpin by auto
next
  case OpStatus
  show ?thesis using Status_ok [OF assms, of now] OpStatus by auto
next
  case (OpChainStatus n)
  show ?thesis using ChainStatus_ok [OF assms, of now n] OpChainStatus by auto
next
  case (OpRound g want)
  show ?thesis using run_round_ok [OF assms, of now g want] OpRound by auto
next
  case (OpProbe j c r)
  show ?thesis using applyProbe_ok [OF assms(1), of now j r] endProbe_ok [OF assms(1)] OpProbe by (auto simp: runProbe_def)
next
  case (OpSubscribe b)
  have "manager_ok (snd (Subscribe b m))" using assms(1) by (rule manager_okI) (auto simp: Subscribe_def)
  with OpSubscribe show ?thesis by simp
next
  case (OpCancel i)
  have "manager_ok (cancel_sub i m)" using assms(1) by (rule manager_okI) (auto simp: cancel_sub_def)
  with OpCancel show ?thesis by simp
next
  case OpClose
  have "manager_ok (manager_close m)" using assms(1) by (rule manager_okI) (auto simp: manager_close_def)
  with OpClose show ?thesis by simp
next
  case (OpSetGate g)
  have "manager_ok (SetLeaderGate g m)" using assms(1) by (rule manager_okI) (auto simp: SetLeaderGate_def)
  with OpSetGate show ?thesis by simp
qed (use assms in \<open>simp_all add: ReportFailure_ok ReportSuccess_ok manager_Sync_ok Reevaluate_ok ApplyTarget_ok ApplyChain_ok
  ApplyPin_ok rollbackPin_ok SetStateSync_ok\<close>)

interpretation manager_steps: panic_free_step manager_ok "\<lambda>(src, now, op). valid_source src"
  "\<lambda>(src, now, op). step src now op"
  by unfold_locales (auto intro: step_ok)

lemma manager_New_ok: "manager_ok (manager_New uid p w g)"
  by (simp add: manager_New_def manager_ok_def chains_ok_def targets_ok_def)

end
