(* ===== verification/FailoverProps.thy ===== *)
theory FailoverProps
  imports FailoverInvariant
begin

text \<open>
  The properties of the failover manager: it never panics; which target it serves; what a request tries; when a
  target trips and recovers; how followers, echoes and pins behave.
\<close>

section \<open>A sample manager\<close>

definition plain_config :: "string \<Rightarrow> model_config" where
  "plain_config n = \<lparr>Name = n, Alias = '''', VisionAlias = '''', Backend = ''llama-cpp'', MModel = ''m'', Disabled = False, Pinned = False, ConcurrencyGroups = [],
     Failover = None\<rparr>"

definition sample_src :: config_source where
  "sample_src = \<lparr>GetModelConfig = (\<lambda>n. if n = ''a'' \<or> n = ''b'' then Some (plain_config n) else None),
     GetAllModelsConfigs = [chain_c]\<rparr>"

definition sample_target :: "string \<Rightarrow> target_st \<Rightarrow> target_state" where
  "sample_target n st = (new_target n)\<lparr>serving := n, tkind := KindRemote, tstate := st, params := two_targets\<rparr>"

definition sample_chain :: chain_state where
  "sample_chain = \<lparr>cname = ''c'', ccfg = two_targets, ctargets = [''a'', ''b''], active = 0, activeSince = 0,
     pinned = '''', cstate = ChainPrimary, adopted = False\<rparr>"

definition sample_manager :: "target_st \<Rightarrow> target_st \<Rightarrow> manager" where
  "sample_manager sa sb = (manager_New ''id'' True True False)
     \<lparr>mtargets := [(''a'', sample_target ''a'' sa), (''b'', sample_target ''b'' sb)], mchains := [(''c'', sample_chain)],
      hasChains := True\<rparr>"

lemma sample_src_valid: "valid_source sample_src"
  using chain_c_valid by (simp add: valid_source_def sample_src_def)

lemma sample_manager_ok: "manager_ok (sample_manager sa sb)"
  by (simp add: sample_manager_def manager_New_def manager_ok_def chains_ok_def targets_ok_def sample_chain_def
      sample_target_def new_target_def chain_wf_def)

lemmas sample_defs = sample_manager_def sample_chain_def sample_target_def new_target_def manager_New_def

section \<open>Properties\<close>

text \<open>
  C13: the manager never panics. From a new manager, any interleaving of requests, pins, probes, ticks and messages
  of peers, under configurations whose chains pass validation and may change at every step, runs to its end
  and leaves every chain with an active index and a pin within its targets.
\<close>

theorem manager_never_panics:
  assumes "\<forall>(src, now, op) \<in> set ops. valid_source src"
  shows "\<exists>m. ofold (\<lambda>(src, now, op). step src now op) ops (manager_New uid prober onWarm gate) = Some m \<and> manager_ok m"
  using manager_steps.loop_returns [OF manager_New_ok] assms by (simp add: list_all_iff)

theorem manager_never_panics_witness:
  "\<exists>m. ofold (\<lambda>(src, now, op). step src now op)
      [(sample_src, 0, OpSync), (sample_src, 5, OpFailure ''a'' ''x''), (sample_src, 9, OpPin None ''c'' ''b''),
       (sample_src, 9, OpRound True [])]
      (manager_New ''id'' True True True) = Some m \<and> manager_ok m"
  by (rule manager_never_panics) (simp add: sample_src_valid)

lemma hd_filter_nth: "i < length ns \<Longrightarrow> P (ns ! i) \<Longrightarrow> \<forall>j < i. \<not> P (ns ! j) \<Longrightarrow> hd (filter P ns) = ns ! i"
proof (induction ns arbitrary: i)
  case (Cons n ns)
  show ?case
  proof (cases i)
    case (Suc k)
    then have "\<not> P n" "\<forall>j < k. \<not> P (ns ! j)" using Cons.prems(3) by auto
    with Cons Suc show ?thesis by simp
  qed (use Cons in simp)
qed simp

lemma first_healthy_hd:
  assumes "first_healthy m ns = Some b"
  shows "ns ! nat b = hd (filter (healthy_at m) ns)"
  using first_healthy_Some [OF assms] hd_filter_nth [of "nat b" ns "healthy_at m"] by auto

lemma recomputed_decision:
  assumes wf: "chain_wf n ch" and nf: "\<not> follows m ch" and ch': "ch' = recomputed now m ch"
    and act: "act = ctargets ch' ! nat (active ch')"
  shows "(pinned ch \<noteq> '''' \<longrightarrow> act = pinned ch)
    \<and> (pinned ch = '''' \<and> (\<exists>t \<in> set (ctargets ch). healthy_at m t) \<longrightarrow>
        healthy_at m act \<and> cstate ch' \<noteq> ChainDegraded
        \<and> (act = hd (filter (healthy_at m) (ctargets ch))
            \<or> active ch' = active ch \<and> time_sub now (activeSince ch) < MinDwell (ccfg ch)))
    \<and> (pinned ch = '''' \<and> (\<forall>t \<in> set (ctargets ch). \<not> healthy_at m t) \<longrightarrow>
        active ch' = active ch \<and> cstate ch' = ChainDegraded)
    \<and> (pinned ch = '''' \<and> active_healthy m ch \<and> time_sub now (activeSince ch) < MinDwell (ccfg ch) \<longrightarrow>
        active ch' = active ch)"
proof -
  have a: "active ch' = decided now m ch" "cstate ch' = decided_state now m ch" "act = ctargets ch ! nat (decided now m ch)"
    using nf by (simp_all add: act ch') (simp_all add: recomputed_def)
  show ?thesis
  proof (cases "pinned ch = ''''")
    case False
    then have "pinned ch \<in> set (ctargets ch)" using wf by (simp add: chain_wf_def)
    with slices_index_at [OF this] slices_index_valid [OF this] False show ?thesis
      unfolding a by (simp add: decided_def slice_at_def)
  next
    case True
    show ?thesis
    proof (cases "first_healthy m (ctargets ch)")
      case None
      with True a show ?thesis
        using first_healthy_None [of m "ctargets ch"] by (auto simp: decided_def decided_state_def)
    next
      case (Some b)
      have h: "healthy_at m (ctargets ch ! nat b)" by (rule first_healthy_Some(3) [OF Some])
      have "\<exists>t \<in> set (ctargets ch). healthy_at m t"
        using first_healthy_None [of m "ctargets ch"] Some by auto
      with True Some h a first_healthy_hd [OF Some] show ?thesis
        by (auto simp: decided_def decided_state_def active_healthy_def)
    qed
  qed
qed

text \<open>
  C14: which target serves a chain. On a frontend that decides (standalone, or the leader), after a
  re-evaluation: a pinned chain serves its pin. Otherwise, if some target is healthy, the active one is
  healthy and is the first healthy one in priority order, except that the previous active one is kept while
  it was active for less than the minimum dwell time; a healthy active target is never left before
  that time. If no target is healthy the active one is kept and the chain is degraded.
\<close>

theorem Reevaluate_decides:
  assumes "manager_ok m" and "hasSync m \<longrightarrow> leader m"
  shows "\<exists>m'. Reevaluate now m = Some m' \<and> (\<forall>n ch. gm_get (mchains m) n = Some ch \<longrightarrow>
    (\<exists>ch' act. gm_get (mchains m') n = Some ch' \<and> ctargets ch' = ctargets ch
      \<and> act = ctargets ch' ! nat (active ch')
      \<and> (pinned ch \<noteq> '''' \<longrightarrow> act = pinned ch)
      \<and> (pinned ch = '''' \<and> (\<exists>t \<in> set (ctargets ch). healthy_at m t) \<longrightarrow>
          healthy_at m act \<and> cstate ch' \<noteq> ChainDegraded
          \<and> (act = hd (filter (healthy_at m) (ctargets ch))
              \<or> active ch' = active ch \<and> time_sub now (activeSince ch) < MinDwell (ccfg ch)))
      \<and> (pinned ch = '''' \<and> (\<forall>t \<in> set (ctargets ch). \<not> healthy_at m t) \<longrightarrow>
          active ch' = active ch \<and> cstate ch' = ChainDegraded)
      \<and> (pinned ch = '''' \<and> active_healthy m ch \<and> time_sub now (activeSince ch) < MinDwell (ccfg ch) \<longrightarrow>
          active ch' = active ch)))"
proof -
  obtain m1 where m1: "recompute_all now m = Some m1"
      "\<forall>n. gm_get (mchains m1) n = map_option (recomputed now m) (gm_get (mchains m) n)"
    using recompute_all_ok [OF assms(1)] by blast
  then have run: "Reevaluate now m = Some (unlockAndFlush m1)" by (simp add: Reevaluate_def)
  have get: "gm_get (mchains (unlockAndFlush m1)) n = Some (recomputed now m ch)"
    and wf: "chain_wf n ch" and nf: "\<not> follows m ch" if "gm_get (mchains m) n = Some ch" for n ch
    using m1(2) that chain_of_ok(1) [OF assms(1) that] assms(2) by (simp_all add: follows_def)
  show ?thesis
    by (rule exI, rule conjI [OF run], intro allI impI, rule exI, rule exI, rule conjI [OF get], assumption,
        rule conjI [OF recomputed_ctargets(1)], rule conjI [OF refl], rule recomputed_decision [OF wf nf refl refl])
qed

theorem Reevaluate_decides_witness:
  "\<exists>m' ch'. Reevaluate 7 (sample_manager StateDown StateHealthy) = Some m' \<and> gm_get (mchains m') ''c'' = Some ch'
     \<and> ctargets ch' ! nat (active ch') = ''b''"
proof -
  let ?m = "sample_manager StateDown StateHealthy"
  have ch: "gm_get (mchains ?m) ''c'' = Some sample_chain" by (simp add: sample_defs)
  have h: "healthy_at ?m ''b''" "\<not> healthy_at ?m ''a''" by (simp_all add: sample_defs healthy_at_def)
  have t: "ctargets sample_chain = [''a'', ''b'']" "pinned sample_chain = ''''" by (simp_all add: sample_chain_def)
  have "hasSync ?m \<longrightarrow> leader ?m" by (simp add: sample_defs)
  from Reevaluate_decides [OF sample_manager_ok this, of 7] obtain m' where
    m': "Reevaluate 7 ?m = Some m'" and all: "\<forall>n ch. gm_get (mchains ?m) n = Some ch \<longrightarrow>
      (\<exists>ch' act. gm_get (mchains m') n = Some ch' \<and> ctargets ch' = ctargets ch \<and> act = ctargets ch' ! nat (active ch')
       \<and> (pinned ch = '''' \<and> (\<exists>t \<in> set (ctargets ch). healthy_at ?m t) \<longrightarrow> healthy_at ?m act
           \<and> (act = hd (filter (healthy_at ?m) (ctargets ch)) \<or> active ch' = active ch)))"
    by meson
  from all ch obtain ch' where ch': "gm_get (mchains m') ''c'' = Some ch'" "ctargets ch' = [''a'', ''b'']"
      "healthy_at ?m (ctargets ch' ! nat (active ch'))"
      "ctargets ch' ! nat (active ch') = ''b'' \<or> active ch' = 0"
    using h t by (force simp: sample_chain_def)
  with h m' show ?thesis by auto
qed

lemma usable_healthy: "usable m False t = healthy_at m t"
  by (auto simp: usable_def healthy_at_def split: option.splits)

lemma plan_targets_facts:
  assumes wf: "chain_wf n ch" and ts: "plan_targets ch m = Some ts"
  shows "distinct ts"
    and "if pinned ch \<noteq> '''' then ts = [pinned ch]
         else set ts = {t \<in> set (ctargets ch). usable m (cstate ch = ChainDegraded) t}"
    and "pinned ch = '''' \<and> cstate ch = ChainDegraded \<longrightarrow> ts = filter (usable m True) (ctargets ch)"
    and "pinned ch = '''' \<and> cstate ch \<noteq> ChainDegraded \<and> active_healthy m ch \<longrightarrow> hd ts = ctargets ch ! nat (active ch)"
proof -
  have d: "distinct (ctargets ch)" and act: "ctargets ch ! nat (active ch) \<in> set (ctargets ch)"
    using wf by (auto simp: chain_wf_def)
  note ts' = ts [unfolded plan_targets_def Let_def active_at [OF wf] option.case]
  show "distinct ts" using ts' d by (auto split: if_splits)
  show "if pinned ch \<noteq> '''' then ts = [pinned ch]
         else set ts = {t \<in> set (ctargets ch). usable m (cstate ch = ChainDegraded) t}"
    using ts' act by (auto split: if_splits)
  show "pinned ch = '''' \<and> cstate ch = ChainDegraded \<longrightarrow> ts = filter (usable m True) (ctargets ch)"
    using ts' by (auto split: if_splits)
  show "pinned ch = '''' \<and> cstate ch \<noteq> ChainDegraded \<and> active_healthy m ch \<longrightarrow> hd ts = ctargets ch ! nat (active ch)"
    using ts' by (auto simp: usable_healthy active_healthy_def split: if_splits)
qed



text \<open>
  C16: a request served through a chain. \<open>Do\<close> always returns; it calls the function on a non-empty prefix of the
  planned targets, in order and each at most once; it succeeds exactly when the last call did, every
  earlier call having failed; and it gives up with an error only after the last planned target, after output
  reached the client, after the context ended, or on an error that no other target would serve.
\<close>

theorem Do_tries_targets:
  assumes "manager_ok m" and "valid_source src" and "Plan src now n m = Some (Inr a, m1)"
  shows "\<exists>r ts m'. Do src now n fn m = Some (r, ts, m') \<and> manager_ok m' \<and> ts \<noteq> [] \<and> distinct ts
    \<and> (\<exists>us. atargets a = ts @ us) \<and> (r = None \<longleftrightarrow> fst (fn (last ts)) = None)
    \<and> (\<forall>t \<in> set (butlast ts). fst (fn t) \<noteq> None)
    \<and> (\<forall>e. r = Some e \<longrightarrow> (\<exists>g. e = DoCall g \<and> fst (fn (last ts)) = Some g
         \<and> (ts = atargets a \<or> fst (snd (fn (last ts))) \<or> snd (snd (fn (last ts)))
             \<or> \<not> IsRetryable (Some g) 0 \<and> \<not> IsCapabilityGap (Some g))))"
proof -
  from Plan_ok [OF assms(1,2), of now n] assms(3) obtain ch ts where
    ch: "gm_get (mchains m1) n = Some ch" "plan_targets ch m1 = Some ts" "manager_ok m1" "ts \<noteq> []"
      "a = \<lparr>achain = n, aprimary = hd (ctargets ch), adegraded = (cstate ch = ChainDegraded), atargets = ts, ai = 0\<rparr>"
    by (auto split: if_splits)
  have a: "attempt_ok a" "remaining a = atargets a" "distinct (atargets a)"
    using ch plan_targets_facts(1) [OF chain_of_ok(1) [OF ch(3,1)] ch(2)]
    by (simp_all add: attempt_ok_def remaining_def)
  have "Do src now n fn m = do_loop src now fn a m1" using assms(3) by (simp add: Do_def)
  with do_loop_ok [OF a(1) ch(3) assms(2), of now fn] a(2,3) show ?thesis
    by (metis distinct_append)
qed

definition unavailable :: go_error where
  "unavailable = \<lparr>isCanceled = False, httpCode = None, isDeadline = False, grpcStatus = Some (CUnavailable, ''down''),
     errText = ''down''\<rparr>"

theorem Do_tries_targets_witness:
  "\<exists>r ts m'. Do sample_src 7 ''c'' (\<lambda>t. (if t = ''a'' then Some unavailable else None, False, False))
      (sample_manager StateHealthy StateHealthy) = Some (r, ts, m') \<and> ts \<noteq> [] \<and> distinct ts"
proof -
  have p: "Plan sample_src 7 ''c'' (sample_manager StateHealthy StateHealthy) =
      Some (Inr \<lparr>achain = ''c'', aprimary = ''a'', adegraded = False, atargets = [''a'', ''b''], ai = 0\<rparr>,
        unlockAndFlush (sample_manager StateHealthy StateHealthy))"
    by (simp add: Plan_def chainLocked_def plan_targets_def usable_def slice_at_def sample_defs Let_def)
  from Do_tries_targets [OF sample_manager_ok sample_src_valid p] show ?thesis by meson
qed

lemma setTargetLocked_current:
  "gm_get (mtargets m) (tname ts) = Some ts \<Longrightarrow>
     gm_get (mtargets (snd (setTargetLocked now ts st r e m))) k =
       (if k = tname ts then Some (fst (setTargetLocked now ts st r e m)) else gm_get (mtargets m) k)"
  by (auto simp: setTargetLocked_mtargets gm_get_put) (simp add: setTargetLocked_def)

lemma recordFailureLocked_current:
  "gm_get (mtargets (snd (recordFailureLocked now ts msg m))) k =
     (if k = tname ts then Some (fst (recordFailureLocked now ts msg m)) else gm_get (mtargets m) k)"
  by (auto simp: recordFailureLocked_def Let_def setTargetLocked_current gm_get_put split: target_st.splits)

lemma count_pass_current:
  "gm_get (mtargets (snd (count_pass now ts m))) k =
     (if k = tname ts then Some (fst (count_pass now ts m)) else gm_get (mtargets m) k)"
  by (auto simp: count_pass_def Let_def setTargetLocked_current gm_get_put)

lemma recordPassLocked_current:
  "gm_get (mtargets m) (tname ts) = Some ts \<Longrightarrow>
     gm_get (mtargets (snd (recordPassLocked now ts m))) k =
       (if k = tname ts then Some (fst (recordPassLocked now ts m)) else gm_get (mtargets m) k)"
  by (auto simp: recordPassLocked_def Let_def setTargetLocked_current count_pass_current gm_get_put split: target_st.splits)

lemma ReportFailure_run:
  assumes ok: "manager_ok m" and ts: "gm_get (mtargets m) t = Some ts"
  shows "\<exists>m'. ReportFailure src now t msg m = Some m' \<and> manager_ok m' \<and> hasSync m' = hasSync m \<and> leader m' = leader m
    \<and> (\<forall>k. gm_get (mtargets m') k =
        (if k = t then Some (fst (recordFailureLocked now ts msg m)) else gm_get (mtargets m) k))
    \<and> (\<forall>n. gm_get (mchains m') n =
        map_option (\<lambda>ch. if t \<in> set (ctargets ch) then recomputed now (snd (recordFailureLocked now ts msg m)) ch else ch)
          (gm_get (mchains m) n))"
proof -
  have nm: "tname ts = t" by (rule target_of_ok [OF ok ts])
  obtain m1 where m1: "recomputeForLocked now t (snd (recordFailureLocked now ts msg m)) = Some m1" "manager_ok m1"
      "other_fields m1 = other_fields (snd (recordFailureLocked now ts msg m))"
      "\<forall>n. gm_get (mchains m1) n =
        map_option (\<lambda>ch. if t \<in> set (ctargets ch) then recomputed now (snd (recordFailureLocked now ts msg m)) ch else ch)
          (gm_get (mchains (snd (recordFailureLocked now ts msg m))) n)"
    using recomputeForLocked_ok [OF recordFailureLocked_ok [OF ok]] by blast
  have "ReportFailure src now t msg m = Some (unlockAndFlush m1)"
    using m1(1) by (simp add: ReportFailure_def targetLocked_def ts recompute_flush_def)
  with m1 show ?thesis
    by (intro exI [of _ "unlockAndFlush m1"]) (simp add: other_fieldsD [OF m1(3)] recordFailureLocked_current nm)
qed

lemma ReportSuccess_run:
  assumes ok: "manager_ok m" and ts: "gm_get (mtargets m) t = Some ts"
    and p: "p = recordPassLocked now (ts\<lparr>lastActivity := now\<rparr>) (put_target (ts\<lparr>lastActivity := now\<rparr>) m)"
  shows "\<exists>m'. ReportSuccess src now t m = Some m' \<and> manager_ok m' \<and> hasSync m' = hasSync m \<and> leader m' = leader m
    \<and> (\<forall>k. gm_get (mtargets m') k = (if k = t then Some (fst p) else gm_get (mtargets m) k))
    \<and> (\<forall>n. gm_get (mchains m') n =
        map_option (\<lambda>ch. if t \<in> set (ctargets ch) then recomputed now (snd p) ch else ch) (gm_get (mchains m) n))"
proof -
  let ?ts = "ts\<lparr>lastActivity := now\<rparr>" and ?m = "put_target (ts\<lparr>lastActivity := now\<rparr>) m"
  have nm: "tname ts = t" by (rule target_of_ok [OF ok ts])
  have cur: "gm_get (mtargets ?m) (tname ?ts) = Some ?ts" by (simp add: gm_get_put)
  have fields: "mchains (snd p) = mchains m" "hasSync (snd p) = hasSync m" "leader (snd p) = leader m" by (simp_all add: p)
  have "manager_ok (snd p)" unfolding p by (rule recordPassLocked_ok [OF put_target_ok [OF ok]])
  then obtain m1 where m1: "recomputeForLocked now t (snd p) = Some m1" "manager_ok m1"
      "other_fields m1 = other_fields (snd p)"
      "\<forall>n. gm_get (mchains m1) n =
        map_option (\<lambda>ch. if t \<in> set (ctargets ch) then recomputed now (snd p) ch else ch) (gm_get (mchains (snd p)) n)"
    using recomputeForLocked_ok by blast
  have "ReportSuccess src now t m = Some (unlockAndFlush m1)"
    using m1(1) by (simp add: ReportSuccess_def targetLocked_def ts recompute_flush_def Let_def p)
  moreover have "gm_get (mtargets (snd p)) k = (if k = t then Some (fst p) else gm_get (mtargets m) k)" for k
    using recordPassLocked_current [OF cur, of now k] nm by (simp add: p gm_get_put)
  ultimately show ?thesis
    using m1 fields by (intro exI [of _ "unlockAndFlush m1"]) (simp add: other_fieldsD [OF m1(3)])
qed

text \<open>
  C17: when a target trips. A failure of a healthy target is counted together with the earlier ones within the trip
  window: with the configured number of them the target goes down, with fewer it stays healthy and keeps
  exactly those. A recovering target goes down at once; a target that is down or missing keeps its
  state. On a frontend that decides, no unpinned chain with another healthy target serves the
  target after it tripped.
\<close>

theorem ReportFailure_trips:
  assumes "manager_ok m" and "gm_get (mtargets m) t = Some ts"
    and "recent = filter (\<lambda>f. now - TripWindow (params ts) < f) (failures ts) @ [now]"
  shows "\<exists>m' ts'. ReportFailure src now t msg m = Some m' \<and> gm_get (mtargets m') t = Some ts' \<and> lastError ts' = msg
    \<and> (tstate ts = StateHealthy \<longrightarrow>
         (if int (length recent) \<ge> TripErrors (params ts)
          then tstate ts' = StateDown \<and> downSince ts' = now \<and> failures ts' = []
          else tstate ts' = StateHealthy \<and> failures ts' = recent))
    \<and> (tstate ts = StateRecovering \<longrightarrow> tstate ts' = StateDown \<and> downSince ts' = now)
    \<and> (tstate ts = StateDown \<or> tstate ts = StateMissing \<longrightarrow> tstate ts' = tstate ts)
    \<and> ((hasSync m \<longrightarrow> leader m) \<and> tstate ts' = StateDown \<longrightarrow>
        (\<forall>n ch'. gm_get (mchains m') n = Some ch' \<and> t \<in> set (ctargets ch') \<and> pinned ch' = ''''
           \<and> (\<exists>u \<in> set (ctargets ch'). healthy_at m' u) \<longrightarrow> ctargets ch' ! nat (active ch') \<noteq> t))"
proof -
  let ?m1 = "snd (recordFailureLocked now ts msg m)" and ?ts' = "fst (recordFailureLocked now ts msg m)"
  obtain m' where m': "ReportFailure src now t msg m = Some m'" "manager_ok m'" "hasSync m' = hasSync m" "leader m' = leader m"
      "\<forall>k. gm_get (mtargets m') k = (if k = t then Some ?ts' else gm_get (mtargets m) k)"
      "\<forall>n. gm_get (mchains m') n =
        map_option (\<lambda>ch. if t \<in> set (ctargets ch) then recomputed now ?m1 ch else ch) (gm_get (mchains m) n)"
    using ReportFailure_run [OF assms(1,2)] by blast
  have nm: "tname ts = t" by (rule target_of_ok [OF assms(1,2)])
  have h: "healthy_at m' = healthy_at ?m1"
    using m'(5) recordFailureLocked_current [of now ts msg m] nm by (simp add: healthy_at_def fun_eq_iff)
  have not_down: "\<not> healthy_at m' t" if "tstate ?ts' = StateDown" using that m'(5) by (simp add: healthy_at_def)
  have served: "ctargets ch' ! nat (active ch') \<noteq> t"
    if dec: "hasSync m \<longrightarrow> leader m" and down: "tstate ?ts' = StateDown" and ch': "gm_get (mchains m') n = Some ch'"
      "t \<in> set (ctargets ch')" "pinned ch' = ''''" "\<exists>u \<in> set (ctargets ch'). healthy_at m' u" for n ch'
  proof -
    obtain ch where ch: "gm_get (mchains m) n = Some ch" "ch' = recomputed now ?m1 ch"
      using m'(6) ch'(1,2) by (auto split: if_splits)
    have "chain_wf n ch" by (rule chain_of_ok(1) [OF assms(1) ch(1)])
    moreover have "\<not> follows ?m1 ch" using dec by (simp add: follows_def)
    ultimately have "healthy_at ?m1 (ctargets ch' ! nat (active ch'))"
      using recomputed_decision [OF _ _ ch(2) refl] ch'(3,4) ch(2) h by auto
    then show ?thesis using not_down [OF down] h by auto
  qed
  have state: "lastError ?ts' = msg
      \<and> (tstate ts = StateHealthy \<longrightarrow>
         (if int (length recent) \<ge> TripErrors (params ts)
          then tstate ?ts' = StateDown \<and> downSince ?ts' = now \<and> failures ?ts' = []
          else tstate ?ts' = StateHealthy \<and> failures ?ts' = recent))
      \<and> (tstate ts = StateRecovering \<longrightarrow> tstate ?ts' = StateDown \<and> downSince ?ts' = now)
      \<and> (tstate ts = StateDown \<or> tstate ts = StateMissing \<longrightarrow> tstate ?ts' = tstate ts)"
    unfolding assms(3) by (cases "tstate ts") (auto simp: recordFailureLocked_def setTargetLocked_def Let_def)
  have cur: "gm_get (mtargets m') t = Some ?ts'" using m'(5) by simp
  have served': "(hasSync m \<longrightarrow> leader m) \<and> tstate ?ts' = StateDown \<longrightarrow>
        (\<forall>n ch'. gm_get (mchains m') n = Some ch' \<and> t \<in> set (ctargets ch') \<and> pinned ch' = ''''
           \<and> (\<exists>u \<in> set (ctargets ch'). healthy_at m' u) \<longrightarrow> ctargets ch' ! nat (active ch') \<noteq> t)"
    using served by blast
  have "ReportFailure src now t msg m = Some m' \<and> gm_get (mtargets m') t = Some ?ts'" using m'(1) cur ..
  with state served' show ?thesis
    by (elim conjE, intro exI [of _ m'] exI [of _ ?ts'] conjI)
qed

theorem ReportFailure_trips_witness:
  "\<exists>m' ts'. ReportFailure sample_src 7 ''a'' ''boom'' (sample_manager StateRecovering StateHealthy) = Some m'
     \<and> gm_get (mtargets m') ''a'' = Some ts' \<and> lastError ts' = ''boom'' \<and> tstate ts' = StateDown"
proof -
  have "gm_get (mtargets (sample_manager StateRecovering StateHealthy)) ''a'' = Some (sample_target ''a'' StateRecovering)"
    by (simp add: sample_defs)
  from ReportFailure_trips [OF sample_manager_ok this refl, of sample_src 7 "''boom''"]
  show ?thesis by (auto simp: sample_target_def)
qed

lemma recordPassLocked_params [simp]:
  "params (fst (recordPassLocked now ts m)) = params ts" "tkind (fst (recordPassLocked now ts m)) = tkind ts"
  "twarm (fst (recordPassLocked now ts m)) = twarm ts"
  by (cases "tstate ts"; simp add: recordPassLocked_def count_pass_def Let_def)+

lemma recordPassLocked_down:
  "tstate ts = StateDown \<Longrightarrow> \<not> cold ts \<Longrightarrow>
     (if RecoveryProbes (params ts) \<le> 1 then tstate (fst (recordPassLocked now ts m)) = StateHealthy
      else tstate (fst (recordPassLocked now ts m)) = StateRecovering \<and> consecutiveOK (fst (recordPassLocked now ts m)) = 1)"
  by (simp add: recordPassLocked_def count_pass_def Let_def) (simp add: setTargetLocked_def Let_def)

lemma recordPassLocked_recovering:
  "tstate ts = StateRecovering \<Longrightarrow>
     (if RecoveryProbes (params ts) \<le> consecutiveOK ts + 1 then tstate (fst (recordPassLocked now ts m)) = StateHealthy
      else tstate (fst (recordPassLocked now ts m)) = StateRecovering
        \<and> consecutiveOK (fst (recordPassLocked now ts m)) = consecutiveOK ts + 1)"
  by (simp add: recordPassLocked_def count_pass_def Let_def)



definition report :: "config_source \<Rightarrow> time \<times> string \<times> string option \<Rightarrow> manager \<Rightarrow> manager option" where
  "report src = (\<lambda>(now, t, e) m. case e of None \<Rightarrow> ReportSuccess src now t m | Some msg \<Rightarrow> ReportFailure src now t msg m)"

lemma report_run:
  assumes ok: "manager_ok m" and t: "gm_get (mtargets m) t \<noteq> None" and fo: "hasSync m" "\<not> leader m"
    and ch: "gm_get (mchains m) n = Some ch" "adopted ch" "pinned ch = ''''"
  shows "\<exists>m'. report src (now, t, e) m = Some m' \<and> manager_ok m' \<and> hasSync m' \<and> \<not> leader m'
    \<and> gm_get (mchains m') n = Some ch \<and> (\<forall>k. gm_get (mtargets m) k \<noteq> None \<longrightarrow> gm_get (mtargets m') k \<noteq> None)"
proof -
  obtain ts where ts: "gm_get (mtargets m) t = Some ts" using t by blast
  have same: "recomputed now m1 ch = ch" if "hasSync m1" "\<not> leader m1" for m1
    using that ch by (simp add: recomputed_def follows_def)
  show ?thesis
  proof (cases e)
    case None
    let ?p = "recordPassLocked now (ts\<lparr>lastActivity := now\<rparr>) (put_target (ts\<lparr>lastActivity := now\<rparr>) m)"
    have "recomputed now (snd ?p) ch = ch" using same fo by simp
    moreover from ReportSuccess_run [OF ok ts refl, of src now] obtain m' where
      "ReportSuccess src now t m = Some m'" "manager_ok m'" "hasSync m'" "\<not> leader m'"
      "\<forall>k. gm_get (mtargets m') k = (if k = t then Some (fst ?p) else gm_get (mtargets m) k)"
      "\<forall>n. gm_get (mchains m') n =
        map_option (\<lambda>ch. if t \<in> set (ctargets ch) then recomputed now (snd ?p) ch else ch) (gm_get (mchains m) n)"
      using fo by auto
    ultimately show ?thesis using None ch(1) by (intro exI [of _ m']) (simp add: report_def)
  next
    case (Some msg)
    let ?p = "recordFailureLocked now ts msg m"
    have "recomputed now (snd ?p) ch = ch" using same fo by simp
    moreover from ReportFailure_run [OF ok ts, of src now msg] obtain m' where
      "ReportFailure src now t msg m = Some m'" "manager_ok m'" "hasSync m'" "\<not> leader m'"
      "\<forall>k. gm_get (mtargets m') k = (if k = t then Some (fst ?p) else gm_get (mtargets m) k)"
      "\<forall>n. gm_get (mchains m') n =
        map_option (\<lambda>ch. if t \<in> set (ctargets ch) then recomputed now (snd ?p) ch else ch) (gm_get (mchains m) n)"
      using fo by auto
    ultimately show ?thesis using Some ch(1) by (intro exI [of _ m']) (simp add: report_def)
  qed
qed

lemma reports_run:
  assumes "manager_ok m" and "\<forall>(now, t, e) \<in> set rs. gm_get (mtargets m) t \<noteq> None" and "hasSync m" "\<not> leader m"
    and "gm_get (mchains m) n = Some ch" "adopted ch" "pinned ch = ''''"
  shows "\<exists>m'. ofold (report src) rs m = Some m' \<and> manager_ok m' \<and> hasSync m' \<and> \<not> leader m' \<and> gm_get (mchains m') n = Some ch"
  using assms
proof (induction rs arbitrary: m)
  case (Cons r rs)
  obtain now t e where r: "r = (now, t, e)" by (metis prod_cases3)
  have "gm_get (mtargets m) t \<noteq> None" using Cons.prems(2) r by simp
  from report_run [OF Cons.prems(1) this Cons.prems(3-7), of src now e] obtain m1 where
    m1: "report src r m = Some m1" "manager_ok m1" "hasSync m1" "\<not> leader m1" "gm_get (mchains m1) n = Some ch"
      "\<forall>k. gm_get (mtargets m) k \<noteq> None \<longrightarrow> gm_get (mtargets m1) k \<noteq> None"
    unfolding r by blast
  have "\<forall>(now, t, e) \<in> set rs. gm_get (mtargets m1) t \<noteq> None" using Cons.prems(2) m1(6) by fastforce
  from Cons.IH [OF m1(2) this m1(3-5) Cons.prems(6,7)] m1(1) show ?case by simp
qed simp


definition leader_choice :: chain_snapshot where
  "leader_choice = \<lparr>CSChain = ''c'', CSActive = ''b'', CSActiveSince = 3, CSState = ChainFallback, CSReason = ReasonTrip\<rparr>"


text \<open>
  What may be queued while a peer's message is applied: nothing about targets, and chain decisions only on the leader.
\<close>

definition quiet :: "manager \<Rightarrow> manager \<Rightarrow> bool" where
  "quiet m m' \<longleftrightarrow> leader m' = leader m \<and> sent m' = sent m \<and> (\<exists>ps. pending m' = pending m @ ps
     \<and> (\<forall>p \<in> set ps. \<exists>c. p = PublishChain c) \<and> (\<not> leader m \<longrightarrow> ps = []))"

lemma quietI: "leader m' = leader m \<Longrightarrow> sent m' = sent m \<Longrightarrow> pending m' = pending m \<Longrightarrow> quiet m m'"
  by (simp add: quiet_def)

lemma quiet_trans [trans]:
  assumes "quiet a b" and "quiet b c"
  shows "quiet a c"
proof -
  from assms(1) obtain ps where ps: "pending b = pending a @ ps" "\<forall>p \<in> set ps. \<exists>c. p = PublishChain c"
    "\<not> leader a \<longrightarrow> ps = []" "leader b = leader a" "sent b = sent a"
    unfolding quiet_def by blast
  from assms(2) obtain qs where qs: "pending c = pending b @ qs" "\<forall>p \<in> set qs. \<exists>c. p = PublishChain c"
    "\<not> leader b \<longrightarrow> qs = []" "leader c = leader b" "sent c = sent b"
    unfolding quiet_def by blast
  have "\<forall>p \<in> set (ps @ qs). \<exists>c. p = PublishChain c" using ps(2) qs(2) by auto
  with ps qs show ?thesis unfolding quiet_def by (intro conjI exI [of _ "ps @ qs"]) auto
qed

lemma quiet_fold: "(\<And>x m m'. f x m = Some m' \<Longrightarrow> quiet m m') \<Longrightarrow> ofold f xs m = Some m' \<Longrightarrow> quiet m m'"
proof (induction xs arbitrary: m)
  case (Cons x xs)
  then obtain m1 where m1: "f x m = Some m1" "ofold f xs m1 = Some m'" by (auto split: option.splits)
  from Cons.prems(1) [OF m1(1)] Cons.IH [OF Cons.prems(1) m1(2)] show ?case by (rule quiet_trans)
qed (simp add: quietI)

lemma emit_switch_quiet: "emit_switch ev m = Some m' \<Longrightarrow> quiet m m'"
  by (auto simp: emit_switch_def intro: quietI split: option.splits)

lemma queuePublishChainLocked_quiet: "queuePublishChainLocked ch r m = Some m' \<Longrightarrow> quiet m m'"
  by (auto simp: queuePublishChainLocked_def quiet_def split: if_splits option.splits)

lemma put_chain_quiet: "quiet m (put_chain ch m)"
  by (rule quietI) simp_all

lemma apply_decision_quiet:
  assumes "apply_decision now ch d st r m = Some m'"
  shows "quiet m m'"
proof -
  obtain ch2 m2 where "quiet m m2" "m' = put_chain ch2 m2 \<or> (\<exists>r'. queuePublishChainLocked ch2 r' (put_chain ch2 m2) = Some m')"
  proof -
    let ?ch1 = "if d \<noteq> active ch then ch\<lparr>active := d, activeSince := now\<rparr> else ch"
    obtain m2 where m2: "quiet m m2" "m' = put_chain (?ch1\<lparr>cstate := st\<rparr>) m2
        \<or> (\<exists>r'. queuePublishChainLocked (?ch1\<lparr>cstate := st\<rparr>) r' (put_chain (?ch1\<lparr>cstate := st\<rparr>) m2) = Some m')"
      using assms unfolding apply_decision_def Let_def
      by (auto dest!: emit_switch_quiet intro: quiet_trans [OF put_chain_quiet] quietI split: option.splits if_splits)
    then show thesis by (rule that)
  qed
  then show ?thesis
    using put_chain_quiet queuePublishChainLocked_quiet quiet_trans by metis
qed

lemma recomputeLocked_quiet: "recomputeLocked now n r m = Some m' \<Longrightarrow> quiet m m'"
  by (auto simp: recomputeLocked_def Let_def intro: quietI apply_decision_quiet split: option.splits if_splits)

lemma setTargetLocked_quiet:
  "applying m \<or> st = StateMissing \<or> tstate ts = StateMissing \<Longrightarrow> quiet m (snd (setTargetLocked now ts st r e m))"
  by (rule quietI) (auto simp: setTargetLocked_def queuePublishTargetLocked_def Let_def split: target_st.splits)

lemma put_target_quiet: "quiet m (put_target ts m)"
  by (rule quietI) simp_all

lemma quiet_put [simp]: "quiet m (put_target ts m') = quiet m m'" "quiet m m"
  by (simp_all add: quiet_def)

lemma sync_target_quiet: "quiet m (snd (sync_target src now f t (cl, m)))"
proof -
  have s: "quiet m (snd (setTargetLocked now ts st r e m'))"
    if "quiet m m'" "st = StateMissing \<or> tstate ts = StateMissing" for m' ts st r e
    using quiet_trans [OF that(1) setTargetLocked_quiet] that(2) by blast
  show ?thesis
    unfolding sync_target_def Let_def prod.case snd_conv
    by (cases "lookupTarget src (FTModel t)") (simp_all add: s)
qed

lemma sync_targets_quiet: "fold (sync_target src now f) ts (cl, m) = (cl', m') \<Longrightarrow> quiet m m'"
proof (induction ts arbitrary: cl m)
  case (Cons t ts)
  obtain cl1 m1 where s: "sync_target src now f t (cl, m) = (cl1, m1)" by fastforce
  with sync_target_quiet [of m src now f t cl] have "quiet m m1" by simp
  moreover have "quiet m1 m'" using Cons s by simp
  ultimately show ?case by (rule quiet_trans)
qed (simp add: quietI)

lemma rebuild_chain_quiet: "quiet m (rebuild_chain now n names m)"
  by (rule quietI) (auto simp: rebuild_chain_def Let_def)

lemma sync_chain_quiet: "sync_chain src now c (sc, cl, m) = (sc', cl', m') \<Longrightarrow> quiet m m'"
  by (auto simp: sync_chain_def Let_def dest!: sync_targets_quiet split: option.splits if_splits prod.splits
      intro: quietI quiet_trans [OF put_chain_quiet] quiet_trans [OF rebuild_chain_quiet]
        quiet_trans [OF quiet_trans [OF rebuild_chain_quiet put_chain_quiet]])

lemma sync_chains_quiet: "fold (sync_chain src now) cs (sc, cl, m) = (sc', cl', m') \<Longrightarrow> quiet m m'"
proof (induction cs arbitrary: sc cl m)
  case (Cons c cs)
  obtain sc1 cl1 m1 where s: "sync_chain src now c (sc, cl, m) = (sc1, cl1, m1)" by (metis prod_cases3)
  moreover have "quiet m1 m'" using Cons s by simp
  ultimately show ?case using sync_chain_quiet quiet_trans by blast
qed (simp add: quietI)

lemma syncLocked_quiet:
  assumes "syncLocked src now m = Some m'"
  shows "quiet m m'"
proof -
  obtain sc cl m1 where fd: "fold (sync_chain src now) (GetAllModelsConfigs src) ([], [], m) = (sc, cl, m1)"
    by (metis prod_cases3)
  have "quiet m1 (sync_configs src now m)"
    unfolding sync_configs_def fd by (rule quietI) (simp_all add: drop_unseen_def Let_def)
  with sync_chains_quiet [OF fd] have "quiet m (sync_configs src now m)" by (rule quiet_trans)
  moreover obtain m2 where m2: "recompute_all now (sync_configs src now m) = Some m2" "m' = sync_warm m2"
    using assms by (auto simp: syncLocked_def)
  moreover have "quiet (sync_configs src now m) m2"
    using m2(1) recomputeLocked_quiet unfolding recompute_all_def by (rule quiet_fold [rotated])
  moreover have "quiet m2 (sync_warm m2)" by (rule quietI) (auto simp: sync_warm_def Let_def)
  ultimately show ?thesis using quiet_trans by metis
qed

lemma targetLocked_quiet: "targetLocked src now t m = Some (x, m') \<Longrightarrow> quiet m m'"
  by (auto simp: targetLocked_def intro: quietI syncLocked_quiet split: option.splits)

lemma flush_quiet:
  assumes "quiet m m'" and "pending m = []"
  shows "\<exists>ps. sent (unlockAndFlush m') = sent m @ ps \<and> (\<forall>p \<in> set ps. \<exists>c. p = PublishChain c) \<and> (\<not> leader m \<longrightarrow> ps = [])"
  using assms by (auto simp: quiet_def unlockAndFlush_def)

lemma ApplyTarget_quiet:
  assumes "ApplyTarget src now s m = Some m'"
  shows "\<exists>m1. quiet m m1 \<and> m' = unlockAndFlush m1"
proof (cases "TSOrigin s \<noteq> '''' \<and> TSOrigin s = mid m")
  case True
  with assms show ?thesis by (auto simp: ApplyTarget_def intro: quietI)
next
  case False
  then obtain x m1 where l: "targetLocked src now (TSTarget s) m = Some (x, m1)"
    using assms by (auto simp: ApplyTarget_def split: option.splits)
  have q: "quiet m m1" by (rule targetLocked_quiet [OF l])
  show ?thesis
  proof (cases "case x of None \<Rightarrow> True | Some ts \<Rightarrow> tstate ts = StateMissing \<or> TSState s = StateMissing \<or> tstate ts = TSState s")
    case True
    then have "ApplyTarget src now s m = Some (unlockAndFlush m1)"
      using False l unfolding ApplyTarget_def by (cases x) auto
    with assms q show ?thesis by auto
  next
    case go: False
    then obtain ts where x: "x = Some ts" by (cases x) auto
    let ?p = "setTargetLocked now ts (TSState s) (TSReason s) (TSError s) (m1\<lparr>applying := True\<rparr>)"
    define ts3 where "ts3 = adopt_snapshot s (fst ?p)"
    have "ApplyTarget src now s m = recompute_flush now (tname ts3) (put_target ts3 ((snd ?p)\<lparr>applying := False\<rparr>))"
      using False l go unfolding ApplyTarget_def x ts3_def by (auto simp: Let_def split_beta)
    with assms obtain m3 where m3: "recomputeForLocked now (tname ts3) (put_target ts3 ((snd ?p)\<lparr>applying := False\<rparr>)) = Some m3"
        "m' = unlockAndFlush m3"
      by (auto simp: recompute_flush_def)
    have "quiet (m1\<lparr>applying := True\<rparr>) (snd ?p)" by (rule setTargetLocked_quiet) simp
    then have "quiet m1 (put_target ts3 ((snd ?p)\<lparr>applying := False\<rparr>))" by (auto simp: quiet_def)
    moreover have "quiet (put_target ts3 ((snd ?p)\<lparr>applying := False\<rparr>)) m3"
      using m3(1) recomputeLocked_quiet unfolding recomputeForLocked_def by (rule quiet_fold [rotated])
    ultimately show ?thesis using q m3(2) quiet_trans by metis
  qed
qed

text \<open>
  No echo between frontends. Applying a peer's target state publishes no target state, so two frontends never
  bounce one back and forth: a follower sends nothing at all, the leader at most its own chain
  decisions. The echo of a manager's own publish changes no target and no chain.
\<close>

theorem ApplyTarget_no_echo:
  assumes "manager_ok m" and "valid_source src" and "pending m = []"
  shows "\<exists>m' ps. ApplyTarget src now s m = Some m' \<and> sent m' = sent m @ ps \<and> (\<forall>p \<in> set ps. \<exists>c. p = PublishChain c)
    \<and> (\<not> leader m \<longrightarrow> ps = [])
    \<and> (TSOrigin s \<noteq> '''' \<and> TSOrigin s = mid m \<longrightarrow> mtargets m' = mtargets m \<and> mchains m' = mchains m \<and> ps = [])"
proof -
  obtain m' where m': "ApplyTarget src now s m = Some m'" using ApplyTarget_ok [OF assms(1,2)] by blast
  from ApplyTarget_quiet [OF m'] flush_quiet [OF _ assms(3)] obtain ps where
    ps: "sent m' = sent m @ ps" "\<forall>p \<in> set ps. \<exists>c. p = PublishChain c" "\<not> leader m \<longrightarrow> ps = []" by blast
  have "mtargets m' = mtargets m \<and> mchains m' = mchains m \<and> ps = []" if "TSOrigin s \<noteq> '''' \<and> TSOrigin s = mid m"
    using that m' ps(1) assms(3) by (auto simp: ApplyTarget_def unlockAndFlush_def)
  with m' ps show ?thesis by blast
qed

theorem ApplyTarget_no_echo_witness:
  "\<exists>m'. ApplyTarget sample_src 4
      \<lparr>TSTarget = ''a'', TSState = StateDown, TSReason = ReasonTrip, TSError = ''x'', TSConsecutiveOK = 0, TSSince = 3, TSOrigin = ''peer''\<rparr>
      ((sample_manager StateHealthy StateHealthy)\<lparr>hasSync := True, leader := False\<rparr>) = Some m' \<and> sent m' = []"
proof -
  let ?m = "(sample_manager StateHealthy StateHealthy)\<lparr>hasSync := True, leader := False\<rparr>"
  have "manager_ok ?m" using sample_manager_ok by (rule manager_okI) simp_all
  moreover have "pending ?m = []" "sent ?m = []" "\<not> leader ?m" by (simp_all add: sample_defs)
  ultimately show ?thesis using ApplyTarget_no_echo [OF _ sample_src_valid, of ?m 4] by fastforce
qed

end
