(* ===== verification/Watchdog.thy ===== *)
theory Watchdog
  imports Prelude
begin

text \<open>
  The watchdog of \<^verbatim>\<open>pkg/model/watchdog.go\<close> and its options: which backends are loaded, which
  requests each of them is serving, and which backends to stop when a limit, a timeout, a memory
  threshold or a concurrency group asks for it.

  The definitions are in the order of the source. Each operation that the code runs under the
  watchdog's lock is one function from watchdog to watchdog. An eviction is not atomic: it detaches
  its targets under the lock, stops them without it and settles each under the lock again. What the
  other goroutines do while a stop is under way is a list of operations (\<open>wd_op\<close>), a part of the
  process manager that is the argument \<open>pm\<close>.

  A request identifier is a \<open>nat\<close>: the counter of the code has 64 bits and counts requests. A
  \<^verbatim>\<open>*process.Process\<close> is an \<open>option\<close>, \<open>None\<close> for nil. File sizes are \<open>int\<close>: they are
  not negative, so the difference the code sorts by does not overflow.
\<close>

section \<open>Options\<close>

record wd_options =
  o_busyTimeout :: duration
  o_idleTimeout :: duration
  o_watchdogInterval :: duration
  o_busyCheck :: bool
  o_idleCheck :: bool
  o_lruLimit :: int
  o_memoryReclaimerEnabled :: bool
  o_memoryReclaimerThreshold :: real
  o_forceEvictionWhenBusy :: bool
  o_sizeAwareEviction :: bool

datatype wd_option =
    WithBusyTimeout duration
  | WithIdleTimeout duration
  | WithWatchdogInterval duration
  | WithBusyCheck bool
  | WithIdleCheck bool
  | WithLRULimit int
  | WithMemoryReclaimer bool real
  | WithMemoryReclaimerEnabled bool
  | WithMemoryReclaimerThreshold real
  | WithForceEvictionWhenBusy bool
  | WithSizeAwareEviction bool

fun option_apply :: "wd_option \<Rightarrow> wd_options \<Rightarrow> wd_options" where
  "option_apply (WithBusyTimeout d) os = os\<lparr>o_busyTimeout := d\<rparr>"
| "option_apply (WithIdleTimeout d) os = os\<lparr>o_idleTimeout := d\<rparr>"
| "option_apply (WithWatchdogInterval d) os = (if d > 0 then os\<lparr>o_watchdogInterval := d\<rparr> else os)"
| "option_apply (WithBusyCheck b) os = os\<lparr>o_busyCheck := b\<rparr>"
| "option_apply (WithIdleCheck b) os = os\<lparr>o_idleCheck := b\<rparr>"
| "option_apply (WithLRULimit n) os = os\<lparr>o_lruLimit := n\<rparr>"
| "option_apply (WithMemoryReclaimer b r) os =
     os\<lparr>o_memoryReclaimerEnabled := b, o_memoryReclaimerThreshold := r\<rparr>"
| "option_apply (WithMemoryReclaimerEnabled b) os = os\<lparr>o_memoryReclaimerEnabled := b\<rparr>"
| "option_apply (WithMemoryReclaimerThreshold r) os = os\<lparr>o_memoryReclaimerThreshold := r\<rparr>"
| "option_apply (WithForceEvictionWhenBusy b) os = os\<lparr>o_forceEvictionWhenBusy := b\<rparr>"
| "option_apply (WithSizeAwareEviction b) os = os\<lparr>o_sizeAwareEviction := b\<rparr>"

definition DefaultWatchDogOptions :: wd_options where
  "DefaultWatchDogOptions =
     \<lparr>o_busyTimeout = 5 * minute, o_idleTimeout = 15 * minute, o_watchdogInterval = second div 2,
      o_busyCheck = False, o_idleCheck = False, o_lruLimit = 0, o_memoryReclaimerEnabled = False,
      o_memoryReclaimerThreshold = 8 / 10, o_forceEvictionWhenBusy = False, o_sizeAwareEviction = False\<rparr>"

definition NewWatchDogOptions :: "wd_option list \<Rightarrow> wd_options" where
  "NewWatchDogOptions opts = fold option_apply opts DefaultWatchDogOptions"

section \<open>State\<close>

type_synonym process = "nat option"

record watchdog =
  busyTime :: "(string, time) gomap"
  inFlight :: "(string, int) gomap"
  requestStarts :: "(string, (nat, time) gomap) gomap"
  legacyRequests :: "(string, nat list) gomap"
  nextRequestID :: nat
  idleTime :: "(string, time) gomap"
  lastUsed :: "(string, time) gomap"
  pendingEvictions :: "(string, int) gomap"
  wtimeout :: duration
  idletimeout :: duration
  addressMap :: "(string, process) gomap"
  addressModelMap :: "(string, string) gomap"
  busyCheck :: bool
  idleCheck :: bool
  lruLimit :: int
  memoryReclaimerEnabled :: bool
  memoryReclaimerThreshold :: real
  watchdogInterval :: duration
  forceEvictionWhenBusy :: bool
  sizeAwareEviction :: bool
  modelSizes :: "(string, int) gomap"
  pinnedModels :: "(string, bool) gomap"
  modelGroups :: "(string, string list) gomap"

definition NewWatchDog :: "wd_option list \<Rightarrow> watchdog" where
  "NewWatchDog opts =
     (let os = NewWatchDogOptions opts
      in \<lparr>busyTime = [], inFlight = [], requestStarts = [], legacyRequests = [], nextRequestID = 0,
          idleTime = [], lastUsed = [], pendingEvictions = [],
          wtimeout = o_busyTimeout os, idletimeout = o_idleTimeout os,
          addressMap = [], addressModelMap = [],
          busyCheck = o_busyCheck os, idleCheck = o_idleCheck os, lruLimit = o_lruLimit os,
          memoryReclaimerEnabled = o_memoryReclaimerEnabled os,
          memoryReclaimerThreshold = o_memoryReclaimerThreshold os,
          watchdogInterval = o_watchdogInterval os,
          forceEvictionWhenBusy = o_forceEvictionWhenBusy os,
          sizeAwareEviction = o_sizeAwareEviction os,
          modelSizes = [], pinnedModels = [], modelGroups = []\<rparr>)"

section \<open>Settings\<close>

definition SetLRULimit :: "int \<Rightarrow> watchdog \<Rightarrow> watchdog" where
  "SetLRULimit limit wd = wd\<lparr>lruLimit := limit\<rparr>"

definition GetLRULimit :: "watchdog \<Rightarrow> int" where
  "GetLRULimit wd = lruLimit wd"

definition SetMemoryReclaimer :: "bool \<Rightarrow> real \<Rightarrow> watchdog \<Rightarrow> watchdog" where
  "SetMemoryReclaimer enabled threshold wd =
     wd\<lparr>memoryReclaimerEnabled := enabled, memoryReclaimerThreshold := threshold\<rparr>"

definition GetMemoryReclaimerSettings :: "watchdog \<Rightarrow> bool \<times> real" where
  "GetMemoryReclaimerSettings wd = (memoryReclaimerEnabled wd, memoryReclaimerThreshold wd)"

definition SetForceEvictionWhenBusy :: "bool \<Rightarrow> watchdog \<Rightarrow> watchdog" where
  "SetForceEvictionWhenBusy force wd = wd\<lparr>forceEvictionWhenBusy := force\<rparr>"

definition RegisterModelSize :: "string \<Rightarrow> int \<Rightarrow> watchdog \<Rightarrow> watchdog" where
  "RegisterModelSize modelID bytes wd = wd\<lparr>modelSizes := gm_put modelID bytes (modelSizes wd)\<rparr>"

definition SetSizeAwareEviction :: "bool \<Rightarrow> watchdog \<Rightarrow> watchdog" where
  "SetSizeAwareEviction enabled wd = wd\<lparr>sizeAwareEviction := enabled\<rparr>"

definition GetSizeAwareEviction :: "watchdog \<Rightarrow> bool" where
  "GetSizeAwareEviction wd = sizeAwareEviction wd"

definition SetPinnedModels :: "string list \<Rightarrow> watchdog \<Rightarrow> watchdog" where
  "SetPinnedModels models wd = wd\<lparr>pinnedModels := fold (\<lambda>m. gm_put m True) models []\<rparr>"

definition IsModelPinned :: "string \<Rightarrow> watchdog \<Rightarrow> bool" where
  "IsModelPinned modelName wd = gm_get0 False (pinnedModels wd) modelName"

definition ReplaceModelGroups :: "(string, string list) gomap \<Rightarrow> watchdog \<Rightarrow> watchdog" where
  "ReplaceModelGroups groups wd =
     wd\<lparr>modelGroups := fold (\<lambda>(name, gs) m. if gs = [] then m else gm_put name gs m) groups []\<rparr>"

definition GetModelGroups :: "string \<Rightarrow> watchdog \<Rightarrow> string list" where
  "GetModelGroups modelName wd =
     (case gm_get (modelGroups wd) modelName of None \<Rightarrow> [] | Some gs \<Rightarrow> gs)"

definition AddAddressModelMap :: "string \<Rightarrow> string \<Rightarrow> watchdog \<Rightarrow> watchdog" where
  "AddAddressModelMap address model wd = wd\<lparr>addressModelMap := gm_put address model (addressModelMap wd)\<rparr>"

definition Add :: "string \<Rightarrow> process \<Rightarrow> watchdog \<Rightarrow> watchdog" where
  "Add address p wd = wd\<lparr>addressMap := gm_put address p (addressMap wd)\<rparr>"

section \<open>Requests\<close>

definition beginRequestLocked :: "time \<Rightarrow> string \<Rightarrow> bool \<Rightarrow> watchdog \<Rightarrow> nat \<times> watchdog" where
  "beginRequestLocked now address legacy wd =
     (let requestID = nextRequestID wd + 1;
          starts = gm_put requestID now (gm_get0 [] (requestStarts wd) address)
      in (requestID,
          wd\<lparr>nextRequestID := requestID,
             requestStarts := gm_put address starts (requestStarts wd),
             legacyRequests :=
               (if legacy
                then gm_put address (gm_get0 [] (legacyRequests wd) address @ [requestID]) (legacyRequests wd)
                else legacyRequests wd),
             inFlight := gm_put address (int (length starts)) (inFlight wd),
             busyTime := (if length starts = 1 then gm_put address now (busyTime wd) else busyTime wd),
             lastUsed := gm_put address now (lastUsed wd),
             idleTime := gm_del address (idleTime wd)\<rparr>))"

definition oldest_start :: "(nat, time) gomap \<Rightarrow> time" where
  "oldest_start starts =
     fold (\<lambda>p oldest. if is_zero oldest \<or> snd p < oldest then snd p else oldest) starts 0"

definition finishRequestLocked :: "time \<Rightarrow> string \<Rightarrow> nat \<Rightarrow> watchdog \<Rightarrow> watchdog" where
  "finishRequestLocked now address requestID wd =
     (let starts = gm_get0 [] (requestStarts wd) address
      in if gm_get starts requestID = None then wd
         else
           let rest = gm_del requestID starts; wd1 = wd\<lparr>lastUsed := gm_put address now (lastUsed wd)\<rparr>
           in if rest \<noteq> []
              then wd1\<lparr>requestStarts := gm_put address rest (requestStarts wd),
                       inFlight := gm_put address (int (length rest)) (inFlight wd),
                       busyTime := gm_put address (oldest_start rest) (busyTime wd)\<rparr>
              else wd1\<lparr>requestStarts := gm_del address (requestStarts wd),
                       inFlight := gm_del address (inFlight wd),
                       busyTime := gm_del address (busyTime wd),
                       idleTime := gm_put address now (idleTime wd)\<rparr>)"

text \<open>
  \<open>TrackRequest\<close> gives the identifier its completion callback holds; \<open>complete_request\<close> is the
  callback, \<open>fired\<close> the state of its \<^verbatim>\<open>sync.Once\<close>.
\<close>

definition TrackRequest :: "time \<Rightarrow> string \<Rightarrow> watchdog \<Rightarrow> nat \<times> watchdog" where
  "TrackRequest now address wd = beginRequestLocked now address False wd"

definition complete_request :: "time \<Rightarrow> string \<Rightarrow> nat \<Rightarrow> bool \<Rightarrow> watchdog \<Rightarrow> watchdog" where
  "complete_request now address requestID fired wd =
     (if fired then wd else finishRequestLocked now address requestID wd)"

definition Mark :: "time \<Rightarrow> string \<Rightarrow> watchdog \<Rightarrow> watchdog" where
  "Mark now address wd = snd (beginRequestLocked now address True wd)"

definition UnMark :: "time \<Rightarrow> string \<Rightarrow> watchdog \<Rightarrow> watchdog" where
  "UnMark now address wd =
     (let requests = gm_get0 [] (legacyRequests wd) address
      in if requests = [] then wd
         else
           let requestID = last requests; rest = butlast requests
           in finishRequestLocked now address requestID
                (wd\<lparr>legacyRequests :=
                      (if rest = [] then gm_del address (legacyRequests wd)
                       else gm_put address rest (legacyRequests wd))\<rparr>))"

definition UpdateLastUsed :: "time \<Rightarrow> string \<Rightarrow> watchdog \<Rightarrow> watchdog" where
  "UpdateLastUsed now address wd = wd\<lparr>lastUsed := gm_put address now (lastUsed wd)\<rparr>"

definition GetLoadedModelCount :: "watchdog \<Rightarrow> int" where
  "GetLoadedModelCount wd = int (length (addressModelMap wd))"

section \<open>Handing the state to a new watchdog\<close>

text \<open>The in-flight map of a state may be nil, which is \<open>None\<close>.\<close>

record watchdog_state =
  S_AddressModelMap :: "(string, string) gomap"
  S_BusyTime :: "(string, time) gomap"
  S_InFlight :: "(string, int) gomap option"
  S_IdleTime :: "(string, time) gomap"
  S_LastUsed :: "(string, time) gomap"
  S_AddressMap :: "(string, process) gomap"

definition GetState :: "watchdog \<Rightarrow> watchdog_state" where
  "GetState wd =
     \<lparr>S_AddressModelMap = addressModelMap wd, S_BusyTime = busyTime wd, S_InFlight = Some (inFlight wd),
      S_IdleTime = idleTime wd, S_LastUsed = lastUsed wd, S_AddressMap = addressMap wd\<rparr>"

definition restore_address :: "time \<Rightarrow> string \<times> int \<Rightarrow> watchdog \<Rightarrow> watchdog" where
  "restore_address now p wd =
     (let address = fst p; count = nat (snd p);
          before = gm_get0 0 (busyTime wd) address;
          started = (if is_zero before then now else before);
          ids = [nextRequestID wd + 1 ..< nextRequestID wd + 1 + count]
      in wd\<lparr>busyTime := (if is_zero before then gm_put address started (busyTime wd) else busyTime wd),
            nextRequestID := nextRequestID wd + count,
            legacyRequests :=
              (if ids = [] then legacyRequests wd
               else gm_put address (gm_get0 [] (legacyRequests wd) address @ ids) (legacyRequests wd)),
            requestStarts := gm_put address (map (\<lambda>i. (i, started)) ids) (requestStarts wd)\<rparr>)"

definition RestoreState :: "time \<Rightarrow> watchdog_state \<Rightarrow> watchdog \<Rightarrow> watchdog" where
  "RestoreState now st wd =
     (let infl = (case S_InFlight st of Some m \<Rightarrow> m | None \<Rightarrow> map (\<lambda>(a, _). (a, 1)) (S_BusyTime st));
          wd1 = wd\<lparr>addressModelMap := S_AddressModelMap st, busyTime := S_BusyTime st, inFlight := infl,
                   requestStarts := [], legacyRequests := []\<rparr>;
          wd2 = fold (restore_address now) infl wd1
      in wd2\<lparr>idleTime := S_IdleTime st, lastUsed := S_LastUsed st, addressMap := S_AddressMap st\<rparr>)"

section \<open>Forgetting a backend\<close>

definition untrackModelLocked :: "string \<Rightarrow> watchdog \<Rightarrow> watchdog" where
  "untrackModelLocked address wd =
     (let wd1 = (case gm_get (addressModelMap wd) address of
                   None \<Rightarrow> wd
                 | Some modelID \<Rightarrow>
                     if list_ex (\<lambda>(addr, name). addr \<noteq> address \<and> name = modelID) (addressModelMap wd) then wd
                     else wd\<lparr>modelSizes := gm_del modelID (modelSizes wd)\<rparr>)
      in wd1\<lparr>addressModelMap := gm_del address (addressModelMap wd), addressMap := gm_del address (addressMap wd)\<rparr>)"

definition clearRequestStateLocked :: "string \<Rightarrow> watchdog \<Rightarrow> watchdog" where
  "clearRequestStateLocked address wd =
     wd\<lparr>busyTime := gm_del address (busyTime wd), inFlight := gm_del address (inFlight wd),
        requestStarts := gm_del address (requestStarts wd),
        legacyRequests := gm_del address (legacyRequests wd),
        idleTime := gm_del address (idleTime wd), lastUsed := gm_del address (lastUsed wd)\<rparr>"

definition untrack :: "string \<Rightarrow> watchdog \<Rightarrow> watchdog" where
  "untrack address wd = clearRequestStateLocked address (untrackModelLocked address wd)"

definition Untrack :: "string \<Rightarrow> watchdog \<Rightarrow> watchdog" where
  "Untrack address wd = untrack address wd"

definition untrackProcess :: "process \<Rightarrow> watchdog \<Rightarrow> watchdog" where
  "untrackProcess p wd =
     fold (\<lambda>(address, tracked) w. if tracked = p then untrack address w else w) (addressMap wd) wd"

section \<open>Evictions\<close>

record model_usage =
  u_address :: string
  u_model :: string
  u_lastUsed :: time
  u_sizeBytes :: int

record detached_backend =
  d_model :: string
  d_process :: process
  d_size :: int
  d_hasSize :: bool

record eviction_target =
  t_address :: string
  t_model :: string
  t_wasBusy :: bool
  t_detached :: "detached_backend option"

definition detachForEvictionLocked :: "string \<Rightarrow> watchdog \<Rightarrow> detached_backend option \<times> watchdog" where
  "detachForEvictionLocked address wd =
     (case gm_get (addressModelMap wd) address of
        None \<Rightarrow> (None, wd)
      | Some model \<Rightarrow>
          let d = \<lparr>d_model = model, d_process = gm_get0 None (addressMap wd) address,
                   d_size = gm_get0 0 (modelSizes wd) model,
                   d_hasSize = (gm_get (modelSizes wd) model \<noteq> None)\<rparr>;
              wd1 = untrackModelLocked address wd
          in (Some d,
              wd1\<lparr>pendingEvictions := gm_put address (gm_get0 0 (pendingEvictions wd1) address + 1) (pendingEvictions wd1)\<rparr>))"

definition finishEviction :: "eviction_target \<Rightarrow> bool \<Rightarrow> watchdog \<Rightarrow> watchdog" where
  "finishEviction t keep wd =
     (let a = t_address t;
          n = gm_get0 0 (pendingEvictions wd) a;
          wd1 = wd\<lparr>pendingEvictions :=
                     (if n \<le> 1 then gm_del a (pendingEvictions wd) else gm_put a (n - 1) (pendingEvictions wd))\<rparr>
      in if gm_get (addressModelMap wd1) a \<noteq> None then wd1
         else case t_detached t of
                None \<Rightarrow> clearRequestStateLocked a wd1
              | Some d \<Rightarrow>
                  if \<not> keep then clearRequestStateLocked a wd1
                  else wd1\<lparr>addressModelMap := gm_put a (d_model d) (addressModelMap wd1),
                           addressMap := (if d_process d \<noteq> None then gm_put a (d_process d) (addressMap wd1)
                                          else addressMap wd1),
                           modelSizes := (if d_hasSize d \<and> gm_get (modelSizes wd1) (d_model d) = None
                                          then gm_put (d_model d) (d_size d) (modelSizes wd1)
                                          else modelSizes wd1)\<rparr>)"

definition isBusy :: "watchdog \<Rightarrow> string \<Rightarrow> bool" where
  "isBusy wd address \<longleftrightarrow> gm_get (busyTime wd) address \<noteq> None"

text \<open>The loop of \<open>collectEvictionsLocked\<close>, with \<open>evicted\<close> and \<open>skippedBusy\<close> so far.\<close>

fun collectEvictionsLocked ::
  "model_usage list \<Rightarrow> int \<Rightarrow> bool \<Rightarrow> eviction_target list \<Rightarrow> int \<Rightarrow> watchdog
     \<Rightarrow> eviction_target list \<times> int \<times> watchdog" where
  "collectEvictionsLocked [] maxToEvict force evicted skippedBusy wd = (evicted, skippedBusy, wd)"
| "collectEvictionsLocked (m # ms) maxToEvict force evicted skippedBusy wd =
     (if \<not> int (length evicted) < maxToEvict then (evicted, skippedBusy, wd)
      else if IsModelPinned (u_model m) wd
      then collectEvictionsLocked ms maxToEvict force evicted skippedBusy wd
      else if isBusy wd (u_address m) \<and> \<not> force
      then collectEvictionsLocked ms maxToEvict force evicted (skippedBusy + 1) wd
      else
        let (d, wd1) = detachForEvictionLocked (u_address m) wd
        in collectEvictionsLocked ms maxToEvict force
             (evicted @ [\<lparr>t_address = u_address m, t_model = u_model m,
                          t_wasBusy = isBusy wd (u_address m), t_detached = d\<rparr>]) skippedBusy wd1)"

definition usage_of :: "watchdog \<Rightarrow> string \<times> string \<Rightarrow> model_usage" where
  "usage_of wd p =
     \<lparr>u_address = fst p, u_model = snd p, u_lastUsed = gm_get0 0 (lastUsed wd) (fst p),
      u_sizeBytes = gm_get0 0 (modelSizes wd) (snd p)\<rparr>"

definition usage_less :: "bool \<Rightarrow> model_usage \<Rightarrow> model_usage \<Rightarrow> bool" where
  "usage_less sizeAware a b \<longleftrightarrow>
     (if sizeAware \<and> u_sizeBytes a \<noteq> u_sizeBytes b then u_sizeBytes b - u_sizeBytes a < 0
      else u_lastUsed a < u_lastUsed b)"

definition eviction_order :: "watchdog \<Rightarrow> model_usage list" where
  "eviction_order wd = go_sort (usage_less (sizeAwareEviction wd)) (map (usage_of wd) (addressModelMap wd))"

section \<open>What runs under the lock\<close>

text \<open>
  The part of \<open>EnforceLRULimit\<close> under the lock: the targets it detached, how many are needed, how
  many were busy. \<open>None\<close> where it returns early.
\<close>

definition collect_lru :: "int \<Rightarrow> watchdog \<Rightarrow> (eviction_target list \<times> int \<times> int) option \<times> watchdog" where
  "collect_lru pendingLoads wd =
     (let modelsToEvict = int (length (addressModelMap wd)) - lruLimit wd + pendingLoads + 1
      in if lruLimit wd \<le> 0 \<or> modelsToEvict \<le> 0 then (None, wd)
         else
           let (ts, skipped, wd1) =
                 collectEvictionsLocked (eviction_order wd) modelsToEvict (forceEvictionWhenBusy wd) [] 0 wd
           in (Some (ts, modelsToEvict, skipped), wd1))"

definition groupsOverlap :: "string list \<Rightarrow> string list \<Rightarrow> bool" where
  "groupsOverlap a b = (if a = [] \<or> b = [] then False else list_ex (\<lambda>x. x \<in> set b) a)"

definition group_conflicts :: "string \<Rightarrow> watchdog \<Rightarrow> model_usage list" where
  "group_conflicts requestedModel wd =
     map (\<lambda>p. (usage_of wd p)\<lparr>u_sizeBytes := 0\<rparr>)
       (filter (\<lambda>(_, name). name \<noteq> requestedModel
                  \<and> groupsOverlap (gm_get0 [] (modelGroups wd) requestedModel) (gm_get0 [] (modelGroups wd) name))
          (addressModelMap wd))"

definition collect_group :: "string \<Rightarrow> watchdog \<Rightarrow> (eviction_target list \<times> int) option \<times> watchdog" where
  "collect_group requestedModel wd =
     (let conflicts = group_conflicts requestedModel wd
      in if gm_get0 [] (modelGroups wd) requestedModel = [] \<or> conflicts = [] then (None, wd)
         else
           let (ts, _, wd1) =
                 collectEvictionsLocked (go_sort (usage_less False) conflicts) (int (length conflicts))
                   (forceEvictionWhenBusy wd) [] 0 wd
           in (Some (ts, int (length conflicts)), wd1))"

text \<open>One round of the loops of \<open>checkIdle\<close> and of \<open>checkBusy\<close>, on an address and its time.\<close>

definition idle_step ::
  "time \<Rightarrow> string \<times> time \<Rightarrow> eviction_target list \<times> watchdog \<Rightarrow> eviction_target list \<times> watchdog" where
  "idle_step now p s =
     (let address = fst p; ts = fst s; wd = snd s
      in if gm_get0 0 (pendingEvictions wd) address > 0 \<or> \<not> time_sub now (snd p) > idletimeout wd then s
         else case gm_get (addressModelMap wd) address of
                None \<Rightarrow> (ts, untrack address wd)
              | Some model \<Rightarrow>
                  if IsModelPinned model wd then s
                  else let (d, wd1) = detachForEvictionLocked address wd
                       in (ts @ [\<lparr>t_address = address, t_model = model, t_wasBusy = False, t_detached = d\<rparr>], wd1))"

definition collect_idle :: "time \<Rightarrow> watchdog \<Rightarrow> eviction_target list \<times> watchdog" where
  "collect_idle now wd = fold (idle_step now) (idleTime wd) ([], wd)"

definition busy_step ::
  "time \<Rightarrow> string \<times> time \<Rightarrow> eviction_target list \<times> watchdog \<Rightarrow> eviction_target list \<times> watchdog" where
  "busy_step now p s =
     (let address = fst p; ts = fst s; wd = snd s
      in if gm_get0 0 (pendingEvictions wd) address > 0 \<or> \<not> time_sub now (snd p) > wtimeout wd then s
         else case gm_get (addressModelMap wd) address of
                None \<Rightarrow> (ts, untrack address wd)
              | Some model \<Rightarrow>
                  let (d, wd1) = detachForEvictionLocked address wd
                  in (ts @ [\<lparr>t_address = address, t_model = model, t_wasBusy = True, t_detached = d\<rparr>], wd1))"

definition collect_busy :: "time \<Rightarrow> watchdog \<Rightarrow> eviction_target list \<times> watchdog" where
  "collect_busy now wd = fold (busy_step now) (busyTime wd) ([], wd)"

text \<open>The selection of \<open>evictLRUModel\<close>: the first candidate that may be evicted. It is not detached.\<close>

definition select_lru :: "watchdog \<Rightarrow> eviction_target option" where
  "select_lru wd =
     (case find (\<lambda>m. \<not> IsModelPinned (u_model m) wd \<and> \<not> (isBusy wd (u_address m) \<and> \<not> forceEvictionWhenBusy wd))
             (eviction_order wd) of
        None \<Rightarrow> None
      | Some m \<Rightarrow> Some \<lparr>t_address = u_address m, t_model = u_model m,
                         t_wasBusy = isBusy wd (u_address m), t_detached = None\<rparr>)"

text \<open>The operations that run under the lock, one step each.\<close>

datatype wd_op =
    OpTrack string
  | OpComplete string nat
  | OpMark string
  | OpUnMark string
  | OpUpdateLastUsed string
  | OpAddModel string string
  | OpAdd string process
  | OpUntrack string
  | OpUntrackProcess process
  | OpRegisterSize string int
  | OpSetPinned "string list"
  | OpSetGroups "(string, string list) gomap"
  | OpSetLRULimit int
  | OpSetMemoryReclaimer bool real
  | OpSetForce bool
  | OpSetSizeAware bool
  | OpCollectLRU int
  | OpCollectGroup string
  | OpCollectIdle
  | OpCollectBusy
  | OpFinishEviction eviction_target bool

fun wd_apply :: "time \<Rightarrow> wd_op \<Rightarrow> watchdog \<Rightarrow> watchdog" where
  "wd_apply now (OpTrack a) wd = snd (TrackRequest now a wd)"
| "wd_apply now (OpComplete a i) wd = complete_request now a i False wd"
| "wd_apply now (OpMark a) wd = Mark now a wd"
| "wd_apply now (OpUnMark a) wd = UnMark now a wd"
| "wd_apply now (OpUpdateLastUsed a) wd = UpdateLastUsed now a wd"
| "wd_apply now (OpAddModel a m) wd = AddAddressModelMap a m wd"
| "wd_apply now (OpAdd a p) wd = Add a p wd"
| "wd_apply now (OpUntrack a) wd = Untrack a wd"
| "wd_apply now (OpUntrackProcess p) wd = untrackProcess p wd"
| "wd_apply now (OpRegisterSize m n) wd = RegisterModelSize m n wd"
| "wd_apply now (OpSetPinned ms) wd = SetPinnedModels ms wd"
| "wd_apply now (OpSetGroups gs) wd = ReplaceModelGroups gs wd"
| "wd_apply now (OpSetLRULimit n) wd = SetLRULimit n wd"
| "wd_apply now (OpSetMemoryReclaimer b r) wd = SetMemoryReclaimer b r wd"
| "wd_apply now (OpSetForce b) wd = SetForceEvictionWhenBusy b wd"
| "wd_apply now (OpSetSizeAware b) wd = SetSizeAwareEviction b wd"
| "wd_apply now (OpCollectLRU n) wd = snd (collect_lru n wd)"
| "wd_apply now (OpCollectGroup m) wd = snd (collect_group m wd)"
| "wd_apply now OpCollectIdle wd = snd (collect_idle now wd)"
| "wd_apply now OpCollectBusy wd = snd (collect_busy now wd)"
| "wd_apply now (OpFinishEviction t k) wd = finishEviction t k wd"

definition wd_run :: "(time \<times> wd_op) list \<Rightarrow> watchdog \<Rightarrow> watchdog" where
  "wd_run ops wd = fold (\<lambda>(now, op). wd_apply now op) ops wd"

section \<open>Stopping what was evicted\<close>

datatype stop_result = StopOk | StopNotFound | StopFailed

text \<open>
  The process manager, which the watchdog only calls: the optional methods the code looks for by a
  type assertion, the two it always has, and what other goroutines do to the watchdog while the stop
  of a target is under way.
\<close>

record process_manager =
  pm_ShutdownModelAtAddress :: "(string \<Rightarrow> string \<Rightarrow> bool \<Rightarrow> stop_result) option"
  pm_ShutdownModelForce :: "string \<Rightarrow> stop_result"
  pm_ShutdownModel :: "string \<Rightarrow> stop_result"
  pm_HasModelAtAddress :: "(string \<Rightarrow> string \<Rightarrow> bool) option"
  pm_meanwhile :: "eviction_target \<Rightarrow> (time \<times> wd_op) list"

definition shutdownTarget :: "process_manager \<Rightarrow> eviction_target \<Rightarrow> stop_result" where
  "shutdownTarget pm t =
     (case pm_ShutdownModelAtAddress pm of
        Some f \<Rightarrow> f (t_model t) (t_address t) (t_wasBusy t)
      | None \<Rightarrow> if t_wasBusy t then pm_ShutdownModelForce pm (t_model t) else pm_ShutdownModel pm (t_model t))"

definition stillResident :: "process_manager \<Rightarrow> eviction_target \<Rightarrow> bool" where
  "stillResident pm t =
     (case pm_HasModelAtAddress pm of Some f \<Rightarrow> f (t_model t) (t_address t) | None \<Rightarrow> True)"

definition stop_fails :: "process_manager \<Rightarrow> eviction_target \<Rightarrow> bool" where
  "stop_fails pm t \<longleftrightarrow> shutdownTarget pm t \<noteq> StopOk \<and> shutdownTarget pm t \<noteq> StopNotFound"

definition shutdown_one :: "process_manager \<Rightarrow> eviction_target \<Rightarrow> int \<times> watchdog \<Rightarrow> int \<times> watchdog" where
  "shutdown_one pm t s =
     (let wd1 = wd_run (pm_meanwhile pm t) (snd s)
      in if stop_fails pm t
         then (fst s, finishEviction t (stillResident pm t) wd1)
         else (fst s + 1, finishEviction t False wd1))"

definition shutdownEvictedStopped ::
  "process_manager \<Rightarrow> eviction_target list \<Rightarrow> watchdog \<Rightarrow> int \<times> watchdog" where
  "shutdownEvictedStopped pm targets wd = fold (shutdown_one pm) targets (0, wd)"

definition shutdownEvicted :: "process_manager \<Rightarrow> eviction_target list \<Rightarrow> watchdog \<Rightarrow> watchdog" where
  "shutdownEvicted pm targets wd = snd (shutdownEvictedStopped pm targets wd)"

record enforce_result =
  EvictedCount :: int
  NeedMore :: bool

definition EnforceLRULimit :: "process_manager \<Rightarrow> int \<Rightarrow> watchdog \<Rightarrow> enforce_result \<times> watchdog" where
  "EnforceLRULimit pm pendingLoads wd =
     (case collect_lru pendingLoads wd of
        (None, wd1) \<Rightarrow> (\<lparr>EvictedCount = 0, NeedMore = False\<rparr>, wd1)
      | (Some (ts, modelsToEvict, skippedBusy), wd1) \<Rightarrow>
          let needMore = (int (length ts) < modelsToEvict \<and> skippedBusy > 0);
              (stopped, wd2) = shutdownEvictedStopped pm ts wd1
          in (\<lparr>EvictedCount = stopped, NeedMore = (needMore \<or> stopped < int (length ts))\<rparr>, wd2))"

definition EnforceGroupExclusivity :: "process_manager \<Rightarrow> string \<Rightarrow> watchdog \<Rightarrow> enforce_result \<times> watchdog" where
  "EnforceGroupExclusivity pm requestedModel wd =
     (case collect_group requestedModel wd of
        (None, wd1) \<Rightarrow> (\<lparr>EvictedCount = 0, NeedMore = False\<rparr>, wd1)
      | (Some (ts, nConflicts), wd1) \<Rightarrow>
          let needMore = (int (length ts) < nConflicts);
              (stopped, wd2) = shutdownEvictedStopped pm ts wd1
          in (\<lparr>EvictedCount = stopped, NeedMore = (needMore \<or> stopped < int (length ts))\<rparr>, wd2))"

section \<open>The periodic checks\<close>

definition checkIdle :: "process_manager \<Rightarrow> time \<Rightarrow> watchdog \<Rightarrow> watchdog" where
  "checkIdle pm now wd = (let (ts, wd1) = collect_idle now wd in shutdownEvicted pm ts wd1)"

definition checkBusy :: "process_manager \<Rightarrow> time \<Rightarrow> watchdog \<Rightarrow> watchdog" where
  "checkBusy pm now wd = (let (ts, wd1) = collect_busy now wd in shutdownEvicted pm ts wd1)"

definition evictLRUModel :: "process_manager \<Rightarrow> watchdog \<Rightarrow> watchdog" where
  "evictLRUModel pm wd =
     (case select_lru wd of
        None \<Rightarrow> wd
      | Some t \<Rightarrow>
          let wd1 = wd_run (pm_meanwhile pm t) wd
          in if stop_fails pm t
             then (if \<not> stillResident pm t then untrack (t_address t) wd1 else wd1)
             else untrack (t_address t) wd1)"

record aggregate_info =
  TotalMemory :: nat
  UsagePercent :: real

definition checkMemory :: "process_manager \<Rightarrow> aggregate_info \<Rightarrow> watchdog \<Rightarrow> watchdog" where
  "checkMemory pm agg wd =
     (if \<not> memoryReclaimerEnabled wd \<or> memoryReclaimerThreshold wd \<le> 0 \<or> addressModelMap wd = [] then wd
      else if TotalMemory agg = 0 then wd
      else if UsagePercent agg > memoryReclaimerThreshold wd * 100 then evictLRUModel pm wd
      else wd)"

text \<open>One round of \<open>Run\<close> when its timer fires; \<open>None\<close> where no check is enabled and it returns.\<close>

definition run_checks :: "process_manager \<Rightarrow> time \<Rightarrow> aggregate_info \<Rightarrow> watchdog \<Rightarrow> watchdog option" where
  "run_checks pm now agg wd =
     (let b = busyCheck wd; i = idleCheck wd; m = memoryReclaimerEnabled wd
      in if \<not> b \<and> \<not> i \<and> \<not> m then None
         else
           let wd1 = (if b then checkBusy pm now wd else wd);
               wd2 = (if i then checkIdle pm now wd1 else wd1)
           in Some (if m then checkMemory pm agg wd2 else wd2))"

section \<open>The loader's retries\<close>

text \<open>
  \<open>retryEnforce\<close> of \<^verbatim>\<open>initializers.go\<close>: \<open>waits\<close> is what happens to the watchdog during the
  pauses between the attempts.
\<close>

fun retryEnforce ::
  "(watchdog \<Rightarrow> enforce_result \<times> watchdog) \<Rightarrow> nat \<Rightarrow> (nat \<Rightarrow> (time \<times> wd_op) list) \<Rightarrow> watchdog \<Rightarrow> bool \<times> watchdog" where
  "retryEnforce fn 0 waits wd = (False, wd)"
| "retryEnforce fn (Suc n) waits wd =
     (let (r, wd1) = fn wd
      in if \<not> NeedMore r then (True, wd1)
         else retryEnforce fn n waits (if n > 0 then wd_run (waits n) wd1 else wd1))"

section \<open>What each step leaves alone\<close>

lemma untrackModelLocked_frame [simp]:
  "busyTime (untrackModelLocked a wd) = busyTime wd"
  "inFlight (untrackModelLocked a wd) = inFlight wd"
  "requestStarts (untrackModelLocked a wd) = requestStarts wd"
  "legacyRequests (untrackModelLocked a wd) = legacyRequests wd"
  "nextRequestID (untrackModelLocked a wd) = nextRequestID wd"
  "idleTime (untrackModelLocked a wd) = idleTime wd"
  "lastUsed (untrackModelLocked a wd) = lastUsed wd"
  "pendingEvictions (untrackModelLocked a wd) = pendingEvictions wd"
  "pinnedModels (untrackModelLocked a wd) = pinnedModels wd"
  "modelGroups (untrackModelLocked a wd) = modelGroups wd"
  "forceEvictionWhenBusy (untrackModelLocked a wd) = forceEvictionWhenBusy wd"
  "lruLimit (untrackModelLocked a wd) = lruLimit wd"
  "idletimeout (untrackModelLocked a wd) = idletimeout wd"
  "wtimeout (untrackModelLocked a wd) = wtimeout wd"
  "addressModelMap (untrackModelLocked a wd) = gm_del a (addressModelMap wd)"
  "addressMap (untrackModelLocked a wd) = gm_del a (addressMap wd)"
  by (simp_all add: untrackModelLocked_def Let_def split: option.splits)

lemma detach_frame [simp]:
  "busyTime (snd (detachForEvictionLocked a wd)) = busyTime wd"
  "inFlight (snd (detachForEvictionLocked a wd)) = inFlight wd"
  "requestStarts (snd (detachForEvictionLocked a wd)) = requestStarts wd"
  "legacyRequests (snd (detachForEvictionLocked a wd)) = legacyRequests wd"
  "nextRequestID (snd (detachForEvictionLocked a wd)) = nextRequestID wd"
  "idleTime (snd (detachForEvictionLocked a wd)) = idleTime wd"
  "lastUsed (snd (detachForEvictionLocked a wd)) = lastUsed wd"
  "pinnedModels (snd (detachForEvictionLocked a wd)) = pinnedModels wd"
  "modelGroups (snd (detachForEvictionLocked a wd)) = modelGroups wd"
  "forceEvictionWhenBusy (snd (detachForEvictionLocked a wd)) = forceEvictionWhenBusy wd"
  "lruLimit (snd (detachForEvictionLocked a wd)) = lruLimit wd"
  "idletimeout (snd (detachForEvictionLocked a wd)) = idletimeout wd"
  "wtimeout (snd (detachForEvictionLocked a wd)) = wtimeout wd"
  "addressModelMap (snd (detachForEvictionLocked a wd)) = gm_del a (addressModelMap wd)"
  by (simp_all add: detachForEvictionLocked_def Let_def delete_idem map_of_eq_None_iff split: option.splits)

lemma clear_frame [simp]:
  "pinnedModels (clearRequestStateLocked a wd) = pinnedModels wd"
  "modelGroups (clearRequestStateLocked a wd) = modelGroups wd"
  "addressModelMap (clearRequestStateLocked a wd) = addressModelMap wd"
  "addressMap (clearRequestStateLocked a wd) = addressMap wd"
  "pendingEvictions (clearRequestStateLocked a wd) = pendingEvictions wd"
  "forceEvictionWhenBusy (clearRequestStateLocked a wd) = forceEvictionWhenBusy wd"
  "nextRequestID (clearRequestStateLocked a wd) = nextRequestID wd"
  "idletimeout (clearRequestStateLocked a wd) = idletimeout wd"
  "wtimeout (clearRequestStateLocked a wd) = wtimeout wd"
  by (simp_all add: clearRequestStateLocked_def)

lemma untrack_frame [simp]:
  "pinnedModels (untrack a wd) = pinnedModels wd"
  "modelGroups (untrack a wd) = modelGroups wd"
  "addressModelMap (untrack a wd) = gm_del a (addressModelMap wd)"
  "pendingEvictions (untrack a wd) = pendingEvictions wd"
  "forceEvictionWhenBusy (untrack a wd) = forceEvictionWhenBusy wd"
  "nextRequestID (untrack a wd) = nextRequestID wd"
  "idletimeout (untrack a wd) = idletimeout wd"
  "wtimeout (untrack a wd) = wtimeout wd"
  by (simp_all add: untrack_def)

section \<open>The accounting of requests\<close>

text \<open>
  The invariant of the request maps at time \<open>T\<close>: the in-flight count of an address is the number of
  its active requests, its busy time the start of the oldest of them, and an address that is idle or
  unknown has none. All starts lie between the zero time and \<open>T\<close>.
\<close>

definition requests_ok :: "time \<Rightarrow> watchdog \<Rightarrow> bool" where
  "requests_ok T wd \<longleftrightarrow>
     (\<forall>a. gm_get (inFlight wd) a = map_option (\<lambda>ss. int (length ss)) (gm_get (requestStarts wd) a))
     \<and> (\<forall>a. gm_get (busyTime wd) a = map_option (\<lambda>ss. Min (snd ` set ss)) (gm_get (requestStarts wd) a))
     \<and> (\<forall>a ss. gm_get (requestStarts wd) a = Some ss \<longrightarrow>
          ss \<noteq> [] \<and> distinct (gm_keys ss) \<and> (\<forall>p \<in> set ss. fst p \<le> nextRequestID wd \<and> 0 < snd p \<and> snd p \<le> T))
     \<and> (\<forall>a. gm_get (idleTime wd) a \<noteq> None \<longrightarrow> gm_get (requestStarts wd) a = None)"

lemma requests_ok_cong:
  assumes "requests_ok T wd" and "inFlight wd' = inFlight wd" and "busyTime wd' = busyTime wd"
    and "requestStarts wd' = requestStarts wd" and "idleTime wd' = idleTime wd"
    and "nextRequestID wd' = nextRequestID wd"
  shows "requests_ok T wd'"
  using assms by (simp add: requests_ok_def)

lemma requests_ok_mono: "requests_ok T wd \<Longrightarrow> T \<le> T' \<Longrightarrow> requests_ok T' wd"
  by (fastforce simp: requests_ok_def)

lemma requests_ok_NewWatchDog: "requests_ok T (NewWatchDog opts)"
  by (simp add: requests_ok_def NewWatchDog_def Let_def)

lemma requests_ok_clear: "requests_ok T wd \<Longrightarrow> requests_ok T (clearRequestStateLocked a wd)"
  by (auto simp: requests_ok_def clearRequestStateLocked_def gm_get_del)

lemma oldest_start_fold:
  assumes "\<forall>p \<in> set ss. 0 < snd p" and "0 < b"
  shows "fold (\<lambda>p oldest. if is_zero oldest \<or> snd p < oldest then snd p else oldest) ss b
         = Min (insert b (snd ` set ss))"
  using assms
proof (induction ss arbitrary: b)
  case Nil
  then show ?case by simp
next
  case (Cons p ss)
  let ?b = "if snd p < b then snd p else b"
  have "0 < ?b" using Cons.prems by simp
  then have "fold (\<lambda>p oldest. if is_zero oldest \<or> snd p < oldest then snd p else oldest) ss ?b
      = Min (insert ?b (snd ` set ss))"
    using Cons by simp
  moreover have "Min (insert ?b (snd ` set ss)) = Min (insert b (snd ` set (p # ss)))"
    using Min_in [of "insert ?b (snd ` set ss)"]
    by (intro Min_eqI [symmetric]) (auto simp: Min_le_iff split: if_splits)
  ultimately show ?case using Cons.prems by (simp add: is_zero_def)
qed

lemma oldest_start_Min:
  assumes "\<forall>p \<in> set ss. 0 < snd p" and "ss \<noteq> []"
  shows "oldest_start ss = Min (snd ` set ss)"
proof (cases ss)
  case Nil
  with assms show ?thesis by simp
next
  case (Cons p ss')
  with assms oldest_start_fold [of ss' "snd p"] show ?thesis
    by (simp add: oldest_start_def is_zero_def)
qed

lemma requests_ok_fresh:
  assumes "requests_ok T wd"
  shows "nextRequestID wd + 1 \<notin> set (gm_keys (gm_get0 [] (requestStarts wd) a))"
proof (cases "gm_get (requestStarts wd) a")
  case None
  then show ?thesis by (simp add: gm_get0_def)
next
  case (Some ss)
  with assms have "\<forall>p \<in> set ss. fst p \<le> nextRequestID wd" by (simp add: requests_ok_def)
  with Some show ?thesis by (auto simp: gm_get0_def)
qed

lemma requests_ok_begin:
  assumes ok: "requests_ok T wd" and "T \<le> now" and "0 < now"
  shows "requests_ok now (snd (beginRequestLocked now a legacy wd))"
proof -
  define i where "i = nextRequestID wd + 1"
  define old where "old = gm_get0 [] (requestStarts wd) a"
  have fresh: "i \<notin> set (gm_keys old)"
    using requests_ok_fresh [OF ok] by (simp add: i_def old_def)
  then have starts: "gm_put i now old = old @ [(i, now)]" by (rule gm_put_fresh)
  have old: "distinct (gm_keys old) \<and> (\<forall>p \<in> set old. fst p \<le> nextRequestID wd \<and> 0 < snd p \<and> snd p \<le> T)"
  proof (cases "gm_get (requestStarts wd) a")
    case None
    then show ?thesis by (simp add: old_def gm_get0_def)
  next
    case (Some ss)
    with ok show ?thesis unfolding requests_ok_def old_def gm_get0_def by simp
  qed
  have mn: "Min (insert now (snd ` set old)) = Min (snd ` set old)" if "old \<noteq> []"
  proof -
    have "Min (snd ` set old) \<le> now"
      using that old \<open>T \<le> now\<close> by (cases old) (auto simp: Min_le_iff intro!: min.coboundedI1)
    with that show ?thesis by (simp add: Min_insert)
  qed
  have busy: "gm_get (busyTime wd) a = Some (Min (snd ` set old))" if "old \<noteq> []"
    using that ok by (auto simp: old_def requests_ok_def gm_get0_def split: option.splits)
  have later: "\<forall>b ss. gm_get (requestStarts wd) b = Some ss \<longrightarrow>
      ss \<noteq> [] \<and> distinct (gm_keys ss) \<and> (\<forall>p \<in> set ss. fst p \<le> i \<and> 0 < snd p \<and> snd p \<le> now)"
    using ok \<open>T \<le> now\<close> by (fastforce simp: requests_ok_def i_def)
  show ?thesis
    using ok old fresh later \<open>T \<le> now\<close> \<open>0 < now\<close> mn busy
    unfolding requests_ok_def beginRequestLocked_def Let_def i_def [symmetric] old_def [symmetric] starts
    by (auto simp: gm_get_put gm_get_del i_def)
qed

lemma requests_ok_finish:
  assumes ok: "requests_ok T wd" and "T \<le> now" and "0 < now"
  shows "requests_ok now (finishRequestLocked now a i wd)"
proof (cases "gm_get (gm_get0 [] (requestStarts wd) a) i")
  case None
  with requests_ok_mono [OF ok \<open>T \<le> now\<close>] show ?thesis by (simp add: finishRequestLocked_def)
next
  case (Some s)
  define ss where "ss = gm_get0 [] (requestStarts wd) a"
  define rest where "rest = gm_del i ss"
  from Some have a: "gm_get (requestStarts wd) a = Some ss"
    by (auto simp: ss_def gm_get0_def split: option.splits)
  with ok have ss: "distinct (gm_keys ss)" "\<forall>p \<in> set ss. fst p \<le> nextRequestID wd \<and> 0 < snd p \<and> snd p \<le> T"
    by (auto simp: requests_ok_def)
  have sub: "set rest \<subseteq> set ss" by (auto simp: rest_def AList.delete_eq)
  have dist: "distinct (gm_keys rest)" using ss(1) by (simp add: rest_def)
  have rest: "\<forall>p \<in> set rest. fst p \<le> nextRequestID wd \<and> 0 < snd p \<and> snd p \<le> now"
    using sub ss(2) \<open>T \<le> now\<close> by fastforce
  have later: "\<forall>b ss. gm_get (requestStarts wd) b = Some ss \<longrightarrow>
      ss \<noteq> [] \<and> distinct (gm_keys ss) \<and> (\<forall>p \<in> set ss. fst p \<le> nextRequestID wd \<and> 0 < snd p \<and> snd p \<le> now)"
    using ok \<open>T \<le> now\<close> by (fastforce simp: requests_ok_def)
  have old: "oldest_start rest = Min (snd ` set rest)" if "rest \<noteq> []"
    using that rest oldest_start_Min by blast
  show ?thesis
    using ok dist rest later old a Some
    unfolding requests_ok_def finishRequestLocked_def Let_def ss_def [symmetric] rest_def [symmetric]
    by (auto simp: gm_get_put gm_get_del)
qed

lemma requests_ok_detach: "requests_ok T wd \<Longrightarrow> requests_ok T (snd (detachForEvictionLocked a wd))"
  by (rule requests_ok_cong) simp_all

lemma requests_ok_untrack: "requests_ok T wd \<Longrightarrow> requests_ok T (untrack a wd)"
  unfolding untrack_def by (intro requests_ok_clear, rule requests_ok_cong) simp_all

lemma requests_ok_finishEviction: "requests_ok T wd \<Longrightarrow> requests_ok T (finishEviction t keep wd)"
  unfolding finishEviction_def Let_def
  by (auto split: option.splits intro!: requests_ok_clear elim!: requests_ok_cong)

lemma collect_Cons:
  "collectEvictionsLocked (m # ms) mx force ev sk wd =
     (if \<not> int (length ev) < mx then (ev, sk, wd)
      else if IsModelPinned (u_model m) wd then collectEvictionsLocked ms mx force ev sk wd
      else if isBusy wd (u_address m) \<and> \<not> force then collectEvictionsLocked ms mx force ev (sk + 1) wd
      else collectEvictionsLocked ms mx force
             (ev @ [\<lparr>t_address = u_address m, t_model = u_model m, t_wasBusy = isBusy wd (u_address m),
                     t_detached = fst (detachForEvictionLocked (u_address m) wd)\<rparr>])
             sk (snd (detachForEvictionLocked (u_address m) wd)))"
  by (simp add: case_prod_beta Let_def)

declare collectEvictionsLocked.simps(2) [simp del]

lemma collect_invariant:
  assumes "P wd" and "\<And>a w. P w \<Longrightarrow> P (snd (detachForEvictionLocked a w))"
  shows "P (snd (snd (collectEvictionsLocked ms mx force ev sk wd)))"
  using assms(1)
proof (induction ms arbitrary: ev sk wd)
  case Nil
  then show ?case by simp
next
  case (Cons m ms)
  then show ?case using assms(2) by (cases force) (auto simp: collect_Cons)
qed

lemma requests_ok_collect:
  "requests_ok T wd \<Longrightarrow> requests_ok T (snd (snd (collectEvictionsLocked ms mx force ev sk wd)))"
  by (rule collect_invariant) (auto intro: requests_ok_detach)

lemma requests_ok_idle_step: "requests_ok T (snd s) \<Longrightarrow> requests_ok T (snd (idle_step now p s))"
  by (auto simp: idle_step_def Let_def case_prod_beta split: option.splits
      intro: requests_ok_untrack requests_ok_detach)

lemma requests_ok_busy_step: "requests_ok T (snd s) \<Longrightarrow> requests_ok T (snd (busy_step now p s))"
  by (auto simp: busy_step_def Let_def case_prod_beta split: option.splits
      intro: requests_ok_untrack requests_ok_detach)

lemma requests_ok_collectors:
  assumes "requests_ok T wd"
  shows "requests_ok T (snd (collect_lru n wd))"
    and "requests_ok T (snd (collect_group m wd))"
    and "requests_ok T (snd (collect_idle now wd))"
    and "requests_ok T (snd (collect_busy now wd))"
    and "requests_ok T (untrackProcess p wd)"
proof -
  show "requests_ok T (snd (collect_lru n wd))" and "requests_ok T (snd (collect_group m wd))"
    using assms by (simp_all add: collect_lru_def collect_group_def Let_def case_prod_beta requests_ok_collect)
  show "requests_ok T (snd (collect_idle now wd))" unfolding collect_idle_def
    by (rule fold_invariant) (auto simp: assms requests_ok_idle_step)
  show "requests_ok T (snd (collect_busy now wd))" unfolding collect_busy_def
    by (rule fold_invariant) (auto simp: assms requests_ok_busy_step)
  show "requests_ok T (untrackProcess p wd)" unfolding untrackProcess_def
    by (rule fold_invariant) (auto simp: assms requests_ok_untrack)
qed

lemma requests_ok_UnMark:
  assumes "requests_ok T wd" and "T \<le> now" and "0 < now"
  shows "requests_ok now (UnMark now a wd)"
proof -
  have "requests_ok T (wd\<lparr>legacyRequests := l\<rparr>)" for l
    using assms(1) by (rule requests_ok_cong) simp_all
  then have "requests_ok now (finishRequestLocked now a i (wd\<lparr>legacyRequests := l\<rparr>))" for l i
    using assms requests_ok_finish by blast
  with requests_ok_mono [OF assms(1,2)] show ?thesis
    by (simp add: UnMark_def Let_def)
qed

lemmas wd_setting_defs = UpdateLastUsed_def AddAddressModelMap_def Add_def RegisterModelSize_def SetPinnedModels_def
  ReplaceModelGroups_def SetLRULimit_def SetMemoryReclaimer_def SetForceEvictionWhenBusy_def SetSizeAwareEviction_def

lemma requests_ok_apply:
  assumes ok: "requests_ok T wd" and T: "T \<le> now" and pos: "0 < now"
  shows "requests_ok now (wd_apply now op wd)"
proof -
  have now: "requests_ok now wd" using ok T by (rule requests_ok_mono)
  show ?thesis
  proof (cases op)
    case (OpTrack a)
    then show ?thesis using requests_ok_begin [OF ok T pos] by (simp add: TrackRequest_def)
  next
    case (OpMark a)
    then show ?thesis using requests_ok_begin [OF ok T pos] by (simp add: Mark_def)
  next
    case (OpComplete a i)
    then show ?thesis using requests_ok_finish [OF ok T pos] by (simp add: complete_request_def)
  next
    case (OpUnMark a)
    then show ?thesis using requests_ok_UnMark [OF ok T pos] by simp
  qed (use now in \<open>auto simp: wd_setting_defs Untrack_def requests_ok_untrack requests_ok_collectors requests_ok_finishEviction
        elim!: requests_ok_cong\<close>)
qed

end
