(* ===== verification/WatchdogProps.thy ===== *)
theory WatchdogProps
  imports Watchdog
begin

text \<open>
  What the watchdog promises: exact accounting of the requests in flight, evictions that spare
  pinned and busy models, make the room they report and follow the eviction order, no backend lost
  when its stop fails, concurrency groups kept apart, and a state that survives the handover to a
  new watchdog.
\<close>

section \<open>The choice of the targets\<close>

definition evictable :: "bool \<Rightarrow> watchdog \<Rightarrow> model_usage \<Rightarrow> bool" where
  "evictable force wd m \<longleftrightarrow> \<not> IsModelPinned (u_model m) wd \<and> (isBusy wd (u_address m) \<longrightarrow> force)"

lemma detach_guards [simp]:
  "IsModelPinned m (snd (detachForEvictionLocked a wd)) = IsModelPinned m wd"
  "isBusy (snd (detachForEvictionLocked a wd)) b = isBusy wd b"
  "evictable force (snd (detachForEvictionLocked a wd)) = evictable force wd"
  by (simp_all add: IsModelPinned_def isBusy_def evictable_def fun_eq_iff)

text \<open>The targets are the first candidates, in order, that may be evicted.\<close>

lemma collect_full: "mx \<le> int (length ev) \<Longrightarrow> collectEvictionsLocked ms mx force ev sk wd = (ev, sk, wd)"
  by (cases ms) (simp_all add: collect_Cons)

lemma collect_skip:
  "int (length ev) < mx \<Longrightarrow> \<not> evictable force wd m \<Longrightarrow>
   collectEvictionsLocked (m # ms) mx force ev sk wd =
     collectEvictionsLocked ms mx force ev (if IsModelPinned (u_model m) wd then sk else sk + 1) wd"
  by (auto simp: collect_Cons evictable_def)

lemma collect_take:
  "int (length ev) < mx \<Longrightarrow> evictable force wd m \<Longrightarrow>
   collectEvictionsLocked (m # ms) mx force ev sk wd =
     collectEvictionsLocked ms mx force
       (ev @ [\<lparr>t_address = u_address m, t_model = u_model m, t_wasBusy = isBusy wd (u_address m),
               t_detached = fst (detachForEvictionLocked (u_address m) wd)\<rparr>])
       sk (snd (detachForEvictionLocked (u_address m) wd))"
  by (auto simp: collect_Cons evictable_def)

lemma collect_targets:
  "let r = collectEvictionsLocked ms mx force ev sk wd;
       chosen = take (nat (mx - int (length ev))) (filter (evictable force wd) ms)
   in map t_address (fst r) = map t_address ev @ map u_address chosen
      \<and> addressModelMap (snd (snd r)) = fold gm_del (map u_address chosen) (addressModelMap wd)"
proof (induction ms arbitrary: ev sk wd)
  case Nil
  then show ?case by simp
next
  case (Cons m ms)
  consider "mx \<le> int (length ev)" | "int (length ev) < mx" "\<not> evictable force wd m"
    | "int (length ev) < mx" "evictable force wd m" by linarith
  then show ?case
  proof cases
    case 1
    then show ?thesis by (simp add: collect_full)
  next
    case 2
    then show ?thesis using Cons.IH [of ev _ wd] by (simp add: collect_skip Let_def)
  next
    case 3
    define n where "n = nat (mx - int (length ev)) - 1"
    with 3 have n: "nat (mx - int (length ev)) = Suc n" "nat (mx - (1 + int (length ev))) = n" by auto
    show ?thesis
      using 3 Cons.IH [of "ev @ [_]" sk "snd (detachForEvictionLocked (u_address m) wd)"] n
      by (simp add: collect_take Let_def)
  qed
qed

lemma collect_skips_busy:
  assumes "collectEvictionsLocked ms mx force ev sk wd = (ts, sk', wd')" and "int (length ts) < mx"
  shows "sk' = sk + int (length (filter (\<lambda>m. \<not> IsModelPinned (u_model m) wd \<and> \<not> evictable force wd m) ms))"
  using assms
proof (induction ms arbitrary: ev sk wd)
  case Nil
  then show ?case by simp
next
  case (Cons m ms)
  have "length ev \<le> length ts"
    using Cons.prems(1) collect_targets [of "m # ms" mx force ev sk wd]
    by (metis fst_conv length_append length_map le_add1)
  with Cons.prems(2) have len: "int (length ev) < mx" by linarith
  show ?case
  proof (cases "evictable force wd m")
    case True
    with Cons.IH [OF Cons.prems(1) [unfolded collect_take [OF len True]] Cons.prems(2)] show ?thesis by simp
  next
    case False
    with Cons.prems Cons.IH len show ?thesis by (fastforce simp: collect_skip)
  qed
qed

section \<open>Settling the evictions\<close>

lemma finishEviction_get:
  "gm_get (addressModelMap (finishEviction t keep wd)) a =
     (if a = t_address t \<and> gm_get (addressModelMap wd) a = None \<and> keep
      then map_option d_model (t_detached t) else gm_get (addressModelMap wd) a)"
  by (auto simp: finishEviction_def Let_def gm_get_put split: option.splits)

lemma finishEviction_frame [simp]:
  "pinnedModels (finishEviction t keep wd) = pinnedModels wd"
  "modelGroups (finishEviction t keep wd) = modelGroups wd"
  "forceEvictionWhenBusy (finishEviction t keep wd) = forceEvictionWhenBusy wd"
  by (simp_all add: finishEviction_def Let_def split: option.splits)

lemma finishEviction_distinct:
  "distinct (gm_keys (addressModelMap wd)) \<Longrightarrow> distinct (gm_keys (addressModelMap (finishEviction t keep wd)))"
  by (simp add: finishEviction_def Let_def split: option.splits)

text \<open>A process manager during whose stops nothing else happens.\<close>

definition quiet_pm :: "process_manager \<Rightarrow> bool" where
  "quiet_pm pm \<longleftrightarrow> (\<forall>t. pm_meanwhile pm t = [])"

lemma shutdown_one_quiet:
  "quiet_pm pm \<Longrightarrow> shutdown_one pm t s =
     (if stop_fails pm t then (fst s, finishEviction t (stillResident pm t) (snd s))
      else (fst s + 1, finishEviction t False (snd s)))"
  by (simp add: shutdown_one_def quiet_pm_def wd_run_def)

lemma shutdown_frame:
  assumes "quiet_pm pm"
  shows "pinnedModels (snd (fold (shutdown_one pm) ts s)) = pinnedModels (snd s)"
    and "modelGroups (snd (fold (shutdown_one pm) ts s)) = modelGroups (snd s)"
    and "distinct (gm_keys (addressModelMap (snd s))) \<Longrightarrow>
         distinct (gm_keys (addressModelMap (snd (fold (shutdown_one pm) ts s))))"
  using assms by (induction ts arbitrary: s) (simp_all add: shutdown_one_quiet finishEviction_distinct)

lemma shutdown_other:
  assumes "quiet_pm pm" and "a \<notin> t_address ` set ts"
  shows "gm_get (addressModelMap (snd (fold (shutdown_one pm) ts s))) a = gm_get (addressModelMap (snd s)) a"
  using assms by (induction ts arbitrary: s) (auto simp: shutdown_one_quiet finishEviction_get)

lemma shutdown_count:
  assumes "quiet_pm pm"
  shows "fst (fold (shutdown_one pm) ts s) = fst s + int (length (filter (\<lambda>t. \<not> stop_fails pm t) ts))"
  using assms by (induction ts arbitrary: s) (auto simp: shutdown_one_quiet)

lemma shutdown_unfailing_length:
  assumes "quiet_pm pm" and "\<forall>t \<in> set ts. \<not> stop_fails pm t"
  shows "addressModelMap (snd (fold (shutdown_one pm) ts s)) = addressModelMap (snd s)"
  using assms
proof (induction ts arbitrary: s)
  case (Cons t ts)
  then have "addressModelMap (snd (shutdown_one pm t s)) = addressModelMap (snd s)"
    by (simp add: shutdown_one_quiet finishEviction_def Let_def split: option.splits)
  with Cons show ?case by simp
qed simp

section \<open>C26: requests\<close>

lemma wd_run_requests_ok:
  assumes "requests_ok T wd" and "sorted (T # map fst ops)" and "\<forall>p \<in> set ops. 0 < fst p"
  shows "\<exists>T'. requests_ok T' (wd_run ops wd)"
  using assms
proof (induction ops arbitrary: T wd)
  case Nil
  then show ?case by (auto simp: wd_run_def)
next
  case (Cons p ops)
  obtain now op where p: "p = (now, op)" by (cases p)
  with Cons.prems have "requests_ok now (wd_apply now op wd)" by (auto intro: requests_ok_apply)
  moreover have "sorted (now # map fst ops)" using Cons.prems p by simp
  ultimately show ?case using Cons p by (simp add: wd_run_def)
qed

text \<open>C20: after any sequence of operations at times that do not run backwards, an address either
  has no request in flight, no count and no busy time, or it has at least one, the count is their
  number, the busy time is the start of the oldest that is still active, and the address is not
  counted as idle.\<close>

theorem requests_accounted:
  assumes "sorted (map fst ops)" and "\<forall>p \<in> set ops. 0 < fst p" and "wd = wd_run ops (NewWatchDog opts)"
  shows "case gm_get (requestStarts wd) a of
           None \<Rightarrow> gm_get (inFlight wd) a = None \<and> gm_get (busyTime wd) a = None
         | Some starts \<Rightarrow>
             starts \<noteq> [] \<and> distinct (gm_keys starts)
             \<and> gm_get (inFlight wd) a = Some (int (length starts))
             \<and> gm_get (busyTime wd) a = Some (Min (snd ` set starts))
             \<and> gm_get (idleTime wd) a = None"
proof -
  have "sorted (0 # map fst ops)" using assms(1,2) by auto
  then obtain T where "requests_ok T wd"
    using wd_run_requests_ok [OF requests_ok_NewWatchDog _ assms(2)] assms(3) by blast
  then show ?thesis unfolding requests_ok_def by (cases "gm_get (requestStarts wd) a") fastforce+
qed

theorem requests_accounted_witness:
  "let wd = wd_run [(5, OpTrack ''a''), (7, OpTrack ''a''), (9, OpComplete ''a'' 1)] (NewWatchDog [])
   in gm_get (inFlight wd) ''a'' = Some 1 \<and> gm_get (busyTime wd) ''a'' = Some 7"
proof -
  let ?ops = "[(5, OpTrack ''a''), (7, OpTrack ''a''), (9, OpComplete ''a'' 1)]"
  have "gm_get (requestStarts (wd_run ?ops (NewWatchDog []))) ''a'' = Some [(2, 7)]" by code_simp
  with requests_accounted [of ?ops "wd_run ?ops (NewWatchDog [])" "[]" "''a''"] show ?thesis by simp
qed

section \<open>C27: what is never evicted\<close>

definition spared :: "watchdog \<Rightarrow> string \<Rightarrow> string \<Rightarrow> bool" where
  "spared wd a m \<longleftrightarrow> IsModelPinned m wd \<or> isBusy wd a \<and> \<not> forceEvictionWhenBusy wd"

lemma collect_spared:
  assumes "spared wd a m" and "\<forall>u \<in> set ms. u_address u = a \<longrightarrow> u_model u = m"
    and "collectEvictionsLocked ms mx (forceEvictionWhenBusy wd) [] 0 wd = (ts, sk, wd')"
  shows "a \<notin> t_address ` set ts \<and> gm_get (addressModelMap wd') a = gm_get (addressModelMap wd) a"
proof -
  let ?chosen = "take (nat mx) (filter (evictable (forceEvictionWhenBusy wd) wd) ms)"
  have "a \<notin> u_address ` set ?chosen"
    using assms(1,2) by (auto simp: spared_def evictable_def dest!: in_set_takeD)
  moreover have "map t_address ts = map u_address ?chosen"
    and "addressModelMap wd' = fold gm_del (map u_address ?chosen) (addressModelMap wd)"
    using collect_targets [of ms mx "forceEvictionWhenBusy wd" "[]" 0 wd] assms(3) by (simp_all add: Let_def)
  ultimately show ?thesis by (metis gm_get_fold_del image_set)
qed

lemma eviction_order_model:
  assumes "distinct (gm_keys (addressModelMap wd))" and "gm_get (addressModelMap wd) a = Some m"
  shows "\<forall>u \<in> set (eviction_order wd). u_address u = a \<longrightarrow> u_model u = m"
    and "\<forall>u \<in> set (go_sort lt (group_conflicts r wd)). u_address u = a \<longrightarrow> u_model u = m"
  using assms by (auto simp: eviction_order_def group_conflicts_def usage_of_def dest: eq_key_imp_eq_value)

lemma shutdown_keeps:
  assumes "quiet_pm pm" and "a \<notin> t_address ` set ts"
  shows "gm_get (addressModelMap (snd (shutdownEvictedStopped pm ts wd))) a = gm_get (addressModelMap wd) a"
  using shutdown_other [OF assms, of "(0, wd)"] by (simp add: shutdownEvictedStopped_def)

lemma collect_idle_spared:
  assumes "gm_get (addressModelMap wd) a = Some m"
    and "IsModelPinned m wd \<or> a \<notin> fst ` set (idleTime wd)"
  shows "a \<notin> t_address ` set (fst (collect_idle now wd))
         \<and> gm_get (addressModelMap (snd (collect_idle now wd))) a = Some m"
proof -
  let ?P = "\<lambda>s. a \<notin> t_address ` set (fst s) \<and> gm_get (addressModelMap (snd s)) a = Some m
    \<and> pinnedModels (snd s) = pinnedModels wd"
  have "?P (fold (idle_step now) (idleTime wd) ([], wd))"
  proof (rule fold_invariant)
    show "?P (idle_step now p s)" if p: "p \<in> set (idleTime wd)" and s: "?P s" for p s
    proof (cases "fst p = a")
      case True
      with p assms(2) have "IsModelPinned m wd" by force
      with s have "IsModelPinned m (snd s)" by (simp add: IsModelPinned_def)
      with s True show ?thesis by (simp add: idle_step_def Let_def)
    next
      case False
      with s show ?thesis
        by (auto simp: idle_step_def Let_def case_prod_beta gm_get_del split: option.splits)
    qed
  qed (simp add: assms)
  then show ?thesis by (simp add: collect_idle_def)
qed

lemma select_lru_spared:
  assumes "distinct (gm_keys (addressModelMap wd))" and "gm_get (addressModelMap wd) a = Some m" and "spared wd a m"
    and "select_lru wd = Some t"
  shows "t_address t \<noteq> a"
proof
  assume "t_address t = a"
  with assms(4) obtain u where u: "find (\<lambda>m. \<not> IsModelPinned (u_model m) wd
        \<and> \<not> (isBusy wd (u_address m) \<and> \<not> forceEvictionWhenBusy wd)) (eviction_order wd) = Some u" "u_address u = a"
    by (auto simp: select_lru_def split: option.splits)
  then have "u \<in> set (eviction_order wd)" and "\<not> spared wd (u_address u) (u_model u)"
    by (auto simp: find_Some_iff spared_def in_set_conv_nth)
  with eviction_order_model(1) [OF assms(1,2)] u(2) assms(3) show False by auto
qed

lemma spared_kept:
  assumes "quiet_pm pm" and "distinct (gm_keys (addressModelMap wd))" and "requests_ok T wd"
    and "gm_get (addressModelMap wd) a = Some m"
    and "IsModelPinned m wd \<or> isBusy wd a \<and> \<not> forceEvictionWhenBusy wd"
  shows "gm_get (addressModelMap (snd (EnforceLRULimit pm n wd))) a = Some m
         \<and> gm_get (addressModelMap (snd (EnforceGroupExclusivity pm requested wd))) a = Some m
         \<and> gm_get (addressModelMap (checkIdle pm now wd)) a = Some m
         \<and> gm_get (addressModelMap (checkMemory pm agg wd)) a = Some m"
proof -
  have sp: "spared wd a m" using assms(5) by (simp add: spared_def)
  note ord = eviction_order_model [OF assms(2,4)]
  have lru: "gm_get (addressModelMap (snd (EnforceLRULimit pm n wd))) a = Some m"
  proof (cases "collectEvictionsLocked (eviction_order wd) (int (length (addressModelMap wd)) - lruLimit wd + n + 1)
                  (forceEvictionWhenBusy wd) [] 0 wd")
    case (fields ts sk wd1)
    with collect_spared [OF sp ord(1) fields] assms(1,4) show ?thesis
      by (simp add: EnforceLRULimit_def collect_lru_def Let_def case_prod_beta shutdown_keeps)
  qed
  have grp: "gm_get (addressModelMap (snd (EnforceGroupExclusivity pm requested wd))) a = Some m"
  proof (cases "collectEvictionsLocked (go_sort (usage_less False) (group_conflicts requested wd))
                  (int (length (group_conflicts requested wd))) (forceEvictionWhenBusy wd) [] 0 wd")
    case (fields ts sk wd1)
    with collect_spared [OF sp ord(2) fields] assms(1,4) show ?thesis
      by (simp add: EnforceGroupExclusivity_def collect_group_def Let_def case_prod_beta shutdown_keeps)
  qed
  have "IsModelPinned m wd \<or> a \<notin> fst ` set (idleTime wd)"
  proof (cases "isBusy wd a")
    case True
    with assms(3) have "gm_get (idleTime wd) a = None" by (fastforce simp: requests_ok_def isBusy_def)
    then show ?thesis by (simp add: map_of_eq_None_iff)
  qed (use assms(5) in simp)
  with collect_idle_spared [OF assms(4)] assms(1)
  have idle: "gm_get (addressModelMap (checkIdle pm now wd)) a = Some m"
    by (simp add: checkIdle_def shutdownEvicted_def case_prod_beta shutdown_keeps)
  have "gm_get (addressModelMap (evictLRUModel pm wd)) a = Some m"
    using select_lru_spared [OF assms(2,4) sp] assms(1,4)
    by (auto simp: evictLRUModel_def quiet_pm_def wd_run_def Let_def gm_get_del split: option.splits)
  then have mem: "gm_get (addressModelMap (checkMemory pm agg wd)) a = Some m"
    using assms(4) by (simp add: checkMemory_def)
  from lru grp idle mem show ?thesis by blast
qed


definition sample_pm :: process_manager where
  "sample_pm = \<lparr>pm_ShutdownModelAtAddress = None, pm_ShutdownModelForce = (\<lambda>_. StopOk),
     pm_ShutdownModel = (\<lambda>_. StopOk), pm_HasModelAtAddress = None, pm_meanwhile = (\<lambda>_. [])\<rparr>"

definition sample_wd :: watchdog where
  "sample_wd = wd_run [(1, OpAddModel ''a'' ''m1''), (2, OpAddModel ''b'' ''m2''), (3, OpTrack ''a''),
     (4, OpUpdateLastUsed ''b''), (5, OpSetPinned [''m1''])] (NewWatchDog [WithLRULimit 2])"

lemma sample_wd_ok: "requests_ok 5 sample_wd"
  unfolding sample_wd_def wd_run_def fold_simps comp_def prod.case id_def
  by (rule requests_ok_apply [where T = 4], rule requests_ok_apply [where T = 3],
      rule requests_ok_apply [where T = 2], rule requests_ok_apply [where T = 1],
      rule requests_ok_apply [where T = 0], rule requests_ok_NewWatchDog) simp_all

lemma sample_registry:
  "addressModelMap sample_wd = [(''a'', ''m1''), (''b'', ''m2'')]"
  "pinnedModels sample_wd = [(''m1'', True)]"
  "lruLimit sample_wd = 2"
  by code_simp+

lemma sample_pm_quiet: "quiet_pm sample_pm" "\<not> stop_fails sample_pm t"
  by (simp_all add: quiet_pm_def sample_pm_def stop_fails_def shutdownTarget_def)


section \<open>C28: the limit on loaded models\<close>

interpretation usage: strict_weak "usage_less sz"
  by unfold_locales (auto simp: usage_less_def split: if_splits)

lemma finishEviction_length:
  "length (addressModelMap wd) \<le> length (addressModelMap (finishEviction t keep wd))"
  by (simp add: finishEviction_def Let_def gm_length_put split: option.splits)

lemma shutdown_length:
  "quiet_pm pm \<Longrightarrow> length (addressModelMap (snd s)) \<le> length (addressModelMap (snd (fold (shutdown_one pm) ts s)))"
proof (induction ts arbitrary: s)
  case (Cons t ts)
  have "length (addressModelMap (snd s)) \<le> length (addressModelMap (snd (shutdown_one pm t s)))"
    using Cons.prems by (simp add: shutdown_one_quiet finishEviction_length)
  with Cons.IH [OF Cons.prems, of "shutdown_one pm t s"] show ?case by simp
qed simp

lemma map_u_address: "map u_address (map (usage_of wd) m) = gm_keys m"
  by (simp add: usage_of_def comp_def)

lemma eviction_order_addresses:
  assumes "distinct (gm_keys (addressModelMap wd))"
  shows "distinct (map u_address (eviction_order wd))"
    and "set (eviction_order wd) = usage_of wd ` set (addressModelMap wd)"
proof -
  have "distinct (map u_address (map (usage_of wd) (addressModelMap wd)))" using assms unfolding map_u_address .
  then have "distinct (map u_address (go_sort lt (map (usage_of wd) (addressModelMap wd))))" for lt
    by (metis (no_types, lifting) mset_go_sort mset_map mset_eq_imp_distinct_iff)
  then show "distinct (map u_address (eviction_order wd))" by (simp add: eviction_order_def)
  show "set (eviction_order wd) = usage_of wd ` set (addressModelMap wd)" by (simp add: eviction_order_def)
qed

text \<open>What \<open>collect_lru\<close> detaches, with \<open>k\<close> models needed.\<close>

lemma collect_lru_Some:
  assumes "distinct (gm_keys (addressModelMap wd))" and "collect_lru n wd = (Some (ts, k, sk), wd1)"
  defines "chosen \<equiv> take (nat k) (filter (evictable (forceEvictionWhenBusy wd) wd) (eviction_order wd))"
  shows "map t_address ts = map u_address chosen"
    and "addressModelMap wd1 = fold gm_del (map u_address chosen) (addressModelMap wd)"
    and "pinnedModels wd1 = pinnedModels wd"
    and "length (addressModelMap wd1) + length ts = length (addressModelMap wd)"
    and "k = int (length (addressModelMap wd)) - lruLimit wd + n + 1" and "0 < k"
    and "distinct (map t_address ts)" and "\<forall>t \<in> set ts. gm_get (addressModelMap wd1) (t_address t) = None"
    and "int (length ts) < k \<Longrightarrow> sk = int (length (filter (\<lambda>m. \<not> IsModelPinned (u_model m) wd
            \<and> \<not> evictable (forceEvictionWhenBusy wd) wd m) (eviction_order wd)))"
proof -
  have k: "k = int (length (addressModelMap wd)) - lruLimit wd + n + 1" "0 < k"
    and c: "collectEvictionsLocked (eviction_order wd) k (forceEvictionWhenBusy wd) [] 0 wd = (ts, sk, wd1)"
    using assms(2) by (auto simp: collect_lru_def Let_def case_prod_beta split: if_splits)
  have ts: "map t_address ts = map u_address chosen"
    and m1: "addressModelMap wd1 = fold gm_del (map u_address chosen) (addressModelMap wd)"
    using collect_targets [of "eviction_order wd" k "forceEvictionWhenBusy wd" "[]" 0 wd] c
    by (simp_all add: Let_def chosen_def)
  have pin: "pinnedModels wd1 = pinnedModels wd"
    using collect_invariant [of "\<lambda>w. pinnedModels w = pinnedModels wd" wd "eviction_order wd" k
        "forceEvictionWhenBusy wd" "[]" 0] c by simp
  have sub: "set chosen \<subseteq> set (eviction_order wd)" by (auto simp: chosen_def dest: in_set_takeD)
  have dist: "distinct (map u_address chosen)"
    using eviction_order_addresses(1) [OF assms(1)] unfolding chosen_def
    by (metis distinct_map_filter distinct_take take_map)
  have keys: "set (map u_address chosen) \<subseteq> set (gm_keys (addressModelMap wd))"
  proof -
    have "u_address ` set chosen \<subseteq> u_address ` usage_of wd ` set (addressModelMap wd)"
      using sub eviction_order_addresses(2) [OF assms(1)] by (intro image_mono) simp
    then show ?thesis by (simp add: image_image usage_of_def)
  qed
  then have "card (set (map u_address chosen)) \<le> card (set (gm_keys (addressModelMap wd)))"
    by (intro card_mono) auto
  then have le: "length chosen \<le> length (addressModelMap wd)"
    using dist assms(1) by (metis distinct_card length_map)
  have len: "length ts = length chosen" using ts by (metis length_map)
  have "length (addressModelMap wd1) = length (addressModelMap wd) - length chosen"
    unfolding m1 using gm_length_fold_del [OF dist keys assms(1)] by simp
  with le len have "length (addressModelMap wd1) + length ts = length (addressModelMap wd)" by simp
  moreover have "\<forall>t \<in> set ts. gm_get (addressModelMap wd1) (t_address t) = None"
    using ts by (metis gm_get_fold_del image_eqI image_set m1)
  moreover have "int (length ts) < k \<Longrightarrow> sk = int (length (filter (\<lambda>m. \<not> IsModelPinned (u_model m) wd
            \<and> \<not> evictable (forceEvictionWhenBusy wd) wd m) (eviction_order wd)))"
    using collect_skips_busy [OF c] by simp
  ultimately show "map t_address ts = map u_address chosen"
    and "addressModelMap wd1 = fold gm_del (map u_address chosen) (addressModelMap wd)"
    and "pinnedModels wd1 = pinnedModels wd"
    and "length (addressModelMap wd1) + length ts = length (addressModelMap wd)"
    and "k = int (length (addressModelMap wd)) - lruLimit wd + n + 1" and "0 < k"
    and "distinct (map t_address ts)" and "\<forall>t \<in> set ts. gm_get (addressModelMap wd1) (t_address t) = None"
    and "int (length ts) < k \<Longrightarrow> sk = int (length (filter (\<lambda>m. \<not> IsModelPinned (u_model m) wd
            \<and> \<not> evictable (forceEvictionWhenBusy wd) wd m) (eviction_order wd)))"
    using ts m1 pin k dist by simp_all
qed

lemma EnforceLRULimit_cases:
  assumes "EnforceLRULimit pm n wd = (r, wd')" and "0 < lruLimit wd"
  obtains (room) "int (length (addressModelMap wd)) + n + 1 \<le> lruLimit wd" "r = \<lparr>EvictedCount = 0, NeedMore = False\<rparr>" "wd' = wd"
    | (evict) ts k sk wd1 where "collect_lru n wd = (Some (ts, k, sk), wd1)"
        "wd' = snd (fold (shutdown_one pm) ts (0, wd1))" "EvictedCount r = fst (fold (shutdown_one pm) ts (0, wd1))"
        "NeedMore r \<longleftrightarrow> int (length ts) < k \<and> sk > 0 \<or> fst (fold (shutdown_one pm) ts (0, wd1)) < int (length ts)"
proof (cases "collect_lru n wd")
  case (Pair x wd1)
  show ?thesis
  proof (cases x)
    case None
    with Pair assms(2) have "int (length (addressModelMap wd)) + n + 1 \<le> lruLimit wd" "wd1 = wd"
      by (auto simp: collect_lru_def Let_def case_prod_beta split: if_splits)
    moreover have "(r, wd') = (\<lparr>EvictedCount = 0, NeedMore = False\<rparr>, wd1)"
      using None Pair assms(1) by (simp add: EnforceLRULimit_def)
    ultimately show thesis using room by simp
  next
    case (Some y)
    obtain ts k sk where y: "y = (ts, k, sk)" by (cases y)
    have "collect_lru n wd = (Some (ts, k, sk), wd1)" using Pair Some y by simp
    moreover have "wd' = snd (fold (shutdown_one pm) ts (0, wd1))" "EvictedCount r = fst (fold (shutdown_one pm) ts (0, wd1))"
      "NeedMore r \<longleftrightarrow> int (length ts) < k \<and> sk > 0 \<or> fst (fold (shutdown_one pm) ts (0, wd1)) < int (length ts)"
      using assms(1) calculation by (auto simp: EnforceLRULimit_def shutdownEvictedStopped_def Let_def case_prod_beta)
    ultimately show thesis by (rule evict)
  qed
qed

lemma collect_lru_keeps:
  assumes "distinct (gm_keys (addressModelMap wd))" and "collect_lru n wd = (Some (ts, k, sk), wd1)"
    and "gm_get (addressModelMap wd1) b = Some mb" and "evictable (forceEvictionWhenBusy wd) wd (usage_of wd (b, mb))"
  shows "usage_of wd (b, mb) \<in> set (filter (evictable (forceEvictionWhenBusy wd) wd) (eviction_order wd))
         \<and> usage_of wd (b, mb) \<notin> set (take (nat k) (filter (evictable (forceEvictionWhenBusy wd) wd) (eviction_order wd)))"
proof -
  note c = collect_lru_Some [OF assms(1,2)]
  let ?ch = "take (nat k) (filter (evictable (forceEvictionWhenBusy wd) wd) (eviction_order wd))"
  have b1: "b \<notin> u_address ` set ?ch" and b2: "gm_get (addressModelMap wd) b = Some mb"
    using assms(3) unfolding c(2) gm_get_fold_del by (auto split: if_splits)
  have "usage_of wd (b, mb) \<in> set (eviction_order wd)"
    using b2 eviction_order_addresses(2) [OF assms(1)] by (auto dest: map_of_SomeD)
  moreover have "usage_of wd (b, mb) \<notin> set ?ch" using b1 by (force simp: usage_of_def)
  ultimately show ?thesis using assms(4) by simp
qed

lemma lru_room:
  assumes "distinct (gm_keys (addressModelMap wd))" and "collect_lru n wd = (Some (ts, k, sk), wd1)"
    and "\<not> (int (length ts) < k \<and> sk > 0)"
  shows "int (length (addressModelMap wd1)) + n + 1 \<le> lruLimit wd \<or> (\<forall>(a, m) \<in> set (addressModelMap wd1). IsModelPinned m wd)"
proof (cases "int (length ts) < k")
  case False
  with collect_lru_Some(4,5) [OF assms(1,2)] show ?thesis by simp
next
  case lt: True
  note c = collect_lru_Some [OF assms(1,2)]
  let ?lru = "eviction_order wd" and ?ok = "evictable (forceEvictionWhenBusy wd) wd"
  have "sk = 0" using assms(3) lt c(9) by auto
  with c(9) lt have nobusy: "\<forall>m \<in> set ?lru. \<not> IsModelPinned (u_model m) wd \<longrightarrow> ?ok m"
    by (auto simp: filter_empty_conv)
  have "length ts = min (length (filter ?ok ?lru)) (nat k)" using arg_cong [OF c(1), of length] by simp
  with lt have all: "take (nat k) (filter ?ok ?lru) = filter ?ok ?lru" by (intro take_all) simp
  have "IsModelPinned m wd" if am: "(a, m) \<in> set (addressModelMap wd1)" for a m
  proof (rule ccontr)
    assume np: "\<not> IsModelPinned m wd"
    have "distinct (gm_keys (addressModelMap wd1))" unfolding c(2) by (rule gm_fold_del_distinct [OF assms(1)])
    with am have g: "gm_get (addressModelMap wd1) a = Some m" by (simp add: gm_get_entry)
    then have "gm_get (addressModelMap wd) a = Some m" unfolding c(2) gm_get_fold_del by (simp split: if_splits)
    then have "usage_of wd (a, m) \<in> set ?lru"
      using eviction_order_addresses(2) [OF assms(1)] by (auto dest: map_of_SomeD)
    with np nobusy have "?ok (usage_of wd (a, m))" by (simp add: usage_of_def)
    from collect_lru_keeps [OF assms(1,2) g this] show False unfolding all by blast
  qed
  then show ?thesis by auto
qed

lemma lru_order:
  assumes "distinct (gm_keys (addressModelMap wd))" and "collect_lru n wd = (Some (ts, k, sk), wd1)"
    and "gm_get (addressModelMap wd) a = Some ma" and "gm_get (addressModelMap wd1) a = None"
    and "gm_get (addressModelMap wd1) b = Some mb" and "evictable (forceEvictionWhenBusy wd) wd (usage_of wd (b, mb))"
  shows "\<not> usage_less (sizeAwareEviction wd) (usage_of wd (b, mb)) (usage_of wd (a, ma))"
proof -
  note c = collect_lru_Some [OF assms(1,2)]
  let ?lru = "filter (evictable (forceEvictionWhenBusy wd) wd) (eviction_order wd)"
  from assms(3,4) have "a \<in> u_address ` set (take (nat k) ?lru)"
    unfolding c(2) gm_get_fold_del by (simp split: if_splits)
  then obtain u where u: "u \<in> set (take (nat k) ?lru)" "u_address u = a" by auto
  then have "u \<in> set (eviction_order wd)" by (auto dest: in_set_takeD)
  then obtain p where p: "p \<in> set (addressModelMap wd)" "u = usage_of wd p"
    unfolding eviction_order_addresses(2) [OF assms(1)] by (rule imageE)
  then have "gm_get (addressModelMap wd) (fst p) = Some (snd p)" and "fst p = a"
    using assms(1) u(2) by (auto intro: gm_get_entry simp: usage_of_def)
  with assms(3) have "p = (a, ma)" by (simp add: prod_eq_iff)
  have srt: "sorted_wrt (\<lambda>x y. \<not> usage_less (sizeAwareEviction wd) y x) ?lru"
    unfolding eviction_order_def by (rule sorted_wrt_filter) (rule usage.go_sort_sorted)
  note keeps = collect_lru_keeps [OF assms(1,2,5,6)]
  show ?thesis
    using sorted_wrt_take_later [OF srt u(1) conjunct1 [OF keeps] conjunct2 [OF keeps]]
    unfolding p(2) \<open>p = (a, ma)\<close> .
qed



section \<open>C29: a stop that fails\<close>

text \<open>C23: no running backend is forgotten. When the stop of an evicted backend fails and the loader
  still holds it, the eviction is not counted and the address is registered again: with its model,
  its process and a size if it had one, unless a replacement registered the address while the stop
  was under way, which is kept. The request state is whatever the requests that started and ended
  meanwhile left. When the stop succeeds, it is counted, and the address and its request state are
  gone unless replaced. All of this holds whatever other operations ran during the stop.\<close>

theorem failed_stop_keeps_backend:
  assumes "gm_get (addressModelMap wd) a = Some m" and "detachForEvictionLocked a wd = (d, wd1)"
    and "t = \<lparr>t_address = a, t_model = m, t_wasBusy = busy, t_detached = d\<rparr>"
    and "during = wd_run (pm_meanwhile pm t) wd1" and "shutdown_one pm t (n, wd1) = (n', after)"
  shows "(stop_fails pm t \<and> stillResident pm t \<longrightarrow>
            n' = n
            \<and> gm_get (addressModelMap after) a =
                (case gm_get (addressModelMap during) a of None \<Rightarrow> Some m | Some m2 \<Rightarrow> Some m2)
            \<and> (\<forall>p. gm_get (addressMap wd) a = Some (Some p) \<and> gm_get (addressModelMap during) a = None
                  \<longrightarrow> gm_get (addressMap after) a = Some (Some p))
            \<and> (gm_get (modelSizes wd) m \<noteq> None \<and> gm_get (addressModelMap during) a = None
                  \<longrightarrow> gm_get (modelSizes after) m \<noteq> None)
            \<and> requestStarts after = requestStarts during \<and> inFlight after = inFlight during
            \<and> busyTime after = busyTime during \<and> idleTime after = idleTime during)
         \<and> (\<not> stop_fails pm t \<longrightarrow>
              n' = n + 1
              \<and> gm_get (addressModelMap after) a = gm_get (addressModelMap during) a
              \<and> (gm_get (addressModelMap during) a = None \<longrightarrow>
                   gm_get (requestStarts after) a = None \<and> gm_get (busyTime after) a = None))"
proof -
  have d: "d = Some \<lparr>d_model = m, d_process = gm_get0 None (addressMap wd) a,
      d_size = gm_get0 0 (modelSizes wd) m, d_hasSize = (gm_get (modelSizes wd) m \<noteq> None)\<rparr>"
    using assms(1,2) by (simp add: detachForEvictionLocked_def Let_def)
  have after: "after = finishEviction t (stop_fails pm t \<and> stillResident pm t) during"
    and n': "n' = (if stop_fails pm t then n else n + 1)"
    using assms(4,5) by (auto simp: shutdown_one_def Let_def split: if_splits)
  have "\<forall>p. gm_get (addressMap wd) a = Some (Some p) \<and> gm_get (addressModelMap during) a = None
          \<longrightarrow> gm_get (addressMap after) a = Some (Some p)"
    and "gm_get (modelSizes wd) m \<noteq> None \<and> gm_get (addressModelMap during) a = None
          \<longrightarrow> gm_get (modelSizes after) m \<noteq> None"
    and "requestStarts after = requestStarts during" "inFlight after = inFlight during"
    and "busyTime after = busyTime during" "idleTime after = idleTime during"
    if "stop_fails pm t" "stillResident pm t"
    using that unfolding after by (auto simp: assms(3) d finishEviction_def Let_def gm_get_put gm_get0_def)
  moreover have "gm_get (addressModelMap after) a =
      (case gm_get (addressModelMap during) a of
         None \<Rightarrow> if stop_fails pm t \<and> stillResident pm t then Some m else None | Some m2 \<Rightarrow> Some m2)"
    unfolding after finishEviction_get by (simp add: assms(3) d split: option.splits)
  moreover have "gm_get (requestStarts after) a = None \<and> gm_get (busyTime after) a = None"
    if "\<not> stop_fails pm t" "gm_get (addressModelMap during) a = None"
    using that unfolding after
    by (simp add: assms(3) d finishEviction_def Let_def clearRequestStateLocked_def gm_get_del)
  ultimately show ?thesis using n' by (auto split: option.splits)
qed

definition failing_pm :: process_manager where
  "failing_pm = sample_pm\<lparr>pm_ShutdownModel := (\<lambda>_. StopFailed), pm_meanwhile := (\<lambda>_. [(9, OpTrack ''b'')])\<rparr>"

theorem failed_stop_keeps_backend_witness:
  "let t = \<lparr>t_address = ''b'', t_model = ''m2'', t_wasBusy = False, t_detached = fst (detachForEvictionLocked ''b'' sample_wd)\<rparr>;
       after = snd (shutdown_one failing_pm t (0, snd (detachForEvictionLocked ''b'' sample_wd)))
   in gm_get (addressModelMap after) ''b'' \<noteq> None"
proof -
  define t where "t = \<lparr>t_address = ''b'', t_model = ''m2'', t_wasBusy = False, t_detached = fst (detachForEvictionLocked ''b'' sample_wd)\<rparr>"
  have f: "stop_fails failing_pm t" "stillResident failing_pm t"
    by (simp_all add: stop_fails_def shutdownTarget_def stillResident_def failing_pm_def sample_pm_def t_def)
  have b: "gm_get (addressModelMap sample_wd) ''b'' = Some ''m2''" by (simp add: sample_registry)
  have "detachForEvictionLocked ''b'' sample_wd =
      (fst (detachForEvictionLocked ''b'' sample_wd), snd (detachForEvictionLocked ''b'' sample_wd))"
    and "shutdown_one failing_pm t (0, snd (detachForEvictionLocked ''b'' sample_wd)) =
      (fst (shutdown_one failing_pm t (0, snd (detachForEvictionLocked ''b'' sample_wd))),
       snd (shutdown_one failing_pm t (0, snd (detachForEvictionLocked ''b'' sample_wd))))" by simp_all
  from failed_stop_keeps_backend [OF b this(1) t_def refl this(2)] f
  show ?thesis unfolding Let_def t_def [symmetric] by (auto split: option.splits)
qed

section \<open>C30: concurrency groups\<close>

definition in_conflict :: "watchdog \<Rightarrow> string \<Rightarrow> string \<Rightarrow> bool" where
  "in_conflict wd requested name \<longleftrightarrow>
     name \<noteq> requested \<and> set (GetModelGroups requested wd) \<inter> set (GetModelGroups name wd) \<noteq> {}"

lemma in_conflict_overlap:
  "in_conflict wd r name \<longleftrightarrow>
     name \<noteq> r \<and> groupsOverlap (gm_get0 [] (modelGroups wd) r) (gm_get0 [] (modelGroups wd) name)"
  by (auto simp: in_conflict_def groupsOverlap_def GetModelGroups_def gm_get0_def list_ex_iff split: option.splits)

lemma group_conflicts_set:
  "set (group_conflicts r wd) =
     (\<lambda>p. (usage_of wd p)\<lparr>u_sizeBytes := 0\<rparr>) ` {p \<in> set (addressModelMap wd). in_conflict wd r (snd p)}"
  by (auto simp: group_conflicts_def in_conflict_overlap)

lemma group_conflicts_addresses:
  assumes "distinct (gm_keys (addressModelMap wd))"
  shows "distinct (map u_address (go_sort lt (group_conflicts r wd)))"
proof -
  have "map u_address (group_conflicts r wd) = map fst (filter (\<lambda>p. in_conflict wd r (snd p)) (addressModelMap wd))"
    unfolding group_conflicts_def in_conflict_overlap case_prod_unfold by (simp add: comp_def usage_of_def)
  moreover have "distinct (map fst (filter P (addressModelMap wd)))" for P
    using assms by (simp add: distinct_map_filter)
  ultimately have "distinct (map u_address (group_conflicts r wd))" by simp
  then show ?thesis by (metis (no_types, lifting) mset_go_sort mset_map mset_eq_imp_distinct_iff)
qed

text \<open>What the collection detaches for a group: only models in conflict, and all of them when nothing
  was skipped.\<close>

lemma group_collect:
  assumes "distinct (gm_keys (addressModelMap wd))"
    and "collectEvictionsLocked (go_sort (usage_less False) (group_conflicts requested wd))
           (int (length (group_conflicts requested wd))) (forceEvictionWhenBusy wd) [] 0 wd = (ts, sk, wd1)"
  defines "ch \<equiv> filter (evictable (forceEvictionWhenBusy wd) wd) (go_sort (usage_less False) (group_conflicts requested wd))"
  shows "map t_address ts = map u_address ch"
    and "addressModelMap wd1 = fold gm_del (map u_address ch) (addressModelMap wd)"
    and "modelGroups wd1 = modelGroups wd"
    and "distinct (gm_keys (addressModelMap wd1))"
proof -
  let ?cs = "go_sort (usage_less False) (group_conflicts requested wd)" and ?n = "int (length (group_conflicts requested wd))"
  have "length ch \<le> length (group_conflicts requested wd)"
    unfolding ch_def by (rule order_trans [OF length_filter_le]) simp
  then have "take (nat ?n) ch = ch" by simp
  with collect_targets [of ?cs ?n "forceEvictionWhenBusy wd" "[]" 0 wd] assms(2)
  show "map t_address ts = map u_address ch"
    and m1: "addressModelMap wd1 = fold gm_del (map u_address ch) (addressModelMap wd)"
    by (simp_all add: Let_def ch_def)
  show "modelGroups wd1 = modelGroups wd"
    using collect_invariant [of "\<lambda>w. modelGroups w = modelGroups wd" wd ?cs ?n "forceEvictionWhenBusy wd" "[]" 0] assms(2)
    by simp
  show "distinct (gm_keys (addressModelMap wd1))"
    unfolding m1 by (rule gm_fold_del_distinct) (rule assms(1))
qed

lemma group_spares:
  assumes "distinct (gm_keys (addressModelMap wd))"
    and "collectEvictionsLocked (go_sort (usage_less False) (group_conflicts requested wd))
           (int (length (group_conflicts requested wd))) (forceEvictionWhenBusy wd) [] 0 wd = (ts, sk, wd1)"
    and "(a, name) \<in> set (addressModelMap wd)" and "\<not> in_conflict wd requested name"
  shows "gm_get (addressModelMap wd1) a = Some name" and "a \<notin> t_address ` set ts"
proof -
  note c = group_collect [OF assms(1,2)]
  have "u_address u \<noteq> a" if "u \<in> set (group_conflicts requested wd)" for u
  proof
    assume a: "u_address u = a"
    from that obtain q where "q \<in> set (addressModelMap wd)" "in_conflict wd requested (snd q)" "u_address u = fst q"
      using group_conflicts_set [of requested wd] by (auto simp: usage_of_def)
    then show False using a assms(1,3,4) by (metis gm_get_entry option.inject prod.collapse)
  qed
  then have a: "a \<notin> u_address ` set (filter (evictable (forceEvictionWhenBusy wd) wd)
      (go_sort (usage_less False) (group_conflicts requested wd)))" by auto
  then show "gm_get (addressModelMap wd1) a = Some name"
    using assms(1,3) unfolding c(2) gm_get_fold_del by (simp add: gm_get_entry)
  show "a \<notin> t_address ` set ts" using a arg_cong [OF c(1), of set] by simp
qed

lemma group_cleared:
  assumes "distinct (gm_keys (addressModelMap wd))"
    and "collectEvictionsLocked (go_sort (usage_less False) (group_conflicts requested wd))
           (int (length (group_conflicts requested wd))) (forceEvictionWhenBusy wd) [] 0 wd = (ts, sk, wd1)"
    and "length ts = length (group_conflicts requested wd)" and "gm_get (addressModelMap wd1) a = Some name"
  shows "\<not> in_conflict wd requested name"
proof
  assume cf: "in_conflict wd requested name"
  let ?cs = "go_sort (usage_less False) (group_conflicts requested wd)"
  note c = group_collect [OF assms(1,2)]
  have all: "filter (evictable (forceEvictionWhenBusy wd) wd) ?cs = ?cs"
    using arg_cong [OF c(1), of length] assms(3)
    by (metis length_map length_go_sort length_filter_less filter_id_conv nat_neq_iff)
  have n: "a \<notin> u_address ` set ?cs" and w: "gm_get (addressModelMap wd) a = Some name"
    using assms(4) unfolding c(2) gm_get_fold_del all by (auto split: if_splits)
  have "(usage_of wd (a, name))\<lparr>u_sizeBytes := 0\<rparr> \<in> set ?cs"
    using w cf group_conflicts_set [of requested wd] by (force dest: map_of_SomeD)
  with n show False by (force simp: usage_of_def)
qed

lemma group_idle:
  assumes "gm_get0 [] (modelGroups wd) requested = [] \<or> group_conflicts requested wd = []"
    and "p \<in> set (addressModelMap wd)"
  shows "\<not> in_conflict wd requested (snd p)"
  using assms(1)
proof
  assume "group_conflicts requested wd = []"
  then have "{p \<in> set (addressModelMap wd). in_conflict wd requested (snd p)} = {}"
    using group_conflicts_set [of requested wd] by simp
  with assms(2) show ?thesis by blast
qed (simp add: in_conflict_overlap groupsOverlap_def)


definition grouped_wd :: watchdog where
  "grouped_wd = wd_run [(6, OpSetGroups [(''m2'', [''gpu'']), (''m3'', [''gpu''])])] sample_wd"


section \<open>Handing the state to a new watchdog\<close>

lemma restore_address_frame [simp]:
  "inFlight (restore_address now p wd) = inFlight wd"
  "idleTime (restore_address now p wd) = idleTime wd"
  "lastUsed (restore_address now p wd) = lastUsed wd"
  "addressMap (restore_address now p wd) = addressMap wd"
  "addressModelMap (restore_address now p wd) = addressModelMap wd"
  by (simp_all add: restore_address_def Let_def)

lemma fold_restore_frame [simp]:
  "inFlight (fold (restore_address now) ps wd) = inFlight wd"
  "addressModelMap (fold (restore_address now) ps wd) = addressModelMap wd"
  by (induction ps arbitrary: wd) simp_all

text \<open>Restoring the addresses of \<open>ps\<close>, all of which have a busy time.\<close>

definition restored :: "watchdog \<Rightarrow> watchdog \<Rightarrow> string \<Rightarrow> int \<Rightarrow> bool" where
  "restored wd w a n \<longleftrightarrow>
     (\<exists>ss. gm_get (requestStarts w) a = Some ss \<and> length ss = nat n \<and> distinct (gm_keys ss)
        \<and> gm_get0 [] (legacyRequests w) a = gm_get0 [] (legacyRequests wd) a @ gm_keys ss
        \<and> (\<forall>q \<in> set ss. fst q \<le> nextRequestID w \<and> snd q = gm_get0 0 (busyTime wd) a))"

lemma restore_address_one:
  assumes "0 < gm_get0 0 (busyTime wd) a"
  shows "restored wd (restore_address now (a, n) wd) a n"
    and "busyTime (restore_address now (a, n) wd) = busyTime wd"
    and "nextRequestID (restore_address now (a, n) wd) = nextRequestID wd + nat n"
    and "b \<noteq> a \<Longrightarrow> gm_get (requestStarts (restore_address now (a, n) wd)) b = gm_get (requestStarts wd) b"
    and "b \<noteq> a \<Longrightarrow> gm_get (legacyRequests (restore_address now (a, n) wd)) b = gm_get (legacyRequests wd) b"
  using assms
  by (auto simp: restored_def restore_address_def Let_def is_zero_def gm_get_put gm_get0_def comp_def)

lemma fold_restore:
  assumes "distinct (gm_keys ps)" and "\<forall>p \<in> set ps. 0 < gm_get0 0 (busyTime wd) (fst p)"
  shows "busyTime (fold (restore_address now) ps wd) = busyTime wd
    \<and> nextRequestID wd \<le> nextRequestID (fold (restore_address now) ps wd)
    \<and> (\<forall>a. case gm_get ps a of
             None \<Rightarrow> gm_get (requestStarts (fold (restore_address now) ps wd)) a = gm_get (requestStarts wd) a
                     \<and> gm_get (legacyRequests (fold (restore_address now) ps wd)) a = gm_get (legacyRequests wd) a
           | Some n \<Rightarrow> restored wd (fold (restore_address now) ps wd) a n)"
  using assms
proof (induction ps arbitrary: wd)
  case Nil
  then show ?case by simp
next
  case (Cons p ps)
  obtain a n where p: "p = (a, n)" by (cases p)
  let ?wd = "restore_address now (a, n) wd" and ?w = "fold (restore_address now) ps (restore_address now (a, n) wd)"
  have pos: "0 < gm_get0 0 (busyTime wd) a" using Cons.prems(2) p by simp
  note one = restore_address_one [where now = now and n = n, OF pos]
  have "\<forall>p \<in> set ps. 0 < gm_get0 0 (busyTime ?wd) (fst p)" using Cons.prems(2) one(2) by simp
  with Cons have IH: "busyTime ?w = busyTime ?wd" "nextRequestID ?wd \<le> nextRequestID ?w"
    "\<And>b. case gm_get ps b of
            None \<Rightarrow> gm_get (requestStarts ?w) b = gm_get (requestStarts ?wd) b \<and> gm_get (legacyRequests ?w) b = gm_get (legacyRequests ?wd) b
          | Some n \<Rightarrow> restored ?wd ?w b n" by auto
  have none: "gm_get ps a = None" using Cons.prems(1) p by (simp add: map_of_eq_None_iff)
  have all: "case gm_get (p # ps) b of
          None \<Rightarrow> gm_get (requestStarts ?w) b = gm_get (requestStarts wd) b \<and> gm_get (legacyRequests ?w) b = gm_get (legacyRequests wd) b
        | Some n \<Rightarrow> restored wd ?w b n" for b
  proof (cases "b = a")
    case True
    with IH(3) [of a] none one(1) IH(2) show ?thesis
      unfolding restored_def p gm_get0_def by (fastforce split: option.splits)
  next
    case False
    with IH(3) [of b] one(2,4,5) show ?thesis
      unfolding restored_def p gm_get0_def by (auto split: option.splits)
  qed
  have w: "fold (restore_address now) (p # ps) wd = ?w" by (simp add: p)
  show ?case unfolding w
    by (intro conjI allI) (use IH(1,2) one(2,3) all in \<open>simp_all only: add_leD1\<close>)
qed

lemma UnMark_drains:
  assumes "gm_get0 [] (legacyRequests wd) a = gm_keys ss" and "gm_get0 [] (requestStarts wd) a = ss"
    and "distinct (gm_keys ss)" and "length ts = length ss" and "ss \<noteq> []"
  shows "gm_get (inFlight (fold (\<lambda>t. UnMark t a) ts wd)) a = None
         \<and> gm_get (busyTime (fold (\<lambda>t. UnMark t a) ts wd)) a = None
         \<and> gm_get (idleTime (fold (\<lambda>t. UnMark t a) ts wd)) a = Some (last ts)"
  using assms
proof (induction ss arbitrary: wd ts rule: rev_induct)
  case Nil
  then show ?case by simp
next
  case (snoc q ss)
  obtain t ts' where ts: "ts = t # ts'" using snoc.prems(4) by (cases ts) auto
  have del: "gm_del (fst q) (ss @ [q]) = ss"
    using snoc.prems(3) by (force simp: AList.delete_eq filter_id_conv)
  have get: "gm_get (ss @ [q]) (fst q) \<noteq> None" by (cases q) (simp add: map_of_eq_None_iff)
  show ?case
  proof (cases "ss = []")
    case True
    with snoc.prems(4) ts have "ts' = []" by simp
    with True snoc.prems(1,2) ts get del show ?thesis
      by (simp add: UnMark_def finishRequestLocked_def Let_def gm_get_del gm_get_put gm_get0_def)
  next
    case False
    let ?wd = "UnMark t a wd"
    have "gm_get0 [] (legacyRequests ?wd) a = gm_keys ss" "gm_get0 [] (requestStarts ?wd) a = ss"
      using False snoc.prems(1,2) get del
      by (simp_all add: UnMark_def finishRequestLocked_def Let_def gm_get_put gm_get0_def butlast_append)
    with snoc.IH [of ?wd ts'] snoc.prems(3,4) False ts show ?thesis by auto
  qed
qed

text \<open>A request in flight has a busy time between 0 and now.\<close>

lemma busy_start:
  assumes "requests_ok T wd" and "gm_get (inFlight wd) a = Some n"
  obtains s where "gm_get (busyTime wd) a = Some s" "0 < s" "s \<le> T" "0 < n" "gm_get (idleTime wd) a = None"
proof -
  from assms obtain ss where ss: "gm_get (requestStarts wd) a = Some ss" "n = int (length ss)" "ss \<noteq> []"
      "gm_get (busyTime wd) a = Some (Min (snd ` set ss))" "\<forall>p \<in> set ss. 0 < snd p \<and> snd p \<le> T"
    unfolding requests_ok_def by fastforce
  then have "Min (snd ` set ss) \<in> snd ` set ss" by (intro Min_in) auto
  then obtain p where "p \<in> set ss" "Min (snd ` set ss) = snd p" by (rule imageE)
  moreover have "gm_get (idleTime wd) a = None" using assms(1) ss(1) by (fastforce simp: requests_ok_def)
  ultimately show thesis using ss that by simp
qed

text \<open>The state right after \<open>RestoreState\<close>: one start time per request in flight, the busy time of the
  address, and the synthetic request ids on the stack of \<open>UnMark\<close>.\<close>

lemma RestoreState_frame:
  assumes "requests_ok T wd" and "distinct (gm_keys (inFlight wd))"
    and "new = RestoreState now (GetState wd) (NewWatchDog opts)"
  shows "GetState new = GetState wd"
    and "gm_get (inFlight wd) a = None \<Longrightarrow> gm_get (requestStarts new) a = None"
    and "gm_get (inFlight wd) a = Some n \<Longrightarrow> gm_get (busyTime wd) a = Some s \<Longrightarrow>
      \<exists>ss. gm_get (requestStarts new) a = Some ss \<and> length ss = nat n \<and> distinct (gm_keys ss)
        \<and> gm_get0 [] (legacyRequests new) a = gm_keys ss
        \<and> (\<forall>q \<in> set ss. fst q \<le> nextRequestID new \<and> snd q = s)"
proof -
  let ?wd1 = "(NewWatchDog opts)\<lparr>addressModelMap := addressModelMap wd, busyTime := busyTime wd, inFlight := inFlight wd,
      requestStarts := [], legacyRequests := []\<rparr>"
  let ?w = "fold (restore_address now) (inFlight wd) ?wd1"
  have new: "new = ?w\<lparr>idleTime := idleTime wd, lastUsed := lastUsed wd, addressMap := addressMap wd\<rparr>"
    by (simp add: assms(3) RestoreState_def GetState_def Let_def)
  have "0 < gm_get0 0 (busyTime ?wd1) (fst p)" if "p \<in> set (inFlight wd)" for p
  proof -
    have "gm_get (inFlight wd) (fst p) = Some (snd p)" using gm_get_entry [OF assms(2)] that by simp
    then show ?thesis by (rule busy_start [OF assms(1)]) (simp add: gm_get0_def)
  qed
  then have "\<forall>p \<in> set (inFlight wd). 0 < gm_get0 0 (busyTime ?wd1) (fst p)" by blast
  note restore = fold_restore [OF assms(2) this, of now]
  then have bt: "busyTime ?w = busyTime wd" by simp
  then show "GetState new = GetState wd" by (simp add: new GetState_def)
  note rs = conjunct2 [OF conjunct2 [OF restore], rule_format, of a]
  show "gm_get (requestStarts new) a = None" if "gm_get (inFlight wd) a = None"
    using rs that by (simp add: new)
  show "\<exists>ss. gm_get (requestStarts new) a = Some ss \<and> length ss = nat n \<and> distinct (gm_keys ss)
        \<and> gm_get0 [] (legacyRequests new) a = gm_keys ss
        \<and> (\<forall>q \<in> set ss. fst q \<le> nextRequestID new \<and> snd q = s)"
    if "gm_get (inFlight wd) a = Some n" "gm_get (busyTime wd) a = Some s"
    using rs that by (simp add: new restored_def gm_get0_def)
qed

lemma RestoreState_requests:
  assumes "requests_ok T wd" and "distinct (gm_keys (inFlight wd))"
    and "new = RestoreState now (GetState wd) (NewWatchDog opts)" and "gm_get (inFlight wd) a = Some n"
  shows "\<exists>ss. gm_get (requestStarts new) a = Some ss \<and> int (length ss) = n \<and> ss \<noteq> [] \<and> distinct (gm_keys ss)
      \<and> gm_get0 [] (legacyRequests new) a = gm_keys ss
      \<and> gm_get (busyTime wd) a = Some (Min (snd ` set ss))
      \<and> (\<forall>q \<in> set ss. fst q \<le> nextRequestID new \<and> 0 < snd q \<and> snd q \<le> T)"
proof -
  from busy_start [OF assms(1,4)] obtain s where s: "gm_get (busyTime wd) a = Some s" "0 < s" "s \<le> T" "0 < n" by blast
  from RestoreState_frame(3) [OF assms s(1)] obtain ss where ss: "gm_get (requestStarts new) a = Some ss" "length ss = nat n"
    "distinct (gm_keys ss)" "gm_get0 [] (legacyRequests new) a = gm_keys ss"
    "\<forall>q \<in> set ss. fst q \<le> nextRequestID new \<and> snd q = s" by blast
  from ss(2) s(4) have ne: "ss \<noteq> []" by auto
  have "snd ` set ss = (\<lambda>_. s) ` set ss" using ss(5) by (intro image_cong) simp_all
  with ne have "snd ` set ss = {s}" by (simp add: image_constant_conv)
  with ss s ne show ?thesis by simp
qed

lemma RestoreState_ok:
  assumes "requests_ok T wd" and "distinct (gm_keys (inFlight wd))"
    and "new = RestoreState now (GetState wd) (NewWatchDog opts)"
  shows "requests_ok T new"
proof -
  note frame = RestoreState_frame [OF assms]
  have same: "inFlight new = inFlight wd" "idleTime new = idleTime wd" "busyTime new = busyTime wd"
    using frame(1) by (simp_all add: GetState_def)
  have "gm_get (inFlight new) a = map_option (\<lambda>ss. int (length ss)) (gm_get (requestStarts new) a)
      \<and> gm_get (busyTime new) a = map_option (\<lambda>ss. Min (snd ` set ss)) (gm_get (requestStarts new) a)
      \<and> (\<forall>ss. gm_get (requestStarts new) a = Some ss \<longrightarrow>
          ss \<noteq> [] \<and> distinct (gm_keys ss) \<and> (\<forall>p \<in> set ss. fst p \<le> nextRequestID new \<and> 0 < snd p \<and> snd p \<le> T))
      \<and> (gm_get (idleTime new) a \<noteq> None \<longrightarrow> gm_get (requestStarts new) a = None)" for a
  proof (cases "gm_get (inFlight wd) a")
    case None
    moreover from this assms(1) have "gm_get (busyTime wd) a = None" by (auto simp: requests_ok_def)
    ultimately show ?thesis using frame(2) [OF None] by (simp add: same)
  next
    case (Some n)
    then have "gm_get (idleTime wd) a = None" by (rule busy_start [OF assms(1)])
    with RestoreState_requests [OF assms Some] Some show ?thesis by (auto simp: same)
  qed
  then show ?thesis unfolding requests_ok_def by blast
qed

text \<open>Changing the settings restarts the watchdog. The new one has the loaded models, processes,
  counts and times of the old one, its accounting is exact again, and when as many \<open>UnMark\<close> calls
  arrive as requests were in flight at the handover, the address is idle from the last of them.\<close>

theorem handover_keeps_state:
  assumes "requests_ok T wd" and "distinct (gm_keys (inFlight wd))"
    and "new = RestoreState now (GetState wd) (NewWatchDog opts)"
  shows "GetState new = GetState wd \<and> requests_ok T new
         \<and> (\<forall>a n ts. gm_get (inFlight wd) a = Some n \<and> int (length ts) = n \<longrightarrow>
              (let w = fold (\<lambda>t. UnMark t a) ts new
               in gm_get (inFlight w) a = None \<and> gm_get (busyTime w) a = None \<and> gm_get (idleTime w) a = Some (last ts)))"
proof -
  have "let w = fold (\<lambda>t. UnMark t a) ts new
        in gm_get (inFlight w) a = None \<and> gm_get (busyTime w) a = None \<and> gm_get (idleTime w) a = Some (last ts)"
    if n: "gm_get (inFlight wd) a = Some n" and l: "int (length ts) = n" for a n ts
  proof -
    from RestoreState_requests [OF assms n] obtain ss where "gm_get (requestStarts new) a = Some ss"
      "int (length ss) = n" "ss \<noteq> []" "distinct (gm_keys ss)" "gm_get0 [] (legacyRequests new) a = gm_keys ss" by blast
    with UnMark_drains [of new a ss ts] l show ?thesis by (simp add: gm_get0_def Let_def)
  qed
  with RestoreState_frame(1) [OF assms] RestoreState_ok [OF assms] show ?thesis by blast
qed

theorem handover_keeps_state_witness:
  "GetState (RestoreState 9 (GetState sample_wd) (NewWatchDog [])) = GetState sample_wd"
proof -
  have "distinct (gm_keys (inFlight sample_wd))" by code_simp
  with handover_keeps_state [OF sample_wd_ok _ refl, of 9 "[]"] show ?thesis by blast
qed

end
