(* ===== verification/AppWatchdog.thy ===== *)
theory AppWatchdog
  imports WatchdogProps FailoverInvariant
begin

text \<open>
  How the application feeds the watchdog: \<^verbatim>\<open>core/application/watchdog.go\<close>, with the queries of
  the model configurations it and the cluster router use
  (\<^verbatim>\<open>core/config/model_config.go\<close>, \<^verbatim>\<open>model_config_loader.go\<close>,
  \<^verbatim>\<open>application_config.go\<close>). The theorems join the failover manager, the configurations and
  the watchdog.
\<close>

section \<open>Configuration queries\<close>

definition IsDisabled :: "model_config \<Rightarrow> bool" where
  "IsDisabled c = Disabled c"

definition IsPinned :: "model_config \<Rightarrow> bool" where
  "IsPinned c = Pinned c"

definition GetConcurrencyGroups :: "model_config \<Rightarrow> string list" where
  "GetConcurrencyGroups c =
     fold (\<lambda>g0 out. let g = TrimSpace g0 in if g = '''' \<or> g \<in> set out then out else out @ [g])
       (ConcurrencyGroups c) []"

text \<open>The loader's map from names to configurations.\<close>

type_synonym config_map = "(string, model_config) gomap"

definition GetModelsConflictingWith :: "config_map \<Rightarrow> string \<Rightarrow> string list" where
  "GetModelsConflictingWith configs name =
     (case gm_get configs name of
        None \<Rightarrow> []
      | Some target \<Rightarrow>
          let targetGroups = GetConcurrencyGroups target
          in if targetGroups = [] then []
             else map fst (filter (\<lambda>(n, cfg).
                    if n = name \<or> IsDisabled cfg then False
                    else let other = GetConcurrencyGroups cfg
                         in if other = [] then False else list_ex (\<lambda>g. g \<in> set other) targetGroups) configs))"

definition GetPinnedModelNames :: "config_map \<Rightarrow> string list" where
  "GetPinnedModelNames configs = map fst (filter (\<lambda>(n, cfg). if IsDisabled cfg then False else IsPinned cfg) configs)"

record application_config =
  WatchDog :: bool
  MaxActiveBackends :: int
  SingleBackend :: bool
  MemoryReclaimerEnabled :: bool

definition GetEffectiveMaxActiveBackends :: "application_config \<Rightarrow> int" where
  "GetEffectiveMaxActiveBackends ac =
     (if MaxActiveBackends ac > 0 then MaxActiveBackends ac else if SingleBackend ac then 1 else 0)"

definition WatchdogShouldRun :: "application_config \<Rightarrow> bool" where
  "WatchdogShouldRun ac \<longleftrightarrow> WatchDog ac \<or> GetEffectiveMaxActiveBackends ac > 0 \<or> MemoryReclaimerEnabled ac"

section \<open>Feeding the watchdog\<close>

definition extractModelGroupsFromConfigs :: "model_config list \<Rightarrow> (string, string list) gomap" where
  "extractModelGroupsFromConfigs configs =
     fold (\<lambda>cfg out.
        if IsDisabled cfg then out
        else let gs = GetConcurrencyGroups cfg in if gs = [] then out else gm_put (Name cfg) gs out) configs []"

definition SyncPinnedModelsToWatchdog :: "model_config list \<Rightarrow> manager option \<Rightarrow> watchdog \<Rightarrow> watchdog" where
  "SyncPinnedModelsToWatchdog configs fm wd =
     (let pinned = map Name (filter IsPinned configs)
      in SetPinnedModels (case fm of None \<Rightarrow> pinned | Some m \<Rightarrow> MergePinned pinned (WarmTargets m)) wd)"

definition SyncModelGroupsToWatchdog :: "model_config list \<Rightarrow> watchdog \<Rightarrow> watchdog" where
  "SyncModelGroupsToWatchdog configs wd = ReplaceModelGroups (extractModelGroupsFromConfigs configs) wd"

section \<open>Pins\<close>

lemma fold_put_True: "gm_get (fold (\<lambda>m. gm_put m True) ms acc) x = (if x \<in> set ms then Some True else gm_get acc x)"
  by (induction ms arbitrary: acc) (auto simp: gm_get_put)

lemma IsModelPinned_SetPinned: "IsModelPinned m (SetPinnedModels ms wd) \<longleftrightarrow> m \<in> set ms"
  by (simp add: IsModelPinned_def SetPinnedModels_def gm_get0_def fold_put_True)

lemma pinned_after_sync:
  "IsModelPinned m (SyncPinnedModelsToWatchdog configs (Some fm) wd)
     \<longleftrightarrow> m \<in> Name ` {c \<in> set configs. IsPinned c} \<or> m \<in> set (WarmTargets fm)"
  by (auto simp: SyncPinnedModelsToWatchdog_def Let_def IsModelPinned_SetPinned MergePinned_set)

lemma warm_names_set:
  "set (warm_names m) = {serving ts |n ts. (n, ts) \<in> set (mtargets m) \<and> twarm ts \<and> serving ts \<noteq> ''''}"
proof -
  have "set (fold (\<lambda>(n, ts) w. if twarm ts \<and> serving ts \<noteq> '''' \<and> serving ts \<notin> set w then w @ [serving ts] else w) ps w)
      = set w \<union> {serving ts |n ts. (n, ts) \<in> set ps \<and> twarm ts \<and> serving ts \<noteq> ''''}"
    for ps :: "(string, target_state) gomap" and w
    by (induction ps arbitrary: w) (auto split: if_splits, blast)
  then show ?thesis by (simp add: warm_names_def)
qed

lemma manager_Sync_warm:
  assumes "manager_Sync src now m = Some m'" and "gm_get (mtargets m') t = Some ts" and "twarm ts" and "serving ts \<noteq> ''''"
  shows "serving ts \<in> set (WarmTargets m')"
proof -
  obtain m1 where m1: "syncLocked src now m = Some m1" using assms(1) by (auto simp: manager_Sync_def split: option.splits)
  then obtain m0 where m0: "m1 = sync_warm m0" by (auto simp: syncLocked_def)
  have frame: "mtargets m' = mtargets m1" "mwarm m' = mwarm m1"
    using assms(1) m1
    by (auto simp: manager_Sync_def takeWarmLocked_def call_onWarm_def unlockAndFlush_def Let_def split: if_splits)
  have "mwarm m1 = warm_names m0" "mtargets m1 = mtargets m0"
    unfolding m0 by (auto simp: sync_warm_def Let_def)
  moreover have "(t, ts) \<in> set (mtargets m0)"
    using assms(2) frame calculation by (auto dest: map_of_SomeD)
  ultimately show ?thesis using assms(3,4) frame by (auto simp: WarmTargets_def warm_names_set)
qed


definition local_config :: "string \<Rightarrow> model_config" where
  "local_config n = \<lparr>Name = n, Alias = '''', VisionAlias = '''', Backend = ''llama-cpp'', MModel = ''x'', Disabled = False,
     Pinned = False, ConcurrencyGroups = ['' gpu'', ''gpu''], Failover = None\<rparr>"

definition warm_source :: config_source where
  "warm_source =
     \<lparr>GetModelConfig = (\<lambda>n. if n = ''m1'' \<or> n = ''m2'' then Some (local_config n) else None),
      GetAllModelsConfigs =
        [(local_config ''c'')\<lparr>Backend := '''', MModel := '''',
           Failover := Some (zero_failover\<lparr>Targets := [\<lparr>FTModel = ''m1'', FTWarm = True\<rparr>, \<lparr>FTModel = ''m2'', FTWarm = False\<rparr>]\<rparr>)\<rparr>]\<rparr>"


section \<open>Concurrency groups\<close>

lemma extract_get:
  assumes "distinct (gm_keys configs)" and "\<forall>p \<in> set configs. Name (snd p) = fst p"
  shows "gm_get (extractModelGroupsFromConfigs (map snd configs)) n =
           (case gm_get configs n of
              None \<Rightarrow> None
            | Some c \<Rightarrow> if IsDisabled c \<or> GetConcurrencyGroups c = [] then None else Some (GetConcurrencyGroups c))
         \<and> distinct (gm_keys (extractModelGroupsFromConfigs (map snd configs)))"
proof -
  let ?f = "\<lambda>cfg out. if IsDisabled cfg then out
    else let gs = GetConcurrencyGroups cfg in if gs = [] then out else gm_put (Name cfg) gs out"
  have "gm_get (fold ?f (map snd ps) acc) n =
      (case gm_get ps n of
         None \<Rightarrow> gm_get acc n
       | Some c \<Rightarrow> if IsDisabled c \<or> GetConcurrencyGroups c = [] then gm_get acc n else Some (GetConcurrencyGroups c))"
    if "distinct (gm_keys ps)" "\<forall>p \<in> set ps. Name (snd p) = fst p" for ps acc
    using that
  proof (induction ps arbitrary: acc)
    case (Cons p ps)
    then have "fst p \<notin> set (gm_keys ps)" by simp
    then have "gm_get ps (fst p) = None" by (simp add: map_of_eq_None_iff)
    with Cons show ?case by (cases p) (auto simp: Let_def gm_get_put split: option.splits)
  qed simp
  moreover have "distinct (gm_keys (fold ?f cs acc))" if "distinct (gm_keys acc)" for cs acc
    using that by (induction cs arbitrary: acc) (simp_all add: Let_def)
  ultimately show ?thesis using assms by (simp add: extractModelGroupsFromConfigs_def split: option.splits)
qed

lemma ReplaceModelGroups_get:
  assumes "distinct (gm_keys groups)"
  shows "GetModelGroups n (ReplaceModelGroups groups wd) = gm_get0 [] groups n"
proof -
  have "gm_get (fold (\<lambda>(name, gs) m. if gs = [] then m else gm_put name gs m) ps acc) n =
      (case gm_get ps n of None \<Rightarrow> gm_get acc n | Some gs \<Rightarrow> if gs = [] then gm_get acc n else Some gs)"
    if "distinct (gm_keys ps)" for ps :: "(string, string list) gomap" and acc
    using that
  proof (induction ps arbitrary: acc)
    case (Cons p ps)
    then have "fst p \<notin> set (gm_keys ps)" by simp
    then have "gm_get ps (fst p) = None" by (simp add: map_of_eq_None_iff)
    with Cons show ?case by (cases p) (auto simp: gm_get_put split: option.splits)
  qed simp
  with assms show ?thesis
    by (auto simp: GetModelGroups_def ReplaceModelGroups_def gm_get0_def split: option.splits)
qed

text \<open>The cluster and the node agree on conflicts. For an enabled model, the models that the
  configuration loader reports as conflicting are exactly those that the watchdog, given the groups
  of all configurations, evicts before it is loaded.\<close>

theorem conflicts_agree:
  assumes "distinct (gm_keys configs)" and "\<forall>p \<in> set configs. Name (snd p) = fst p"
    and "gm_get configs name = Some c" and "\<not> IsDisabled c"
  shows "set (GetModelsConflictingWith configs name) =
           {n. in_conflict (SyncModelGroupsToWatchdog (map snd configs) wd) name n}"
proof -
  let ?wd = "SyncModelGroupsToWatchdog (map snd configs) wd"
  have gs: "GetModelGroups n ?wd =
      (case gm_get configs n of None \<Rightarrow> [] | Some c \<Rightarrow> if IsDisabled c then [] else GetConcurrencyGroups c)" for n
    using extract_get [OF assms(1,2), of n] ReplaceModelGroups_get
    by (auto simp: SyncModelGroupsToWatchdog_def gm_get0_def split: option.splits)
  have "n \<in> set (GetModelsConflictingWith configs name) \<longleftrightarrow> in_conflict ?wd name n" for n
  proof -
    have "n \<in> set (GetModelsConflictingWith configs name) \<longleftrightarrow>
        (\<exists>d. (n, d) \<in> set configs \<and> n \<noteq> name \<and> \<not> IsDisabled d
           \<and> set (GetConcurrencyGroups c) \<inter> set (GetConcurrencyGroups d) \<noteq> {})"
    proof -
      have "GetModelsConflictingWith configs name =
          map fst (filter (\<lambda>p. fst p \<noteq> name \<and> \<not> IsDisabled (snd p)
             \<and> set (GetConcurrencyGroups c) \<inter> set (GetConcurrencyGroups (snd p)) \<noteq> {}) configs)"
      proof (cases "GetConcurrencyGroups c = []")
        case False
        then show ?thesis unfolding GetModelsConflictingWith_def assms(3) Let_def option.case if_not_P [OF False]
          by (intro arg_cong [of _ _ "map fst"] filter_cong refl) (auto simp: list_ex_iff)
      qed (simp add: GetModelsConflictingWith_def assms(3))
      then show ?thesis by (simp add: image_iff)
    qed
    also have "\<dots> \<longleftrightarrow> in_conflict ?wd name n"
    proof -
      have "(n, d) \<in> set configs \<longleftrightarrow> gm_get configs n = Some d" for d
        using gm_get_entry [OF assms(1)] map_of_SomeD [of configs n d] by blast
      then show ?thesis unfolding in_conflict_def gs assms(3)
        by (cases "gm_get configs n") (simp_all add: assms(4))
    qed
    finally show ?thesis .
  qed
  then show ?thesis by blast
qed

definition grouped_configs :: config_map where
  "grouped_configs = map (\<lambda>n. (n, local_config n)) [''m1'', ''m2'']"

theorem conflicts_agree_witness:
  "{n. in_conflict (SyncModelGroupsToWatchdog (map snd grouped_configs) sample_wd) ''m1'' n} = {''m2''}"
proof -
  have "set (GetModelsConflictingWith grouped_configs ''m1'') = {''m2''}" by code_simp
  moreover have "distinct (gm_keys grouped_configs)" "\<forall>p \<in> set grouped_configs. Name (snd p) = fst p"
    by (simp_all add: grouped_configs_def local_config_def)
  moreover obtain c where "gm_get grouped_configs ''m1'' = Some c" "\<not> IsDisabled c"
    by (simp add: grouped_configs_def local_config_def IsDisabled_def)
  ultimately show ?thesis using conflicts_agree [of grouped_configs "''m1''" c sample_wd] by simp
qed

end
