(* ===== verification/WatchdogLifecycle.thy ===== *)
theory WatchdogLifecycle
  imports Main
begin

text \<open>
  The goroutines around one watchdog when the application restarts it:
  \<^verbatim>\<open>Run\<close>, \<^verbatim>\<open>Shutdown\<close> and \<^verbatim>\<open>WaitDone\<close> of
  \<^verbatim>\<open>pkg/model/watchdog.go\<close>, the shutdown handler that \<^verbatim>\<open>startWatchdog\<close> starts and
  \<^verbatim>\<open>RestartWatchdog\<close> of \<^verbatim>\<open>core/application/watchdog.go\<close>.

  A state has the program point of each goroutine, the owner of the watchdog's mutex, the number of
  values in the two channels (each has room for one) and whether the application closed its stop
  channel. A step is one action of one goroutine; a blocked goroutine has no step.
\<close>

section \<open>Program points\<close>

datatype run_pc =
    RunNotStarted
  | RunSelect        \<comment> \<open>in the select of Run\<close>
  | RunLock          \<comment> \<open>the timer fired, about to lock the mutex\<close>
  | RunHold          \<comment> \<open>in a section under the mutex\<close>
  | RunSendDone      \<comment> \<open>about to send on done\<close>
  | RunEnded

datatype handler_pc =
    HandlerWait      \<comment> \<open>in its select\<close>
  | HandlerLock      \<comment> \<open>in Shutdown, about to lock\<close>
  | HandlerSend      \<comment> \<open>in Shutdown, holding the mutex, sending on stop\<close>
  | HandlerEnded

datatype restart_pc =
    RestartState     \<comment> \<open>about to call GetState\<close>
  | RestartClose     \<comment> \<open>about to close the application's stop channel\<close>
  | RestartLock      \<comment> \<open>in Shutdown, about to lock\<close>
  | RestartSend      \<comment> \<open>in Shutdown, holding the mutex, sending on stop\<close>
  | RestartWait      \<comment> \<open>in WaitDone\<close>
  | RestartGoesOn    \<comment> \<open>past WaitDone, starting the new watchdog\<close>

datatype goroutine = GRun | GHandler | GRestart

record life =
  run_at :: run_pc
  handler_at :: handler_pc
  restart_at :: restart_pc
  mutex :: "goroutine option"
  stopLen :: nat
  doneLen :: nat
  appStopClosed :: bool

text \<open>
  \<open>startWatchdog\<close>: it starts \<open>Run\<close> only when one of the periodic checks is enabled; then
  \<open>RestartWatchdog\<close> is called.
\<close>

definition startWatchdog :: "bool \<Rightarrow> life" where
  "startWatchdog checks =
     \<lparr>run_at = (if checks then RunSelect else RunNotStarted), handler_at = HandlerWait, restart_at = RestartState,
      mutex = None, stopLen = 0, doneLen = 0, appStopClosed = False\<rparr>"

text \<open>The steps of \<open>Run\<close>; \<open>run_again\<close> is the next check of the same round.\<close>

inductive run_step :: "life \<Rightarrow> life \<Rightarrow> bool" where
  run_stop: "run_at s = RunSelect \<Longrightarrow> stopLen s > 0 \<Longrightarrow>
     run_step s (s\<lparr>run_at := RunSendDone, stopLen := stopLen s - 1\<rparr>)"
| run_timer: "run_at s = RunSelect \<Longrightarrow> run_step s (s\<lparr>run_at := RunLock\<rparr>)"
| run_lock: "run_at s = RunLock \<Longrightarrow> mutex s = None \<Longrightarrow> run_step s (s\<lparr>run_at := RunHold, mutex := Some GRun\<rparr>)"
| run_again: "run_at s = RunHold \<Longrightarrow> run_step s (s\<lparr>run_at := RunLock, mutex := None\<rparr>)"
| run_round: "run_at s = RunHold \<Longrightarrow> run_step s (s\<lparr>run_at := RunSelect, mutex := None\<rparr>)"
| run_nothing_enabled: "run_at s = RunHold \<Longrightarrow> run_step s (s\<lparr>run_at := RunSendDone, mutex := None\<rparr>)"
| run_done: "run_at s = RunSendDone \<Longrightarrow> doneLen s < 1 \<Longrightarrow>
     run_step s (s\<lparr>run_at := RunEnded, doneLen := doneLen s + 1\<rparr>)"

inductive handler_step :: "life \<Rightarrow> life \<Rightarrow> bool" where
  handler_signalled: "handler_at s = HandlerWait \<Longrightarrow> appStopClosed s \<Longrightarrow> handler_step s (s\<lparr>handler_at := HandlerLock\<rparr>)"
| handler_lock: "handler_at s = HandlerLock \<Longrightarrow> mutex s = None \<Longrightarrow>
     handler_step s (s\<lparr>handler_at := HandlerSend, mutex := Some GHandler\<rparr>)"
| handler_send: "handler_at s = HandlerSend \<Longrightarrow> stopLen s < 1 \<Longrightarrow>
     handler_step s (s\<lparr>handler_at := HandlerEnded, stopLen := stopLen s + 1, mutex := None\<rparr>)"

inductive restart_step :: "life \<Rightarrow> life \<Rightarrow> bool" where
  restart_state: "restart_at s = RestartState \<Longrightarrow> mutex s = None \<Longrightarrow> restart_step s (s\<lparr>restart_at := RestartClose\<rparr>)"
| restart_close: "restart_at s = RestartClose \<Longrightarrow>
     restart_step s (s\<lparr>restart_at := RestartLock, appStopClosed := True\<rparr>)"
| restart_lock: "restart_at s = RestartLock \<Longrightarrow> mutex s = None \<Longrightarrow>
     restart_step s (s\<lparr>restart_at := RestartSend, mutex := Some GRestart\<rparr>)"
| restart_send: "restart_at s = RestartSend \<Longrightarrow> stopLen s < 1 \<Longrightarrow>
     restart_step s (s\<lparr>restart_at := RestartWait, stopLen := stopLen s + 1, mutex := None\<rparr>)"
| restart_done: "restart_at s = RestartWait \<Longrightarrow> doneLen s > 0 \<Longrightarrow>
     restart_step s (s\<lparr>restart_at := RestartGoesOn, doneLen := doneLen s - 1\<rparr>)"

definition life_step :: "life \<Rightarrow> life \<Rightarrow> bool" where
  "life_step s s' \<longleftrightarrow> run_step s s' \<or> handler_step s s' \<or> restart_step s s'"

inductive_cases run_stepE: "run_step s s'"
inductive_cases handler_stepE: "handler_step s s'"
inductive_cases restart_stepE: "restart_step s s'"

lemmas life_stepEs = run_stepE handler_stepE restart_stepE

section \<open>What is reachable\<close>

inductive reachable :: "bool \<Rightarrow> life \<Rightarrow> bool" for checks where
  initially: "reachable checks (startWatchdog checks)"
| next_step: "reachable checks s \<Longrightarrow> life_step s s' \<Longrightarrow> reachable checks s'"

text \<open>The mutex is held exactly by the goroutine that is in a section under it.\<close>

definition mutex_ok :: "life \<Rightarrow> bool" where
  "mutex_ok s \<longleftrightarrow>
     mutex s = (if run_at s = RunHold then Some GRun
                else if handler_at s = HandlerSend then Some GHandler
                else if restart_at s = RestartSend then Some GRestart else None)
     \<and> \<not> (run_at s = RunHold \<and> handler_at s = HandlerSend)
     \<and> \<not> (run_at s = RunHold \<and> restart_at s = RestartSend)
     \<and> \<not> (handler_at s = HandlerSend \<and> restart_at s = RestartSend)
     \<and> stopLen s \<le> 1 \<and> doneLen s \<le> 1"

lemma mutex_ok_step: "mutex_ok s \<Longrightarrow> life_step s s' \<Longrightarrow> mutex_ok s'"
  unfolding life_step_def by (elim disjE life_stepEs) (auto simp: mutex_ok_def split: if_splits)

lemma reachable_mutex_ok: "reachable checks s \<Longrightarrow> mutex_ok s"
proof (induction rule: reachable.induct)
  case initially
  then show ?case by (simp add: startWatchdog_def mutex_ok_def)
qed (rule mutex_ok_step)

text \<open>Signals: who sent them and who took them.\<close>

definition signals_ok :: "life \<Rightarrow> bool" where
  "signals_ok s \<longleftrightarrow>
     run_at s \<noteq> RunNotStarted
     \<and> (run_at s \<noteq> RunEnded \<longrightarrow> doneLen s = 0 \<and> restart_at s \<noteq> RestartGoesOn)
     \<and> (run_at s = RunEnded \<longrightarrow> doneLen s = 1 \<or> restart_at s = RestartGoesOn)
     \<and> (appStopClosed s \<longleftrightarrow> restart_at s \<noteq> RestartState \<and> restart_at s \<noteq> RestartClose)
     \<and> (handler_at s \<noteq> HandlerWait \<longrightarrow> appStopClosed s)
     \<and> stopLen s \<le> (if handler_at s = HandlerEnded then 1 else 0)
          + (if restart_at s = RestartWait \<or> restart_at s = RestartGoesOn then 1 else 0)"

lemma signals_ok_step: "signals_ok s \<Longrightarrow> life_step s s' \<Longrightarrow> signals_ok s'"
  unfolding life_step_def by (elim disjE life_stepEs) (auto simp: signals_ok_def split: if_splits)

lemma reachable_signals_ok: "reachable True s \<Longrightarrow> signals_ok s"
proof (induction rule: reachable.induct)
  case initially
  then show ?case by (simp add: startWatchdog_def signals_ok_def)
qed (rule signals_ok_step)

lemma not_started_stays:
  assumes "reachable False s"
  shows "run_at s = RunNotStarted \<and> doneLen s = 0 \<and> restart_at s \<noteq> RestartGoesOn"
  using assms
proof (induction rule: reachable.induct)
  case initially
  then show ?case by (simp add: startWatchdog_def)
next
  case (next_step s s')
  then show ?case unfolding life_step_def by (auto elim!: life_stepEs)
qed

text \<open>A watchdog with only the limit on loaded models has no \<open>Run\<close> goroutine, so nothing ever
  signals that it is done: \<open>RestartWatchdog\<close> never gets past \<open>WaitDone\<close>, in any schedule. It keeps the
  application's watchdog lock, and the request that changed the settings does not return.\<close>

lemma restart_without_Run_waits:
  assumes "reachable False s"
  shows "restart_at s \<noteq> RestartGoesOn \<and> (restart_at s = RestartWait \<longrightarrow> \<not> (\<exists>s'. restart_step s s'))"
  using not_started_stays [OF assms] by (auto elim!: restart_stepE)

lemma reachable_steps:
  "reachable checks s \<Longrightarrow> life_step\<^sup>*\<^sup>* s s' \<Longrightarrow> reachable checks s'"
  by (rotate_tac, induction rule: rtranclp_induct) (auto intro: next_step)

lemma restart_without_Run_example:
  "\<exists>s. reachable False s \<and> restart_at s = RestartWait \<and> \<not> (\<exists>s'. restart_step s s')"
proof -
  let ?s0 = "startWatchdog False"
  let ?s1 = "?s0\<lparr>restart_at := RestartClose\<rparr>"
  let ?s2 = "?s1\<lparr>restart_at := RestartLock, appStopClosed := True\<rparr>"
  let ?s3 = "?s2\<lparr>restart_at := RestartSend, mutex := Some GRestart\<rparr>"
  let ?s4 = "?s3\<lparr>restart_at := RestartWait, stopLen := stopLen ?s3 + 1, mutex := None\<rparr>"
  have "restart_step ?s0 ?s1" by (rule restart_state) (simp_all add: startWatchdog_def)
  moreover have "restart_step ?s1 ?s2" by (rule restart_close) simp
  moreover have "restart_step ?s2 ?s3" by (rule restart_lock) (simp_all add: startWatchdog_def)
  moreover have "restart_step ?s3 ?s4" by (rule restart_send) (simp_all add: startWatchdog_def)
  ultimately have "reachable False ?s4"
    by (meson initially life_step_def next_step)
  from restart_without_Run_waits [OF this] this show ?thesis by auto
qed

section \<open>The restart with a running watchdog\<close>

definition stuck :: "life \<Rightarrow> bool" where
  "stuck s \<longleftrightarrow> \<not> (\<exists>s'. life_step s s')"

lemma stuck_iff:
  "stuck s \<longleftrightarrow> (\<forall>s'. \<not> run_step s s') \<and> (\<forall>s'. \<not> handler_step s s') \<and> (\<forall>s'. \<not> restart_step s s')"
  by (auto simp: stuck_def life_step_def)

lemma stuck_run: "\<forall>s'. \<not> run_step s s' \<Longrightarrow>
    run_at s = RunNotStarted \<or> run_at s = RunLock \<and> mutex s \<noteq> None \<or> run_at s = RunSendDone \<and> doneLen s \<ge> 1 \<or> run_at s = RunEnded"
  by (cases "run_at s") (use run_timer run_lock run_again run_done not_less in blast)+

lemma stuck_handler: "\<forall>s'. \<not> handler_step s s' \<Longrightarrow>
    handler_at s = HandlerWait \<and> \<not> appStopClosed s \<or> handler_at s = HandlerLock \<and> mutex s \<noteq> None
    \<or> handler_at s = HandlerSend \<and> stopLen s \<ge> 1 \<or> handler_at s = HandlerEnded"
  by (cases "handler_at s") (use handler_signalled handler_lock handler_send not_less in blast)+

lemma stuck_restart: "\<forall>s'. \<not> restart_step s s' \<Longrightarrow>
    restart_at s = RestartState \<and> mutex s \<noteq> None \<or> restart_at s = RestartLock \<and> mutex s \<noteq> None
    \<or> restart_at s = RestartSend \<and> stopLen s \<ge> 1 \<or> restart_at s = RestartWait \<and> doneLen s = 0 \<or> restart_at s = RestartGoesOn"
  by (cases "restart_at s") (use restart_state restart_close restart_lock restart_send restart_done not_less in blast)+

lemma stuck_shape:
  assumes "reachable True s" and "stuck s"
  shows "restart_at s = RestartGoesOn
         \<or> stopLen s = 1 \<and> (restart_at s = RestartSend \<or> restart_at s = RestartWait \<and> handler_at s = HandlerSend)
           \<and> (run_at s = RunLock \<or> run_at s = RunEnded)"
proof -
  note m = reachable_mutex_ok [OF assms(1)] and g = reachable_signals_ok [OF assms(1)]
  note st = stuck_run stuck_handler stuck_restart
  from assms(2) st have "run_at s = RunNotStarted \<or> run_at s = RunLock \<and> mutex s \<noteq> None \<or> run_at s = RunSendDone \<and> doneLen s \<ge> 1 \<or> run_at s = RunEnded"
    and "handler_at s = HandlerWait \<and> \<not> appStopClosed s \<or> handler_at s = HandlerLock \<and> mutex s \<noteq> None
      \<or> handler_at s = HandlerSend \<and> stopLen s \<ge> 1 \<or> handler_at s = HandlerEnded"
    and "restart_at s = RestartState \<and> mutex s \<noteq> None \<or> restart_at s = RestartLock \<and> mutex s \<noteq> None
      \<or> restart_at s = RestartSend \<and> stopLen s \<ge> 1 \<or> restart_at s = RestartWait \<and> doneLen s = 0 \<or> restart_at s = RestartGoesOn"
    by (auto simp: stuck_iff)
  with m g show ?thesis unfolding mutex_ok_def signals_ok_def
    by (cases "restart_at s"; cases "handler_at s"; cases "run_at s"; simp)
qed

text \<open>With \<open>Run\<close> started, a restart can go through, but it can also deadlock. Both the shutdown
  handler and \<open>RestartWatchdog\<close> call \<open>Shutdown\<close>, which sends on a channel with room for one value while
  it holds the mutex; if the timer fires first, \<open>Run\<close> waits for that mutex, the second \<open>Shutdown\<close> waits
  for \<open>Run\<close> to take the first signal, and no goroutine has a step left. These are the only states in
  which the restart is stuck: one of the two is sending into the full channel.\<close>

lemma restart_with_Run:
  "(\<exists>s. reachable True s \<and> restart_at s = RestartGoesOn)
   \<and> (\<exists>s. reachable True s \<and> stuck s \<and> restart_at s = RestartSend \<and> run_at s = RunLock)
   \<and> (\<forall>s. reachable True s \<and> stuck s \<longrightarrow>
        restart_at s = RestartGoesOn
        \<or> stopLen s = 1 \<and> (restart_at s = RestartSend \<or> restart_at s = RestartWait \<and> handler_at s = HandlerSend)
          \<and> (run_at s = RunLock \<or> run_at s = RunEnded))"
proof (intro conjI)
  let ?s0 = "startWatchdog True"
  let ?s1 = "?s0\<lparr>restart_at := RestartClose\<rparr>"
  let ?s2 = "?s1\<lparr>restart_at := RestartLock, appStopClosed := True\<rparr>"
  have r2: "reachable True ?s2"
  proof (rule next_step, rule next_step)
    show "reachable True ?s0" by (rule initially)
    show "life_step ?s0 ?s1" unfolding life_step_def
      by (intro disjI2, rule restart_state) (simp_all add: startWatchdog_def)
    show "life_step ?s1 ?s2" unfolding life_step_def by (intro disjI2, rule restart_close) simp
  qed
  show "\<exists>s. reachable True s \<and> restart_at s = RestartGoesOn"
  proof -
    let ?s3 = "?s2\<lparr>restart_at := RestartSend, mutex := Some GRestart\<rparr>"
    let ?s4 = "?s3\<lparr>restart_at := RestartWait, stopLen := stopLen ?s3 + 1, mutex := None\<rparr>"
    let ?s5 = "?s4\<lparr>run_at := RunSendDone, stopLen := stopLen ?s4 - 1\<rparr>"
    let ?s6 = "?s5\<lparr>run_at := RunEnded, doneLen := doneLen ?s5 + 1\<rparr>"
    let ?s7 = "?s6\<lparr>restart_at := RestartGoesOn, doneLen := doneLen ?s6 - 1\<rparr>"
    have "restart_step ?s2 ?s3" by (rule restart_lock) (simp_all add: startWatchdog_def)
    moreover have "restart_step ?s3 ?s4" by (rule restart_send) (simp_all add: startWatchdog_def)
    moreover have "run_step ?s4 ?s5" by (rule run_stop) (simp_all add: startWatchdog_def)
    moreover have "run_step ?s5 ?s6" by (rule run_done) (simp_all add: startWatchdog_def)
    moreover have "restart_step ?s6 ?s7" by (rule restart_done) (simp_all add: startWatchdog_def)
    ultimately have "reachable True ?s7" using r2 by (meson life_step_def next_step)
    then show ?thesis by (intro exI [of _ ?s7]) simp
  qed
  show "\<exists>s. reachable True s \<and> stuck s \<and> restart_at s = RestartSend \<and> run_at s = RunLock"
  proof -
    let ?s3 = "?s2\<lparr>run_at := RunLock\<rparr>"
    let ?s4 = "?s3\<lparr>handler_at := HandlerLock\<rparr>"
    let ?s5 = "?s4\<lparr>handler_at := HandlerSend, mutex := Some GHandler\<rparr>"
    let ?s6 = "?s5\<lparr>handler_at := HandlerEnded, stopLen := stopLen ?s5 + 1, mutex := None\<rparr>"
    let ?s7 = "?s6\<lparr>restart_at := RestartSend, mutex := Some GRestart\<rparr>"
    have "run_step ?s2 ?s3" by (rule run_timer) (simp add: startWatchdog_def)
    moreover have "handler_step ?s3 ?s4" by (rule handler_signalled) (simp_all add: startWatchdog_def)
    moreover have "handler_step ?s4 ?s5" by (rule handler_lock) (simp_all add: startWatchdog_def)
    moreover have "handler_step ?s5 ?s6" by (rule handler_send) (simp_all add: startWatchdog_def)
    moreover have "restart_step ?s6 ?s7" by (rule restart_lock) (simp_all add: startWatchdog_def)
    ultimately have "reachable True ?s7" using r2 by (meson life_step_def next_step)
    moreover have "stuck ?s7"
      unfolding stuck_iff by (auto elim!: life_stepEs simp: startWatchdog_def)
    ultimately show ?thesis by (intro exI [of _ ?s7]) (simp add: startWatchdog_def)
  qed
qed (use stuck_shape in blast)

text \<open>C25: what becomes of a restart. Without periodic checks there is no \<open>Run\<close> goroutine to signal that it is done, and
  \<open>RestartWatchdog\<close> never gets past \<open>WaitDone\<close> in any schedule. With \<open>Run\<close> started a restart can go
  through, but two \<open>Shutdown\<close> calls can deadlock with \<open>Run\<close>: these are the only states in which it is stuck.\<close>

theorem restart_outcomes:
  "(\<forall>s. reachable False s \<longrightarrow> restart_at s \<noteq> RestartGoesOn \<and> (restart_at s = RestartWait \<longrightarrow> \<not> (\<exists>s'. restart_step s s')))
   \<and> (\<exists>s. reachable False s \<and> restart_at s = RestartWait)
   \<and> (\<exists>s. reachable True s \<and> restart_at s = RestartGoesOn)
   \<and> (\<exists>s. reachable True s \<and> stuck s \<and> restart_at s = RestartSend \<and> run_at s = RunLock)
   \<and> (\<forall>s. reachable True s \<and> stuck s \<longrightarrow>
        restart_at s = RestartGoesOn
        \<or> stopLen s = 1 \<and> (restart_at s = RestartSend \<or> restart_at s = RestartWait \<and> handler_at s = HandlerSend)
          \<and> (run_at s = RunLock \<or> run_at s = RunEnded))"
  using restart_without_Run_waits restart_without_Run_example restart_with_Run by blast

theorem restart_outcomes_witness:
  "(\<exists>s. reachable True s \<and> stuck s \<and> restart_at s = RestartSend \<and> stopLen s = 1)
   \<and> (\<exists>s. reachable False s \<and> restart_at s = RestartWait \<and> \<not> (\<exists>s'. restart_step s s'))"
proof -
  from restart_outcomes obtain s where s: "reachable True s" "stuck s" "restart_at s = RestartSend" by blast
  with restart_outcomes have "stopLen s = 1" by fastforce
  moreover from restart_outcomes have "\<exists>s. reachable False s \<and> restart_at s = RestartWait \<and> \<not> (\<exists>s'. restart_step s s')" by blast
  ultimately show ?thesis using s by blast
qed

end
