(* ===== verification/OpScheduler.thy ===== *)
theory OpScheduler
  imports Prelude "HOL-Library.Sublist"
begin

text \<open>
  The scheduler of gallery operations, \<open>core/services/galleryop/scheduler.go\<close>: installs, upgrades and
  deletions of backends run with a bounded number of workers, and two operations on one backend never
  run together.

  A task is its identity (the pointer), its key and whether it has a context. The closures \<open>run\<close> and
  \<open>abandon\<close> are not looked into: the state records for which tasks each was started. The watch that
  \<open>context.AfterFunc\<close> registers is armed, stopped, fired (its goroutine is on the way) or done. A
  critical section is one event, a goroutine that runs a task is an entry of \<open>active\<close>, and an event
  that looks for work carries the number that \<open>limit()\<close> returns.
\<close>

section \<open>State and operations\<close>

record op_task =
  tid :: nat
  key :: string
  has_ctx :: bool

datatype watch = Armed | Stopped | Fired | CallbackDone

text \<open>The fields of \<open>opScheduler\<close>, then what lives in goroutines and contexts, then the history.\<close>

record scheduler =
  pending :: "op_task list"
  running :: int
  busy :: "(string, unit) gomap"
  watches :: "(nat, watch) gomap"
  ended :: "nat list"
  active :: "op_task list"
  sweeping :: "op_task list"
  submitted :: "op_task list"
  started :: "op_task list"
  finished :: "op_task list"
  abandoned :: "op_task list"
  swept :: "op_task list"

definition newOpScheduler :: scheduler where
  "newOpScheduler = \<lparr>pending = [], running = 0, busy = [], watches = [], ended = [], active = [], sweeping = [],
     submitted = [], started = [], finished = [], abandoned = [], swept = []\<rparr>"

definition maxRunning :: "int \<Rightarrow> int" where
  "maxRunning n = (if n > 1 then n else 1)"

text \<open>The stop function of \<open>context.AfterFunc\<close>: whether it kept the callback from running.\<close>

definition stopWatch :: "op_task \<Rightarrow> scheduler \<Rightarrow> bool \<times> scheduler" where
  "stopWatch t s =
     (if gm_get (watches s) (tid t) = Some Armed then (True, s\<lparr>watches := gm_put (tid t) Stopped (watches s)\<rparr>)
      else (False, s))"

definition run_abandon :: "op_task \<Rightarrow> scheduler \<Rightarrow> scheduler" where
  "run_abandon t s = s\<lparr>abandoned := abandoned s @ [t]\<rparr>"

definition start_task :: "op_task \<Rightarrow> scheduler \<Rightarrow> scheduler" where
  "start_task t s = s\<lparr>busy := gm_put (key t) () (busy s), running := running s + 1,
     active := active s @ [t], started := started s @ [t]\<rparr>"

definition take_pending :: "nat \<Rightarrow> scheduler \<Rightarrow> scheduler" where
  "take_pending i s = s\<lparr>pending := take i (pending s) @ drop (i + 1) (pending s)\<rparr>"

text \<open>What the loop of \<open>dispatchLocked\<close> does with the task it removes.\<close>

definition launch :: "op_task \<Rightarrow> scheduler \<Rightarrow> scheduler" where
  "launch t s =
     (if gm_get (watches s) (tid t) \<noteq> None
      then (case stopWatch t s of
              (False, s1) \<Rightarrow> run_abandon t s1
            | (True, s1) \<Rightarrow> start_task t s1)
      else start_task t s)"

lemma launch_pending [simp]: "pending (launch t s) = pending s"
  by (simp add: launch_def stopWatch_def run_abandon_def start_task_def)

function dispatch_loop :: "int \<Rightarrow> nat \<Rightarrow> scheduler \<Rightarrow> scheduler" where
  "dispatch_loop mx i s =
     (if i < length (pending s) \<and> running s < mx
      then let t = pending s ! i
           in if gm_get (busy s) (key t) \<noteq> None then dispatch_loop mx (i + 1) s
              else dispatch_loop mx i (launch t (take_pending i s))
      else s)"
  by pat_completeness auto

termination
  by (relation "measure (\<lambda>(mx, i, s). length (pending s) - i)") (auto simp: take_pending_def)

declare dispatch_loop.simps [simp del]

definition dispatchLocked :: "int \<Rightarrow> scheduler \<Rightarrow> scheduler" where
  "dispatchLocked limit s = dispatch_loop (maxRunning limit) 0 s"

definition submit :: "int \<Rightarrow> op_task \<Rightarrow> scheduler \<Rightarrow> scheduler" where
  "submit limit t s =
     (let s1 = s\<lparr>pending := pending s @ [t], submitted := submitted s @ [t]\<rparr>;
          s2 = (if has_ctx t
                then s1\<lparr>watches := gm_put (tid t) (if tid t \<in> set (ended s) then Fired else Armed) (watches s1)\<rparr>
                else s1)
      in dispatchLocked limit s2)"

definition kick :: "int \<Rightarrow> scheduler \<Rightarrow> scheduler" where
  "kick limit s = dispatchLocked limit s"

definition hasPending :: "scheduler \<Rightarrow> bool" where
  "hasPending s \<longleftrightarrow> length (pending s) > 0"

text \<open>\<open>abandonAll\<close> takes the queue under the lock, and then handles the tasks one by one outside it.\<close>

definition abandonAll_take :: "scheduler \<Rightarrow> scheduler" where
  "abandonAll_take s = s\<lparr>pending := [], sweeping := sweeping s @ pending s, swept := swept s @ pending s\<rparr>"

definition abandonAll_one :: "op_task \<Rightarrow> scheduler \<Rightarrow> scheduler" where
  "abandonAll_one t s =
     (let s1 = s\<lparr>sweeping := remove1 t (sweeping s)\<rparr>;
          s2 = (if gm_get (watches s1) (tid t) \<noteq> None then snd (stopWatch t s1) else s1)
      in run_abandon t s2)"

definition dropPending :: "op_task \<Rightarrow> scheduler \<Rightarrow> scheduler" where
  "dropPending t s =
     (if t \<in> set (pending s) then run_abandon t (s\<lparr>pending := remove1 t (pending s)\<rparr>) else s)"

text \<open>The deferred function of the goroutine that ran \<open>t\<close>.\<close>

definition task_done :: "int \<Rightarrow> op_task \<Rightarrow> scheduler \<Rightarrow> scheduler" where
  "task_done limit t s =
     dispatchLocked limit
       (s\<lparr>active := remove1 t (active s), finished := finished s @ [t],
          running := running s - 1, busy := gm_del (key t) (busy s)\<rparr>)"

section \<open>Runs\<close>

datatype event =
    Submit op_task int
  | Kick int
  | CtxEnds nat
  | Callback op_task
  | SweepTake
  | SweepOne op_task
  | TaskDone op_task int

text \<open>\<open>None\<close> where the event cannot happen: a task is a fresh object when it is submitted, a callback
  runs once and only after its watch fired, and only running tasks end.\<close>

fun sched_exec :: "event \<Rightarrow> scheduler \<Rightarrow> scheduler option" where
  "sched_exec (Submit t n) s = (if tid t \<in> tid ` set (submitted s) then None else Some (submit n t s))"
| "sched_exec (Kick n) s = Some (kick n s)"
| "sched_exec (CtxEnds i) s =
     Some (s\<lparr>ended := i # ended s,
             watches := (if gm_get (watches s) i = Some Armed then gm_put i Fired (watches s) else watches s)\<rparr>)"
| "sched_exec (Callback t) s =
     (if t \<in> set (submitted s) \<and> gm_get (watches s) (tid t) = Some Fired
      then Some (dropPending t (s\<lparr>watches := gm_put (tid t) CallbackDone (watches s)\<rparr>)) else None)"
| "sched_exec SweepTake s = Some (abandonAll_take s)"
| "sched_exec (SweepOne t) s = (if t \<in> set (sweeping s) then Some (abandonAll_one t s) else None)"
| "sched_exec (TaskDone t n) s = (if t \<in> set (active s) then Some (task_done n t s) else None)"

fun sched_run :: "event list \<Rightarrow> scheduler \<Rightarrow> scheduler option" where
  "sched_run [] s = Some s"
| "sched_run (e # es) s = (case sched_exec e s of None \<Rightarrow> None | Some s1 \<Rightarrow> sched_run es s1)"

fun event_limit :: "event \<Rightarrow> int" where
  "event_limit (Submit t n) = maxRunning n"
| "event_limit (Kick n) = maxRunning n"
| "event_limit (TaskDone t n) = maxRunning n"
| "event_limit _ = 1"

section \<open>The key of an operation\<close>

text \<open>\<^verbatim>\<open>strings.LastIndex(name, "@")\<close> with the slice behind it: the part after the last \<open>@\<close>, or the
  whole name.\<close>

definition after_last_at :: "string \<Rightarrow> string" where
  "after_last_at s = rev (takeWhile (\<lambda>c. c \<noteq> CHR ''@'') (rev s))"

definition backendOpKey :: "string \<Rightarrow> string \<Rightarrow> string" where
  "backendOpKey elementName externalName =
     (let name = (if externalName = [] then elementName else externalName)
      in ToLower (TrimSpace (after_last_at name)))"


section \<open>The loop of \<open>dispatchLocked\<close>\<close>

lemma dispatch_loop_rule:
  assumes "P i s"
    and skip: "\<And>i s. P i s \<Longrightarrow> i < length (pending s) \<Longrightarrow> running s < mx \<Longrightarrow>
      gm_get (busy s) (key (pending s ! i)) \<noteq> None \<Longrightarrow> P (i + 1) s"
    and step: "\<And>i s. P i s \<Longrightarrow> i < length (pending s) \<Longrightarrow> running s < mx \<Longrightarrow>
      gm_get (busy s) (key (pending s ! i)) = None \<Longrightarrow> P i (launch (pending s ! i) (take_pending i s))"
  shows "\<exists>j. P j (dispatch_loop mx i s) \<and> (length (pending (dispatch_loop mx i s)) \<le> j \<or> mx \<le> running (dispatch_loop mx i s))"
  using assms(1)
proof (induction "length (pending s) - i" arbitrary: i s rule: less_induct)
  case less
  note run = dispatch_loop.simps [of mx i s]
  show ?case
  proof (cases "i < length (pending s) \<and> running s < mx")
    case True
    show ?thesis
    proof (cases "gm_get (busy s) (key (pending s ! i)) = None")
      case free: True
      have "P i (launch (pending s ! i) (take_pending i s))" using less.prems True free by (intro step) simp_all
      moreover have "length (pending (launch (pending s ! i) (take_pending i s))) - i < length (pending s) - i"
        using True by (auto simp: take_pending_def)
      ultimately show ?thesis using less.hyps True free by (simp add: run)
    next
      case False
      have "P (i + 1) s" using less.prems True False by (intro skip) simp_all
      moreover have "length (pending s) - (i + 1) < length (pending s) - i" using True by auto
      ultimately show ?thesis using less.hyps [of s "i + 1"] True False by (simp add: run)
    qed
  next
    case False
    with less.prems show ?thesis by (auto simp: run)
  qed
qed

section \<open>The invariant\<close>

text \<open>\<open>M\<close> bounds the limits that were read. A submitted task is waiting, being swept, started or
  abandoned, in one of these ways only; the keys of the running tasks are the busy ones and differ; the
  tasks of one key start in the order they came, and with a limit of 1 all of them do; a task is
  abandoned only when its context ended or the queue was swept.\<close>

definition tasks_ok :: "scheduler \<Rightarrow> bool" where
  "tasks_ok s \<longleftrightarrow> distinct (map tid (submitted s))
     \<and> mset (submitted s) = mset (pending s) + mset (sweeping s) + mset (started s) + mset (abandoned s)
     \<and> mset (started s) = mset (active s) + mset (finished s)"

definition keys_ok :: "int \<Rightarrow> scheduler \<Rightarrow> bool" where
  "keys_ok M s \<longleftrightarrow> running s = int (length (active s)) \<and> running s \<le> M
     \<and> distinct (map key (active s)) \<and> (\<forall>k. gm_get (busy s) k \<noteq> None \<longleftrightarrow> k \<in> key ` set (active s))"

definition order_ok :: "int \<Rightarrow> scheduler \<Rightarrow> bool" where
  "order_ok M s \<longleftrightarrow> (\<forall>k. subseq (filter (\<lambda>t. key t = k) (started s @ pending s)) (filter (\<lambda>t. key t = k) (submitted s)))
     \<and> (M = 1 \<longrightarrow> subseq (started s @ pending s) (submitted s))"

definition watches_ok :: "scheduler \<Rightarrow> bool" where
  "watches_ok s \<longleftrightarrow> (\<forall>t \<in> set (submitted s). gm_get (watches s) (tid t) \<noteq> None \<longleftrightarrow> has_ctx t)
     \<and> (\<forall>n. gm_get (watches s) n \<noteq> None \<longrightarrow> n \<in> tid ` set (submitted s))
     \<and> (\<forall>t \<in> set (pending s). gm_get (watches s) (tid t) \<notin> {Some Stopped, Some CallbackDone})
     \<and> (\<forall>n. gm_get (watches s) n \<in> {Some Fired, Some CallbackDone} \<longrightarrow> n \<in> set (ended s))
     \<and> (\<forall>t \<in> set (abandoned s). tid t \<in> set (ended s) \<or> t \<in> set (swept s))
     \<and> set (sweeping s) \<subseteq> set (swept s)"

definition sched_ok :: "int \<Rightarrow> scheduler \<Rightarrow> bool" where
  "sched_ok M s \<longleftrightarrow> tasks_ok s \<and> keys_ok M s \<and> order_ok M s \<and> watches_ok s"


lemmas sched_ok_defs = sched_ok_def tasks_ok_def keys_ok_def order_ok_def watches_ok_def

lemma launch_cases:
  obtains (start) w where "launch t s = start_task t (s\<lparr>watches := w\<rparr>)"
      "w = watches s \<and> gm_get (watches s) (tid t) = None \<or> w = gm_put (tid t) Stopped (watches s) \<and> gm_get (watches s) (tid t) = Some Armed"
  | (abandon) "launch t s = run_abandon t s" "gm_get (watches s) (tid t) \<noteq> None" "gm_get (watches s) (tid t) \<noteq> Some Armed"
proof (cases "gm_get (watches s) (tid t)")
  case None
  then have "launch t s = start_task t (s\<lparr>watches := watches s\<rparr>)" by (simp add: launch_def)
  with None start show thesis by blast
next
  case (Some w)
  then show thesis using start abandon by (cases "w = Armed") (simp_all add: launch_def stopWatch_def)
qed

text \<open>The tasks of a list that was put together from waiting tasks are the first ones of their keys.\<close>

lemma subseq_skip: "subseq (xs @ us @ vs) (xs @ us @ t # vs)"
  by (induction xs) (auto simp: subseq_append_iff)

lemma launch_tasks:
  assumes "tasks_ok s" and "pending s = us @ t # vs"
  shows "tasks_ok (launch t (s\<lparr>pending := us @ vs\<rparr>))"
  by (rule launch_cases [of t "s\<lparr>pending := us @ vs\<rparr>"])
     (use assms in \<open>auto simp: tasks_ok_def start_task_def run_abandon_def\<close>)

lemma launch_keys:
  assumes "keys_ok M s" and "running s < M" and "gm_get (busy s) (key t) = None"
  shows "keys_ok M (launch t (s\<lparr>pending := ps\<rparr>))"
    and "gm_get (busy s) k \<noteq> None \<Longrightarrow> gm_get (busy (launch t (s\<lparr>pending := ps\<rparr>))) k \<noteq> None"
  by (rule launch_cases [of t "s\<lparr>pending := ps\<rparr>"]; use assms in \<open>force simp: keys_ok_def start_task_def run_abandon_def gm_get_put\<close>)+

lemma launch_order:
  assumes "order_ok M s" and "keys_ok M s" and "pending s = us @ t # vs" and "running s < M"
    and "gm_get (busy s) (key t) = None" and "\<forall>u \<in> set us. gm_get (busy s) (key u) \<noteq> None"
  shows "order_ok M (launch t (s\<lparr>pending := us @ vs\<rparr>))"
proof -
  have other: "filter (\<lambda>u. key u = key t) us = []" using assms(5,6) by (auto simp: filter_empty_conv)
  have first: "us = []" if "M = 1"
  proof -
    from assms(2,4) that have "active s = []" by (simp add: keys_ok_def)
    with assms(2,6) have "set us = {}" by (auto simp: keys_ok_def)
    then show ?thesis by simp
  qed
  have *: "subseq (started s @ us @ vs) (started s @ us @ t # vs)" by (rule subseq_skip)
  show ?thesis
  proof (rule launch_cases [of t "s\<lparr>pending := us @ vs\<rparr>"])
    fix w assume l: "launch t (s\<lparr>pending := us @ vs\<rparr>) = start_task t (s\<lparr>pending := us @ vs, watches := w\<rparr>)"
    have "filter (\<lambda>u. key u = k) ((started s @ [t]) @ us @ vs) = filter (\<lambda>u. key u = k) (started s @ us @ t # vs)" for k
      using other by (cases "key t = k") simp_all
    with assms(1,3) first show ?thesis by (simp add: l start_task_def order_ok_def)
  next
    assume l: "launch t (s\<lparr>pending := us @ vs\<rparr>) = run_abandon t (s\<lparr>pending := us @ vs\<rparr>)"
    have "subseq (filter (\<lambda>u. key u = k) (started s @ us @ vs)) (filter (\<lambda>u. key u = k) (started s @ us @ t # vs))" for k
      by (rule subseq_filter) (rule *)
    with * assms(1,3) show ?thesis
      unfolding l run_abandon_def order_ok_def by simp (meson subseq_order.order_trans)
  qed
qed

lemma tasks_ok_sets:
  assumes "tasks_ok s"
  shows "set (submitted s) = set (pending s) \<union> set (sweeping s) \<union> set (started s) \<union> set (abandoned s)"
    and "set (started s) = set (active s) \<union> set (finished s)"
    and "distinct (submitted s)" "distinct (pending s)" "distinct (active s)" "set (pending s) \<inter> set (sweeping s) = {}"
proof -
  from assms have m: "mset (submitted s) = mset (pending s) + mset (sweeping s) + mset (started s) + mset (abandoned s)"
    and a: "mset (started s) = mset (active s) + mset (finished s)"
    and d: "distinct (map tid (submitted s))" by (simp_all add: tasks_ok_def)
  from m show "set (submitted s) = set (pending s) \<union> set (sweeping s) \<union> set (started s) \<union> set (abandoned s)"
    by (metis set_mset_mset set_mset_union)
  from a show "set (started s) = set (active s) \<union> set (finished s)" by (metis set_mset_mset set_mset_union)
  from d show ds: "distinct (submitted s)" by (rule distinct_map [THEN iffD1, THEN conjunct1])
  then have "distinct (pending s @ sweeping s @ (active s @ finished s) @ abandoned s)"
    using m a by (metis (no_types, lifting) mset_append mset_eq_imp_distinct_iff union_assoc)
  then show "distinct (pending s)" "distinct (active s)" "set (pending s) \<inter> set (sweeping s) = {}" by auto
qed

lemma tid_submitted:
  "tasks_ok s \<Longrightarrow> t \<in> set (submitted s) \<Longrightarrow> u \<in> set (submitted s) \<Longrightarrow> tid u = tid t \<Longrightarrow> u = t"
  by (auto simp: tasks_ok_def distinct_map dest: inj_onD)

lemma watches_ok_put:
  assumes "watches_ok s" and "gm_get (watches s) n \<noteq> None"
    and "w = Stopped \<or> w = CallbackDone \<Longrightarrow> n \<notin> tid ` set (pending s)"
    and "w = Fired \<or> w = CallbackDone \<Longrightarrow> n \<in> set (ended s)"
  shows "watches_ok (s\<lparr>watches := gm_put n w (watches s)\<rparr>)"
proof -
  have "gm_get (gm_put n w (watches s)) m \<noteq> None \<longleftrightarrow> gm_get (watches s) m \<noteq> None" for m
    using assms(2) by (simp add: gm_get_put)
  moreover have "gm_get (gm_put n w (watches s)) (tid t) \<notin> {Some Stopped, Some CallbackDone}" if "t \<in> set (pending s)" for t
    using assms(1,3) that by (auto simp: watches_ok_def gm_get_put)
  moreover have "m \<in> set (ended s)" if "gm_get (gm_put n w (watches s)) m \<in> {Some Fired, Some CallbackDone}" for m
    using assms(1,4) that by (auto simp: watches_ok_def gm_get_put split: if_splits)
  ultimately show ?thesis using assms(1) unfolding watches_ok_def by simp
qed

lemma launch_watches:
  assumes "watches_ok s" and "tasks_ok s" and "pending s = us @ t # vs"
  shows "watches_ok (launch t (s\<lparr>pending := us @ vs\<rparr>))"
proof -
  let ?s = "s\<lparr>pending := us @ vs\<rparr>"
  have ok: "watches_ok ?s" using assms(1,3) by (auto simp: watches_ok_def)
  have "tid u \<noteq> tid t" if "u \<in> set us \<union> set vs" for u
    using tasks_ok_sets [OF assms(2)] tid_submitted [OF assms(2), of t u] assms(3) that by auto
  then have ne: "tid t \<notin> tid ` set (pending ?s)" by force
  show ?thesis
  proof (rule launch_cases [of t ?s])
    fix w assume l: "launch t ?s = start_task t (?s\<lparr>watches := w\<rparr>)"
      and w: "w = watches ?s \<and> gm_get (watches ?s) (tid t) = None
         \<or> w = gm_put (tid t) Stopped (watches ?s) \<and> gm_get (watches ?s) (tid t) = Some Armed"
    from w have "watches_ok (?s\<lparr>watches := w\<rparr>)"
      using ok watches_ok_put [OF ok, of "tid t" Stopped] ne by auto
    then show ?thesis by (simp add: l start_task_def watches_ok_def)
  next
    assume l: "launch t ?s = run_abandon t ?s" "gm_get (watches ?s) (tid t) \<noteq> None" "gm_get (watches ?s) (tid t) \<noteq> Some Armed"
    moreover have "gm_get (watches s) (tid t) \<notin> {Some Stopped, Some CallbackDone}"
      using assms(1,3) by (simp add: watches_ok_def)
    ultimately have "gm_get (watches s) (tid t) = Some Fired"
      by (cases "gm_get (watches s) (tid t)") (auto intro: watch.exhaust)
    with assms(1) have "tid t \<in> set (ended s)" by (simp add: watches_ok_def)
    with ok l(1) show ?thesis by (auto simp: run_abandon_def watches_ok_def)
  qed
qed


lemma launch_ok:
  assumes "sched_ok M s" and "i < length (pending s)" and "running s < M"
    and "gm_get (busy s) (key (pending s ! i)) = None" and "\<forall>u \<in> set (take i (pending s)). gm_get (busy s) (key u) \<noteq> None"
  defines "s' \<equiv> launch (pending s ! i) (take_pending i s)"
  shows "sched_ok M s'" and "\<forall>u \<in> set (take i (pending s')). gm_get (busy s') (key u) \<noteq> None"
proof -
  let ?t = "pending s ! i" and ?us = "take i (pending s)" and ?vs = "drop (i + 1) (pending s)"
  have p: "pending s = ?us @ ?t # ?vs" using assms(2) by (simp add: id_take_nth_drop)
  have s': "s' = launch ?t (s\<lparr>pending := ?us @ ?vs\<rparr>)" by (simp add: s'_def take_pending_def)
  from assms(1) have ok: "tasks_ok s" "keys_ok M s" "order_ok M s" "watches_ok s" by (simp_all add: sched_ok_def)
  show "sched_ok M s'"
    using launch_tasks [OF ok(1) p] launch_keys(1) [OF ok(2) assms(3,4)] launch_order [OF ok(3,2) p assms(3-5)]
      launch_watches [OF ok(4,1) p] by (simp add: sched_ok_def s')
  have "pending s' = ?us @ ?vs" by (simp add: s')
  with launch_keys(2) [OF ok(2) assms(3,4)] assms(2,5) show "\<forall>u \<in> set (take i (pending s')). gm_get (busy s') (key u) \<noteq> None"
    unfolding s' by simp
qed

text \<open>No wake-up is lost: a waiting task always has a running one to wait for.\<close>

definition work_ok :: "scheduler \<Rightarrow> bool" where
  "work_ok s \<longleftrightarrow> (pending s \<noteq> [] \<longrightarrow> active s \<noteq> [])"

lemma dispatchLocked_ok:
  assumes "sched_ok M s" and "maxRunning limit \<le> M"
  shows "sched_ok M (dispatchLocked limit s)" and "work_ok (dispatchLocked limit s)"
proof -
  let ?mx = "maxRunning limit" and ?s' = "dispatchLocked limit s"
  let ?P = "\<lambda>i s. sched_ok M s \<and> (\<forall>u \<in> set (take i (pending s)). gm_get (busy s) (key u) \<noteq> None)"
  have "\<exists>j. ?P j ?s' \<and> (length (pending ?s') \<le> j \<or> ?mx \<le> running ?s')"
    unfolding dispatchLocked_def
  proof (rule dispatch_loop_rule)
    fix i s assume "?P i s" "i < length (pending s)" "running s < ?mx" "gm_get (busy s) (key (pending s ! i)) = None"
    with launch_ok [of M s i] assms(2) show "?P i (launch (pending s ! i) (take_pending i s))" by auto
  qed (use assms(1) in \<open>auto simp: take_Suc_conv_app_nth\<close>)
  then obtain j where j: "?P j ?s'" "length (pending ?s') \<le> j \<or> ?mx \<le> running ?s'" by blast
  then show "sched_ok M ?s'" by blast
  have k: "running ?s' = int (length (active ?s'))" "\<forall>k. gm_get (busy ?s') k \<noteq> None \<longleftrightarrow> k \<in> key ` set (active ?s')"
    using j(1) by (auto simp: sched_ok_def keys_ok_def)
  show "work_ok ?s'" unfolding work_ok_def
  proof
    assume ne: "pending ?s' \<noteq> []"
    from j(2) show "active ?s' \<noteq> []"
    proof
      assume "length (pending ?s') \<le> j"
      with j(1) have "\<forall>u \<in> set (pending ?s'). gm_get (busy ?s') (key u) \<noteq> None" by simp
      with ne have "gm_get (busy ?s') (key (hd (pending ?s'))) \<noteq> None" by simp
      with k(2) show ?thesis by auto
    next
      assume "?mx \<le> running ?s'"
      with k(1) show ?thesis by (auto simp: maxRunning_def split: if_splits)
    qed
  qed
qed

section \<open>Every event keeps the invariant\<close>

lemma submit_ok:
  assumes "sched_ok M s" and "tid t \<notin> tid ` set (submitted s)" and "maxRunning n \<le> M"
  shows "sched_ok M (submit n t s) \<and> work_ok (submit n t s)"
proof -
  let ?w = "if has_ctx t then gm_put (tid t) (if tid t \<in> set (ended s) then Fired else Armed) (watches s) else watches s"
  let ?s = "s\<lparr>pending := pending s @ [t], submitted := submitted s @ [t], watches := ?w\<rparr>"
  have run: "submit n t s = dispatchLocked n ?s" by (simp add: submit_def Let_def)
  from assms(1) have ok: "tasks_ok s" "keys_ok M s" "order_ok M s" "watches_ok s" by (simp_all add: sched_ok_def)
  have "tasks_ok ?s" using ok(1) assms(2) by (auto simp: tasks_ok_def)
  moreover have "keys_ok M ?s" using ok(2) by (simp add: keys_ok_def)
  moreover have "order_ok M ?s" using ok(3) by (auto simp: order_ok_def subseq_append simp flip: append_assoc)
  moreover have "watches_ok ?s"
  proof -
    have other: "tid u \<noteq> tid t" if "u \<in> set (submitted s)" for u using assms(2) that by (metis imageI)
    have none: "gm_get (watches s) (tid t) = None" using ok(4) assms(2) by (auto simp: watches_ok_def)
    have "set (pending s) \<subseteq> set (submitted s)" using tasks_ok_sets(1) [OF ok(1)] by blast
    with other none ok(4) show ?thesis
      by (auto simp: watches_ok_def gm_get_put split: if_splits)
  qed
  ultimately show ?thesis
    unfolding run using dispatchLocked_ok [of M ?s n] assms(3) by (simp add: sched_ok_def)
qed

lemma task_done_ok:
  assumes "sched_ok M s" and "t \<in> set (active s)" and "maxRunning n \<le> M"
  shows "sched_ok M (task_done n t s) \<and> work_ok (task_done n t s)"
proof -
  let ?s = "s\<lparr>active := remove1 t (active s), finished := finished s @ [t], running := running s - 1, busy := gm_del (key t) (busy s)\<rparr>"
  from assms(1) have ok: "tasks_ok s" "keys_ok M s" "order_ok M s" "watches_ok s" by (simp_all add: sched_ok_def)
  have "tasks_ok ?s" using ok(1) assms(2) by (simp add: tasks_ok_def)
  moreover have "keys_ok M ?s"
  proof -
    have d: "distinct (active s)" "inj_on key (set (active s))" using ok(2) by (auto simp: keys_ok_def distinct_map)
    have "length (active s) = Suc (length (remove1 t (active s)))" using length_pos_if_in_set [OF assms(2)] assms(2) by (simp add: length_remove1)
    moreover have "key ` set (remove1 t (active s)) = key ` set (active s) - {key t}"
      using d assms(2) by (auto dest: inj_onD)
    moreover have "distinct (map key (remove1 t (active s)))" using d by (simp add: distinct_map inj_on_diff)
    ultimately show ?thesis using ok(2) by (auto simp: keys_ok_def gm_get_del)
  qed
  moreover have "order_ok M ?s" using ok(3) by (simp add: order_ok_def)
  moreover have "watches_ok ?s" using ok(4) by (simp add: watches_ok_def)
  ultimately show ?thesis
    unfolding task_done_def using dispatchLocked_ok [of M ?s n] assms(3) by (simp add: sched_ok_def)
qed


text \<open>A task that leaves the queue without being started.\<close>

lemma sched_ok_leave:
  assumes "sched_ok M s" and "work_ok s" and "subseq ps (pending s)"
  shows "order_ok M (s\<lparr>pending := ps\<rparr>)" and "keys_ok M (s\<lparr>pending := ps\<rparr>)"
    and "watches_ok (s\<lparr>pending := ps\<rparr>)" and "work_ok (s\<lparr>pending := ps\<rparr>)"
proof -
  from assms(3) have *: "subseq (started s @ ps) (started s @ pending s)" by (simp add: subseq_append_iff) (use subseq_order.order_refl in blast)
  then have "subseq (filter (\<lambda>t. key t = k) (started s @ ps)) (filter (\<lambda>t. key t = k) (started s @ pending s))" for k
    by (rule subseq_filter)
  with * assms(1) show "order_ok M (s\<lparr>pending := ps\<rparr>)"
    unfolding sched_ok_def order_ok_def by simp (meson subseq_order.order_trans)
  show "keys_ok M (s\<lparr>pending := ps\<rparr>)" using assms(1) by (simp add: sched_ok_def keys_ok_def)
  have "set ps \<subseteq> set (pending s)" using list_emb_set [OF assms(3)] by auto
  with assms(1) show "watches_ok (s\<lparr>pending := ps\<rparr>)" by (auto simp: sched_ok_def watches_ok_def)
  show "work_ok (s\<lparr>pending := ps\<rparr>)" using assms(2,3) by (auto simp: work_ok_def)
qed

lemma subseq_remove1: "subseq (remove1 x xs) xs"
  by (induction xs) auto

lemma Callback_ok:
  assumes "sched_ok M s" and "work_ok s" and "t \<in> set (submitted s)" and "gm_get (watches s) (tid t) = Some Fired"
  defines "s' \<equiv> dropPending t (s\<lparr>watches := gm_put (tid t) CallbackDone (watches s)\<rparr>)"
  shows "sched_ok M s' \<and> work_ok s'"
proof -
  from assms(1) have ok: "tasks_ok s" "watches_ok s" by (simp_all add: sched_ok_def)
  let ?ps = "remove1 t (pending s)"
  let ?s1 = "s\<lparr>pending := ?ps, watches := gm_put (tid t) CallbackDone (watches s)\<rparr>"
  have s': "s' = ?s1\<lparr>abandoned := abandoned s @ (if t \<in> set (pending s) then [t] else [])\<rparr>"
    by (simp add: s'_def dropPending_def run_abandon_def remove1_idem)
  note leave = sched_ok_leave [OF assms(1,2) subseq_remove1 [of t]]
  have fin: "tid t \<in> set (ended s)" using ok(2) assms(4) by (simp add: watches_ok_def)
  have "tid u \<noteq> tid t" if "u \<in> set ?ps" for u
    using tid_submitted [OF ok(1) assms(3), of u] tasks_ok_sets(1,4) [OF ok(1)] that by (auto simp: set_remove1_eq)
  then have "tid t \<notin> tid ` set ?ps" by force
  with watches_ok_put [OF leave(3), of "tid t" CallbackDone] assms(4) fin have "watches_ok ?s1" by simp
  with fin have "watches_ok s'" by (auto simp: s' watches_ok_def)
  moreover have "tasks_ok s'" using ok(1) by (auto simp: s' tasks_ok_def remove1_idem)
  moreover have "keys_ok M s'" "order_ok M s'" "work_ok s'"
    using leave(1,2,4) by (simp_all add: s' keys_ok_def order_ok_def work_ok_def)
  ultimately show ?thesis by (simp add: sched_ok_def)
qed

lemma SweepTake_ok:
  assumes "sched_ok M s" and "work_ok s"
  shows "sched_ok M (abandonAll_take s) \<and> work_ok (abandonAll_take s)"
proof -
  note leave = sched_ok_leave [OF assms, of "[]", simplified]
  from assms(1) have "tasks_ok (abandonAll_take s)" by (simp add: sched_ok_def tasks_ok_def abandonAll_take_def)
  moreover have "watches_ok (abandonAll_take s)" using leave(3) by (auto simp: watches_ok_def abandonAll_take_def)
  ultimately show ?thesis using leave(1,2)
    by (simp add: sched_ok_def keys_ok_def order_ok_def work_ok_def abandonAll_take_def)
qed

lemma SweepOne_ok:
  assumes "sched_ok M s" and "work_ok s" and "t \<in> set (sweeping s)"
  shows "sched_ok M (abandonAll_one t s) \<and> work_ok (abandonAll_one t s)"
proof -
  from assms(1) have ok: "tasks_ok s" "watches_ok s" by (simp_all add: sched_ok_def)
  let ?w = "if gm_get (watches s) (tid t) = Some Armed then gm_put (tid t) Stopped (watches s) else watches s"
  have s': "abandonAll_one t s = s\<lparr>sweeping := remove1 t (sweeping s), watches := ?w, abandoned := abandoned s @ [t]\<rparr>"
    by (simp add: abandonAll_one_def stopWatch_def run_abandon_def Let_def)
  have sub: "t \<in> set (submitted s)" using tasks_ok_sets(1) [OF ok(1)] assms(3) by blast
  have "tid u \<noteq> tid t" if "u \<in> set (pending s)" for u
  proof
    assume "tid u = tid t"
    with tid_submitted [OF ok(1) sub, of u] that tasks_ok_sets(1) [OF ok(1)] have "u = t" by blast
    with that assms(3) tasks_ok_sets(6) [OF ok(1)] show False by blast
  qed
  then have "tid t \<notin> tid ` set (pending s)" by force
  then have w: "watches_ok (s\<lparr>watches := ?w\<rparr>)" using watches_ok_put [OF ok(2), of "tid t" Stopped] ok(2) by simp
  have "t \<in> set (swept s)" "set (remove1 t (sweeping s)) \<subseteq> set (swept s)"
    using ok(2) assms(3) set_remove1_subset by (fastforce simp: watches_ok_def)+
  with w have "watches_ok (abandonAll_one t s)" unfolding s' by (simp add: watches_ok_def)
  moreover have "tasks_ok (abandonAll_one t s)" using ok(1) assms(3) by (simp add: s' tasks_ok_def)
  ultimately show ?thesis using assms(1,2)
    by (simp add: s' sched_ok_def keys_ok_def order_ok_def work_ok_def)
qed

lemma CtxEnds_ok:
  assumes "sched_ok M s" and "work_ok s" and "sched_exec (CtxEnds i) s = Some s'"
  shows "sched_ok M s' \<and> work_ok s'"
proof -
  have "watches_ok (s\<lparr>ended := i # ended s\<rparr>)" using assms(1) by (auto simp: sched_ok_def watches_ok_def)
  from watches_ok_put [OF this, of i Fired] this assms(3) have "watches_ok s'" by (auto split: if_splits)
  with assms show ?thesis by (auto simp: sched_ok_def tasks_ok_def keys_ok_def order_ok_def work_ok_def)
qed


lemma sched_exec_ok:
  assumes "sched_exec e s = Some s'" and "event_limit e \<le> M" and "sched_ok M s" and "work_ok s"
  shows "sched_ok M s' \<and> work_ok s'"
proof (cases e)
  case (Submit t n)
  with assms submit_ok [of M s t n] show ?thesis by (auto split: if_splits)
next
  case (Kick n)
  with assms dispatchLocked_ok [of M s n] show ?thesis by (auto simp: kick_def)
next
  case (CtxEnds i)
  with assms show ?thesis by (intro CtxEnds_ok) auto
next
  case (Callback t)
  with assms Callback_ok [of M s t] show ?thesis by (auto split: if_splits)
next
  case SweepTake
  with assms SweepTake_ok [of M s] show ?thesis by auto
next
  case (SweepOne t)
  with assms SweepOne_ok [of M s t] show ?thesis by (auto split: if_splits)
next
  case (TaskDone t n)
  with assms task_done_ok [of M s t n] show ?thesis by (auto split: if_splits)
qed

lemma sched_run_ok:
  assumes "sched_run es s = Some s'" and "\<forall>e \<in> set es. event_limit e \<le> M" and "sched_ok M s" and "work_ok s"
  shows "sched_ok M s' \<and> work_ok s'"
  using assms
proof (induction es arbitrary: s)
  case Nil
  then show ?case by simp
next
  case (Cons e es)
  then obtain s1 where "sched_exec e s = Some s1" "sched_run es s1 = Some s'" by (auto split: option.splits)
  with Cons.IH [of s1] Cons.prems(2-4) sched_exec_ok [of e s s1 M] show ?case by simp
qed

lemma newOpScheduler_ok: "1 \<le> M \<Longrightarrow> sched_ok M newOpScheduler" "work_ok newOpScheduler"
  by (simp_all add: newOpScheduler_def sched_ok_defs work_ok_def)

section \<open>C36: every task runs once or is abandoned once\<close>

text \<open>C27: after any sequence of submits, ends of tasks, cancellations and sweeps, each submitted task
  is in exactly one place: waiting, being swept, started once, or abandoned once, and never both started and
  abandoned. No more tasks run than the largest limit read, no two of them have the same key,
  and tasks of one key start in the order they were submitted; when the limit is always 1, all tasks do.
  A task is abandoned only when its context ended or the queue was swept, and it does not wait any more
  once the callback of its context has run.\<close>

theorem tasks_run_once:
  assumes "sched_run es newOpScheduler = Some s" and "\<forall>e \<in> set es. event_limit e \<le> M" and "1 \<le> M"
  shows "mset (submitted s) = mset (pending s) + mset (sweeping s) + mset (started s) + mset (abandoned s)
         \<and> distinct (pending s @ sweeping s @ started s @ abandoned s)
         \<and> set (active s) \<subseteq> set (started s) \<and> running s = int (length (active s)) \<and> running s \<le> M
         \<and> distinct (map key (active s))
         \<and> (\<forall>k. subseq (filter (\<lambda>t. key t = k) (started s @ pending s)) (filter (\<lambda>t. key t = k) (submitted s)))
         \<and> (M = 1 \<longrightarrow> subseq (started s @ pending s) (submitted s))
         \<and> (\<forall>t \<in> set (abandoned s). tid t \<in> set (ended s) \<or> t \<in> set (swept s))
         \<and> (\<forall>t \<in> set (submitted s). gm_get (watches s) (tid t) = Some CallbackDone \<longrightarrow> t \<notin> set (pending s))"
proof -
  from sched_run_ok [OF assms(1,2)] newOpScheduler_ok assms(3)
  have ok: "tasks_ok s" "keys_ok M s" "order_ok M s" "watches_ok s" by (simp_all add: sched_ok_def)
  from ok(1) have m: "mset (submitted s) = mset (pending s @ sweeping s @ started s @ abandoned s)"
    by (simp add: tasks_ok_def)
  with tasks_ok_sets(3) [OF ok(1)] have "distinct (pending s @ sweeping s @ started s @ abandoned s)"
    by (metis mset_eq_imp_distinct_iff)
  with m tasks_ok_sets(2) [OF ok(1)] ok(2-4) show ?thesis
    by (auto simp: keys_ok_def order_ok_def watches_ok_def)
qed

abbreviation sample_task :: "nat \<Rightarrow> string \<Rightarrow> op_task" where
  "sample_task i k \<equiv> \<lparr>tid = i, key = k, has_ctx = True\<rparr>"

text \<open>Two operations on one backend and one on another; the second is cancelled while it waits.\<close>

definition sample_events :: "event list" where
  "sample_events =
     [Submit (sample_task 1 ''a'') 2, Submit (sample_task 2 ''a'') 2, Submit (sample_task 3 ''b'') 2,
      Submit (sample_task 4 ''a'') 2, CtxEnds 2, Callback (sample_task 2 ''a''), TaskDone (sample_task 1 ''a'') 2]"

definition sample_sched :: scheduler where
  "sample_sched = the (sched_run sample_events newOpScheduler)"

lemma sample_sched_run: "sched_run sample_events newOpScheduler = Some sample_sched"
  unfolding sample_sched_def by code_simp

theorem tasks_run_once_witness:
  "map tid (started sample_sched) = [1, 3, 4] \<and> map tid (abandoned sample_sched) = [2]
   \<and> distinct (map key (active sample_sched)) \<and> running sample_sched \<le> 2"
proof -
  have "\<forall>e \<in> set sample_events. event_limit e \<le> 2" by code_simp
  from tasks_run_once [OF sample_sched_run this] have "distinct (map key (active sample_sched)) \<and> running sample_sched \<le> 2" by simp
  moreover have "map tid (started sample_sched) = [1, 3, 4] \<and> map tid (abandoned sample_sched) = [2]" by code_simp
  ultimately show ?thesis by blast
qed


section \<open>C37: the queue drains\<close>

definition open_tasks :: "scheduler \<Rightarrow> nat" where
  "open_tasks s = length (pending s) + length (active s)"

lemma sched_ok_mono: "sched_ok M s \<Longrightarrow> 1 \<le> M \<Longrightarrow> M \<le> M' \<Longrightarrow> sched_ok M' s"
  by (auto simp: sched_ok_def keys_ok_def order_ok_def)

lemma sched_run_reach:
  assumes "sched_run es newOpScheduler = Some s"
  obtains M where "1 \<le> M" "n \<le> M" "sched_ok M s" "work_ok s"
proof -
  let ?M = "Max (insert 1 (insert n (event_limit ` set es)))"
  have le: "x \<le> ?M" if "x \<in> insert 1 (insert n (event_limit ` set es))" for x
    by (rule Max_ge) (use that in auto)
  then have "\<forall>e \<in> set es. event_limit e \<le> ?M" by blast
  moreover have "1 \<le> ?M" "n \<le> ?M" by (rule le, blast)+
  ultimately show thesis using sched_run_ok [OF assms, of ?M] newOpScheduler_ok that by blast
qed

lemma dispatchLocked_open: "open_tasks (dispatchLocked limit s) \<le> open_tasks s"
proof -
  have "\<exists>j. open_tasks (dispatchLocked limit s) \<le> open_tasks s
     \<and> (length (pending (dispatchLocked limit s)) \<le> j \<or> maxRunning limit \<le> running (dispatchLocked limit s))"
    unfolding dispatchLocked_def
  proof (rule dispatch_loop_rule)
    fix i s1 assume "open_tasks s1 \<le> open_tasks s" "i < length (pending s1)"
    then show "open_tasks (launch (pending s1 ! i) (take_pending i s1)) \<le> open_tasks s"
      by (cases rule: launch_cases [of "pending s1 ! i" "take_pending i s1"])
         (auto simp: open_tasks_def take_pending_def start_task_def run_abandon_def)
  qed auto
  then show ?thesis by blast
qed

lemma task_done_open: "t \<in> set (active s) \<Longrightarrow> open_tasks (task_done n t s) < open_tasks s"
  unfolding task_done_def
  by (rule le_less_trans [OF dispatchLocked_open])
     (auto simp: open_tasks_def length_remove1 dest: length_pos_if_in_set)

lemma drain_exists:
  assumes "sched_ok M s" and "work_ok s" and "maxRunning n \<le> M"
  shows "\<exists>ts s'. sched_run (map (\<lambda>t. TaskDone t n) ts) s = Some s' \<and> length ts \<le> open_tasks s \<and> pending s' = [] \<and> active s' = []"
  using assms(1,2)
proof (induction "open_tasks s" arbitrary: s rule: less_induct)
  case less
  show ?case
  proof (cases "active s")
    case Nil
    with less.prems show ?thesis by (intro exI [of _ "[]"]) (simp add: work_ok_def)
  next
    case (Cons t us)
    then have dec: "open_tasks (task_done n t s) < open_tasks s" by (simp add: task_done_open)
    from Cons task_done_ok [OF less.prems(1) _ assms(3), of t] less.hyps [OF dec]
    obtain ts s' where "sched_run (map (\<lambda>t. TaskDone t n) ts) (task_done n t s) = Some s'"
      "length ts \<le> open_tasks (task_done n t s)" "pending s' = []" "active s' = []" by auto
    with Cons dec show ?thesis by (intro exI [of _ "t # ts"] exI [of _ s']) auto
  qed
qed

lemma done_run_open:
  assumes "sched_run (map (\<lambda>(t, n). TaskDone t n) ds) s = Some s'"
  shows "length ds + open_tasks s' \<le> open_tasks s"
  using assms
proof (induction ds arbitrary: s)
  case (Cons d ds)
  then have d: "fst d \<in> set (active s)" "sched_run (map (\<lambda>(t, n). TaskDone t n) ds) (task_done (snd d) (fst d) s) = Some s'"
    by (cases d; auto split: if_splits)+
  from Cons.IH [OF d(2)] task_done_open [OF d(1), of "snd d"] show ?case by simp
qed simp

text \<open>C28: nothing waits for ever. After any sequence of events a waiting task has a running one to wait for;
  each end of a task brings the number of open tasks down, whatever limits are read, so that no
  run of such ends is longer than that number; and with any limit the ends of the running tasks alone
  start or abandon every waiting task.\<close>

theorem queue_drains:
  assumes "sched_run es newOpScheduler = Some s"
  shows "(pending s \<noteq> [] \<longrightarrow> active s \<noteq> [])
         \<and> (\<forall>ds s'. sched_run (map (\<lambda>(t, n). TaskDone t n) ds) s = Some s' \<longrightarrow> length ds + open_tasks s' \<le> open_tasks s)
         \<and> (\<exists>ts s'. sched_run (map (\<lambda>t. TaskDone t limit) ts) s = Some s' \<and> pending s' = [] \<and> active s' = [])"
proof -
  obtain M where M: "1 \<le> M" "maxRunning limit \<le> M" "sched_ok M s" "work_ok s" by (rule sched_run_reach [OF assms])
  from drain_exists [OF M(3,4,2)] done_run_open M(4) show ?thesis unfolding work_ok_def by blast
qed

theorem queue_drains_witness:
  "\<exists>ts s'. sched_run (map (\<lambda>t. TaskDone t 0) ts) sample_sched = Some s' \<and> pending s' = [] \<and> active s' = []"
  using queue_drains [OF sample_sched_run, of 0] by blast

section \<open>Keys\<close>

text \<open>The same backend has the same key, with a gallery in front or without.\<close>

lemma backendOpKey_gallery:
  assumes "CHR ''@'' \<notin> set name" and "name \<noteq> []"
  shows "backendOpKey e (g @ CHR ''@'' # name) = backendOpKey e name"
proof -
  have "after_last_at name = name" "after_last_at (g @ CHR ''@'' # name) = name"
    using assms(1) unfolding after_last_at_def
    by (subst takeWhile_eq_all_conv [THEN iffD2], auto) (subst takeWhile_append2, auto)
  with assms(2) show ?thesis by (simp add: backendOpKey_def)
qed

end
