(* ===== verification/GoHeap.thy ===== *)
theory GoHeap
  imports Prelude
begin

text \<open>
  Go's \<open>container/heap\<close> on a slice, with the sift loops of the library: \<open>Push\<close> appends and moves
  the new element up, \<open>Pop\<close> exchanges the first with the last element, moves the first one down
  and removes the last. The locale \<open>ranked_heap\<close> is the contract of a comparison function
  that agrees with a rank on the elements of a set \<open>A\<close>; under it a heap is a priority queue.
\<close>

section \<open>The operations\<close>

definition heap_swap :: "nat \<Rightarrow> nat \<Rightarrow> 'a list \<Rightarrow> 'a list" where
  "heap_swap i j h = h[i := h ! j, j := h ! i]"

definition hparent :: "nat \<Rightarrow> nat" where
  "hparent j = (j - 1) div 2"

lemma hparent_less: "0 < j \<Longrightarrow> hparent j < j"
  by (auto simp: hparent_def)

lemma hparent_child: "hparent (2 * i + 1) = i" "hparent (2 * i + 2) = i"
  by (simp_all add: hparent_def)

lemma hparent_eq: "0 < j \<Longrightarrow> hparent j = i \<longleftrightarrow> j = 2 * i + 1 \<or> j = 2 * i + 2"
  by (auto simp: hparent_def)

function heap_up :: "('a \<Rightarrow> 'a \<Rightarrow> bool) \<Rightarrow> nat \<Rightarrow> 'a list \<Rightarrow> 'a list" where
  "heap_up lt j h =
     (if j = 0 \<or> \<not> lt (h ! j) (h ! hparent j) then h
      else heap_up lt (hparent j) (heap_swap (hparent j) j h))"
  by pat_completeness auto

termination by (relation "measure (\<lambda>(lt, j, h). j)") (auto simp: hparent_less)

text \<open>The child that \<open>down\<close> compares with its parent: the right one when there is one and it is less.\<close>

definition least_child :: "('a \<Rightarrow> 'a \<Rightarrow> bool) \<Rightarrow> nat \<Rightarrow> nat \<Rightarrow> 'a list \<Rightarrow> nat" where
  "least_child lt i n h = (if 2 * i + 2 < n \<and> lt (h ! (2 * i + 2)) (h ! (2 * i + 1)) then 2 * i + 2 else 2 * i + 1)"

function heap_down :: "('a \<Rightarrow> 'a \<Rightarrow> bool) \<Rightarrow> nat \<Rightarrow> nat \<Rightarrow> 'a list \<Rightarrow> 'a list" where
  "heap_down lt i n h =
     (if n \<le> 2 * i + 1 \<or> \<not> lt (h ! least_child lt i n h) (h ! i) then h
      else heap_down lt (least_child lt i n h) n (heap_swap i (least_child lt i n h) h))"
  by pat_completeness auto

termination by (relation "measure (\<lambda>(lt, i, n, h). n - i)") (auto simp: least_child_def)

declare heap_up.simps [simp del] heap_down.simps [simp del]

definition heap_push :: "('a \<Rightarrow> 'a \<Rightarrow> bool) \<Rightarrow> 'a \<Rightarrow> 'a list \<Rightarrow> 'a list" where
  "heap_push lt x h = heap_up lt (length h) (h @ [x])"

definition heap_pop :: "('a \<Rightarrow> 'a \<Rightarrow> bool) \<Rightarrow> 'a list \<Rightarrow> ('a \<times> 'a list) option" where
  "heap_pop lt h =
     (if h = [] then None
      else let n = length h - 1; h1 = heap_down lt 0 n (heap_swap 0 n h)
           in Some (last h1, butlast h1))"

section \<open>Permutations\<close>

lemma length_heap_swap [simp]: "length (heap_swap i j h) = length h"
  by (simp add: heap_swap_def)

lemma mset_heap_swap [simp]: "i < length h \<Longrightarrow> j < length h \<Longrightarrow> mset (heap_swap i j h) = mset h"
  unfolding heap_swap_def by (rule mset_swap)

lemma nth_heap_swap:
  "i < length h \<Longrightarrow> j < length h \<Longrightarrow> heap_swap i j h ! k = (if k = j then h ! i else if k = i then h ! j else h ! k)"
  by (simp add: heap_swap_def nth_list_update)

lemma mset_heap_up [simp]: "j < length h \<Longrightarrow> mset (heap_up lt j h) = mset h"
proof (induction lt j h rule: heap_up.induct)
  case (1 lt j h)
  then show ?case by (subst heap_up.simps) (use hparent_less [of j] in auto)
qed

lemma least_child_range: "2 * i + 1 < n \<Longrightarrow> i < least_child lt i n h \<and> least_child lt i n h < n \<and> hparent (least_child lt i n h) = i"
  using hparent_child [of i] by (auto simp: least_child_def)

lemma heap_down_frame:
  assumes "n \<le> length h" and "i < n \<or> i = 0"
  shows "mset (heap_down lt i n h) = mset h \<and> (\<forall>k \<ge> n. heap_down lt i n h ! k = h ! k)"
  using assms
proof (induction lt i n h rule: heap_down.induct)
  case (1 lt i n h)
  show ?case
  proof (cases "n \<le> 2 * i + 1 \<or> \<not> lt (h ! least_child lt i n h) (h ! i)")
    case False
    with least_child_range [of i n lt h] 1 show ?thesis
      by (simp add: heap_down.simps [of lt i n h] nth_heap_swap)
  qed (simp add: heap_down.simps [of lt i n h])
qed

lemma length_heap_push [simp]: "length (heap_push lt x h) = Suc (length h)"
  unfolding heap_push_def by (metis length_append_singleton lessI mset_heap_up size_mset)

lemma mset_heap_push [simp]: "mset (heap_push lt x h) = add_mset x (mset h)"
  by (simp add: heap_push_def)

section \<open>Priority queue\<close>

definition heap_wrt :: "('a \<Rightarrow> int) \<Rightarrow> nat \<Rightarrow> 'a list \<Rightarrow> bool" where
  "heap_wrt f n h \<longleftrightarrow> (\<forall>k < n. 0 < k \<longrightarrow> f (h ! hparent k) \<le> f (h ! k))"

text \<open>A heap but for the element at \<open>j\<close>, which may be too small, or at \<open>i\<close>, which may be too large.\<close>

definition heap_but_up :: "('a \<Rightarrow> int) \<Rightarrow> nat \<Rightarrow> nat \<Rightarrow> 'a list \<Rightarrow> bool" where
  "heap_but_up f j n h \<longleftrightarrow> (\<forall>k < n. 0 < k \<longrightarrow>
     (k \<noteq> j \<longrightarrow> f (h ! hparent k) \<le> f (h ! k)) \<and> (hparent k = j \<and> 0 < j \<longrightarrow> f (h ! hparent j) \<le> f (h ! k)))"

definition heap_but_down :: "('a \<Rightarrow> int) \<Rightarrow> nat \<Rightarrow> nat \<Rightarrow> 'a list \<Rightarrow> bool" where
  "heap_but_down f i n h \<longleftrightarrow> (\<forall>k < n. 0 < k \<longrightarrow>
     (hparent k \<noteq> i \<longrightarrow> f (h ! hparent k) \<le> f (h ! k)) \<and> (hparent k = i \<and> 0 < i \<longrightarrow> f (h ! hparent i) \<le> f (h ! k)))"

lemma heap_root_least: "heap_wrt f n h \<Longrightarrow> k < n \<Longrightarrow> f (h ! 0) \<le> f (h ! k)"
proof (induction k rule: less_induct)
  case (less k)
  show ?case
  proof (cases "k = 0")
    case False
    with less hparent_less [of k] have "f (h ! 0) \<le> f (h ! hparent k)" by simp
    also have "\<dots> \<le> f (h ! k)" using False less.prems by (simp add: heap_wrt_def)
    finally show ?thesis .
  qed simp
qed

lemma heap_but_up_swap:
  assumes "heap_but_up f j (length h) h" and "0 < j" and "f (h ! j) < f (h ! hparent j)" and "j < length h"
  shows "heap_but_up f (hparent j) (length h) (heap_swap (hparent j) j h)"
proof -
  let ?p = "hparent j" and ?h = "heap_swap (hparent j) j h"
  have p: "?p < j" "?p < length h" using hparent_less [OF assms(2)] assms(4) by auto
  have up: "f (h ! hparent k) \<le> f (h ! k)" if "0 < k" "k < length h" "k \<noteq> j" for k
    using assms(1) that by (simp add: heap_but_up_def)
  have down: "f (h ! ?p) \<le> f (h ! k)" if "0 < k" "k < length h" "hparent k = j" for k
    using assms(1,2) that by (simp add: heap_but_up_def)
  note nth = nth_heap_swap [OF p(2) assms(4)]
  have "f (?h ! hparent k) \<le> f (?h ! k)" if k: "0 < k" "k < length h" "k \<noteq> ?p" for k
    using up [OF k(1,2)] down [OF k(1,2)] assms(3) k(3) hparent_less [OF k(1)] p(1)
    by (cases "k = j"; cases "hparent k = ?p"; cases "hparent k = j") (simp_all add: nth)
  moreover have "f (?h ! hparent ?p) \<le> f (?h ! k)" if k: "0 < k" "k < length h" "hparent k = ?p" "0 < ?p" for k
  proof -
    have "f (h ! hparent ?p) \<le> f (h ! ?p)" using up [of ?p] k(4) p by simp
    moreover have "f (h ! ?p) \<le> f (?h ! k)" using up [OF k(1,2)] k(3) hparent_less [OF k(1)] by (cases "k = j") (simp_all add: nth)
    ultimately show ?thesis using hparent_less [OF k(4)] p(1) by (simp add: nth)
  qed
  ultimately show ?thesis by (simp add: heap_but_up_def)
qed

lemma heap_but_down_swap:
  assumes "heap_but_down f i n h" and "c < n" and "hparent c = i" and "i < c" and "f (h ! c) < f (h ! i)"
    and "\<forall>k < n. 0 < k \<and> hparent k = i \<longrightarrow> f (h ! c) \<le> f (h ! k)" and "n \<le> length h"
  shows "heap_but_down f c n (heap_swap i c h)"
proof -
  let ?h = "heap_swap i c h"
  have up: "f (h ! hparent k) \<le> f (h ! k)" if "0 < k" "k < n" "hparent k \<noteq> i" for k
    using assms(1) that by (simp add: heap_but_down_def)
  have down: "f (h ! hparent i) \<le> f (h ! k)" if "0 < k" "k < n" "hparent k = i" "0 < i" for k
    using assms(1) that by (simp add: heap_but_down_def)
  have nth: "?h ! k = (if k = c then h ! i else if k = i then h ! c else h ! k)" for k
    using assms(2,4,7) by (simp add: nth_heap_swap)
  have "f (?h ! hparent k) \<le> f (?h ! k)" if k: "0 < k" "k < n" "hparent k \<noteq> c" for k
  proof (cases "hparent k = i")
    case True
    with k assms(5,6) hparent_less [OF k(1)] show ?thesis by (cases "k = c") (simp_all add: nth)
  next
    case False
    with k up [OF k(1,2)] down [of c] assms(2-4) hparent_less [OF k(1)] show ?thesis
      by (cases "k = i") (auto simp: nth)
  qed
  moreover have "f (?h ! hparent c) \<le> f (?h ! k)" if k: "0 < k" "k < n" "hparent k = c" for k
    using up [OF k(1,2)] k assms(3,4) hparent_less [OF k(1)] by (simp add: nth)
  ultimately show ?thesis by (simp add: heap_but_down_def)
qed

locale ranked_heap =
  fixes lt :: "'a \<Rightarrow> 'a \<Rightarrow> bool" and f :: "'a \<Rightarrow> int" and A :: "'a set"
  assumes lt_rank: "x \<in> A \<Longrightarrow> y \<in> A \<Longrightarrow> lt x y \<longleftrightarrow> f x < f y"
begin

lemma heap_up_heap:
  assumes "heap_but_up f j (length h) h" and "j < length h" and "set h \<subseteq> A"
  shows "heap_wrt f (length h) (heap_up lt j h)"
  using assms
proof (induction j arbitrary: h rule: less_induct)
  case (less j)
  let ?p = "hparent j" and ?h = "heap_swap (hparent j) j h"
  show ?case
  proof (cases "j = 0 \<or> \<not> lt (h ! j) (h ! ?p)")
    case True
    moreover have "f (h ! ?p) \<le> f (h ! j)" if "j \<noteq> 0" "\<not> lt (h ! j) (h ! ?p)"
    proof -
      from that(1) hparent_less [of j] less.prems(2) have "?p < length h" by simp
      then have "h ! j \<in> A" "h ! ?p \<in> A" using less.prems(2,3) nth_mem by blast+
      with that(2) lt_rank show ?thesis by (simp add: not_less)
    qed
    ultimately show ?thesis using less.prems(1) by (auto simp: heap_up.simps [of lt j h] heap_wrt_def heap_but_up_def)
  next
    case False
    then have p: "?p < j" "?p < length h" using hparent_less [of j] less.prems(2) by auto
    have "h ! j \<in> A" "h ! ?p \<in> A" using less.prems(2,3) p nth_mem by blast+
    with False lt_rank have lt: "f (h ! j) < f (h ! ?p)" by simp
    have "heap_but_up f ?p (length ?h) ?h" using heap_but_up_swap [OF less.prems(1) _ lt] False less.prems(2) by simp
    moreover have "set ?h \<subseteq> A" using less.prems p by (metis mset_eq_setD mset_heap_swap)
    ultimately have "heap_wrt f (length ?h) (heap_up lt ?p ?h)" using less.IH [OF p(1), of ?h] p by simp
    then show ?thesis using False by (simp add: heap_up.simps [of lt j h])
  qed
qed

lemma heap_down_heap:
  assumes "heap_but_down f i n h" and "n \<le> length h" and "set h \<subseteq> A"
  shows "heap_wrt f n (heap_down lt i n h)"
  using assms
proof (induction "n - i" arbitrary: i h rule: less_induct)
  case less
  let ?c = "least_child lt i n h"
  have A: "h ! k \<in> A" if "k < n" for k using less.prems(2,3) that nth_mem by fastforce
  show ?case
  proof (cases "2 * i + 1 < n")
    case False
    then have "hparent k \<noteq> i" if "0 < k" "k < n" for k using that by (auto simp: hparent_eq)
    with less.prems(1) False show ?thesis by (simp add: heap_down.simps [of lt i n h] heap_wrt_def heap_but_down_def)
  next
    case True
    note c = least_child_range [OF True, of lt h]
    have kids: "\<forall>k < n. 0 < k \<and> hparent k = i \<longrightarrow> f (h ! ?c) \<le> f (h ! k)"
    proof (intro allI impI)
      fix k assume "k < n" "0 < k \<and> hparent k = i"
      then have "k = 2 * i + 1 \<or> k = 2 * i + 2 \<and> 2 * i + 2 < n" using hparent_eq [of k i] by (elim conjE) (simp, linarith)
      with lt_rank [OF A A, of "2 * i + 2" "2 * i + 1"] True show "f (h ! ?c) \<le> f (h ! k)"
        by (auto simp: least_child_def)
    qed
    have step: "lt (h ! ?c) (h ! i) \<longleftrightarrow> f (h ! ?c) < f (h ! i)" using c by (intro lt_rank A) auto
    show ?thesis
    proof (cases "lt (h ! ?c) (h ! i)")
      case down: True
      have "heap_but_down f ?c n (heap_swap i ?c h)"
        using less.prems c kids step down by (intro heap_but_down_swap) auto
      moreover have "set (heap_swap i ?c h) \<subseteq> A"
        using less.prems(2,3) c mset_heap_swap [of i h ?c] by (metis less_trans mset_eq_setD order_less_le_trans)
      moreover have "n - ?c < n - i" using c by auto
      ultimately have "heap_wrt f n (heap_down lt ?c n (heap_swap i ?c h))" using less.hyps less.prems(2) by simp
      with down True show ?thesis by (simp add: heap_down.simps [of lt i n h])
    next
      case False
      then have "f (h ! hparent k) \<le> f (h ! k)" if "k < n" "0 < k" "hparent k = i" for k
        using kids step that by force
      with less.prems(1) False True show ?thesis
        by (auto simp: heap_down.simps [of lt i n h] heap_wrt_def heap_but_down_def)
    qed
  qed
qed

lemma heap_push_heap:
  assumes "heap_wrt f (length h) h" and "set h \<subseteq> A" and "x \<in> A"
  shows "heap_wrt f (Suc (length h)) (heap_push lt x h)"
proof -
  have "heap_but_up f (length h) (length (h @ [x])) (h @ [x])"
    unfolding heap_but_up_def
  proof (intro allI impI conjI)
    fix k assume k: "k < length (h @ [x])" "0 < k"
    from hparent_less [OF k(2)] k(1) have p: "hparent k < length h" by simp
    show "f ((h @ [x]) ! hparent k) \<le> f ((h @ [x]) ! k)" if "k \<noteq> length h"
      using assms(1) k that p by (simp add: heap_wrt_def nth_append)
    show "f ((h @ [x]) ! hparent (length h)) \<le> f ((h @ [x]) ! k)" if "hparent k = length h \<and> 0 < length h"
      using that p by simp
  qed
  then show ?thesis using heap_up_heap [of "length h" "h @ [x]"] assms(2,3) by (simp add: heap_push_def)
qed

text \<open>\<open>Pop\<close> removes an element of least rank.\<close>

lemma heap_pop_heap:
  assumes "heap_wrt f (length h) h" and "set h \<subseteq> A" and "h \<noteq> []"
  obtains x h' where "heap_pop lt h = Some (x, h')" and "mset h = add_mset x (mset h')"
    and "heap_wrt f (length h') h'" and "\<forall>y \<in> set h'. f x \<le> f y"
proof -
  let ?n = "length h - 1" and ?h = "heap_swap 0 (length h - 1) h"
  let ?d = "heap_down lt 0 ?n ?h"
  have n: "?n < length h" "0 < length h" using assms(3) by (cases h; simp)+
  have fr: "mset ?d = mset h" "\<forall>k \<ge> ?n. ?d ! k = ?h ! k" using heap_down_frame [of ?n ?h 0 lt] n by simp_all
  have len: "length ?d = length h" using fr(1) by (metis size_mset)
  have "heap_but_down f 0 ?n ?h"
    unfolding heap_but_down_def
  proof (intro allI impI conjI)
    fix k assume k: "k < ?n" "0 < k" "hparent k \<noteq> 0"
    with assms(1) have "f (h ! hparent k) \<le> f (h ! k)" by (simp add: heap_wrt_def)
    with k n hparent_less [of k] show "f (?h ! hparent k) \<le> f (?h ! k)" by (simp add: nth_heap_swap)
  qed simp
  moreover have "set ?h \<subseteq> A" using assms(2) n mset_heap_swap [of 0 h ?n] by (metis mset_eq_setD)
  ultimately have "heap_wrt f ?n ?d" using heap_down_heap [of 0 ?n ?h] n by simp
  moreover have "butlast ?d ! k = ?d ! k \<and> butlast ?d ! hparent k = ?d ! hparent k" if "k < ?n" "0 < k" for k
    using hparent_less [OF that(2)] that len by (simp add: nth_butlast)
  ultimately have heap: "heap_wrt f (length (butlast ?d)) (butlast ?d)" using len by (simp add: heap_wrt_def)
  have ne: "?d \<noteq> []" using len assms(3) by auto
  then have "last ?d = h ! 0" using fr(2) len n by (simp add: last_conv_nth nth_heap_swap)
  moreover have "f (h ! 0) \<le> f y" if "y \<in> set h" for y
    using heap_root_least [OF assms(1)] that by (auto simp: in_set_conv_nth)
  moreover have split: "mset ?d = add_mset (last ?d) (mset (butlast ?d))"
    using arg_cong [OF append_butlast_last_id [OF ne], of mset] by simp
  moreover have "set (butlast ?d) \<subseteq> set h" using mset_eq_setD [OF fr(1)] in_set_butlastD by fast
  ultimately have "\<forall>y \<in> set (butlast ?d). f (last ?d) \<le> f y" by auto
  with heap split fr(1) show thesis using assms(3) by (intro that) (simp_all add: heap_pop_def Let_def)
qed

end

end
