(* ===== verification/GoFloat.thy ===== *)
theory GoFloat
  imports Prelude
begin

text \<open>
  Go's \<open>float32\<close> and \<open>float64\<close>, as far as the sources compute with them. A stored 32-bit float is its
  bit pattern. A value is not a number, infinite, or \<open>m * 2^e\<close>; an operation computes the exact
  result and rounds it once to the format, ties to even, as IEEE 754 and the language require. The
  sign of a zero is kept only where a result is stored: the sums that are stored here are never
  negative zeros.
\<close>

section \<open>Bit patterns\<close>

type_synonym f32 = "32 word"

definition f32_mag :: "f32 \<Rightarrow> int" where
  "f32_mag w = uint w mod 2 ^ 31"

definition f32_neg :: "f32 \<Rightarrow> bool" where
  "f32_neg w \<longleftrightarrow> 2 ^ 31 \<le> uint w"

definition f32_nan :: "f32 \<Rightarrow> bool" where
  "f32_nan w \<longleftrightarrow> f32_mag w > 0x7F800000"

text \<open>The place of a number in the order of numbers; only for numbers that are not NaN.\<close>

definition f32_pos :: "f32 \<Rightarrow> int" where
  "f32_pos w = (if f32_neg w then - f32_mag w else f32_mag w)"

definition f32_less :: "f32 \<Rightarrow> f32 \<Rightarrow> bool" where
  "f32_less x y \<longleftrightarrow> \<not> f32_nan x \<and> \<not> f32_nan y \<and> f32_pos x < f32_pos y"

text \<open>\<^verbatim>\<open>cmp.Compare\<close> on floats: a NaN is less than every number and equal to every NaN.\<close>

definition cmp_f32 :: "f32 \<Rightarrow> f32 \<Rightarrow> int" where
  "cmp_f32 x y =
     (if f32_nan x then if f32_nan y then 0 else -1
      else if f32_nan y then 1
      else if f32_less x y then -1 else if f32_less y x then 1 else 0)"

definition f32_rank :: "f32 \<Rightarrow> int" where
  "f32_rank w = (if f32_nan w then - (2 ^ 31) else f32_pos w)"

lemma f32_pos_bound: "\<not> f32_nan w \<Longrightarrow> - (2 ^ 31) < f32_pos w"
  by (auto simp: f32_pos_def f32_nan_def f32_mag_def)

lemma f32_less_rank: "\<not> f32_nan x \<Longrightarrow> \<not> f32_nan y \<Longrightarrow> f32_less x y \<longleftrightarrow> f32_rank x < f32_rank y"
  by (simp add: f32_less_def f32_rank_def)

lemma cmp_f32_rank: "cmp_f32 x y = sgn (f32_rank x - f32_rank y)"
  using f32_pos_bound [of x] f32_pos_bound [of y]
  by (auto simp: cmp_f32_def f32_less_def f32_rank_def sgn_if)

section \<open>Rounding\<close>

function bit_count :: "int \<Rightarrow> nat" where
  "bit_count n = (if n \<le> 0 then 0 else Suc (bit_count (n div 2)))"
  by pat_completeness auto

termination by (relation "measure nat") auto

declare bit_count.simps [simp del]

text \<open>The integer next to \<open>n / 2^k\<close>, the even one of two.\<close>

definition round_half_even :: "int \<Rightarrow> nat \<Rightarrow> int" where
  "round_half_even n k =
     (let q = n div 2 ^ k; r = n mod 2 ^ k
      in if 2 * r > 2 ^ k \<or> 2 * r = 2 ^ k \<and> odd q then q + 1 else q)"

lemma bit_count_bound: "0 \<le> n \<Longrightarrow> n < 2 ^ bit_count n"
proof (induction n rule: bit_count.induct)
  case (1 n)
  show ?case
  proof (cases "n \<le> 0")
    case False
    with 1 have "n div 2 < 2 ^ bit_count (n div 2)" by simp
    then have "n < 2 * 2 ^ bit_count (n div 2)" by linarith
    with False show ?thesis by (simp add: bit_count.simps [of n])
  qed (use 1 in simp)
qed

lemma bit_count_least: "0 < n \<Longrightarrow> 2 ^ (bit_count n - 1) \<le> n"
proof (induction n rule: bit_count.induct)
  case (1 n)
  show ?case
  proof (cases "n = 1")
    case False
    with 1 have "2 ^ (bit_count (n div 2) - 1) \<le> n div 2" by simp
    moreover have "bit_count (n div 2) \<noteq> 0" using False 1(2) by (subst bit_count.simps) auto
    ultimately have "2 ^ bit_count (n div 2) \<le> n" by (cases "bit_count (n div 2)") auto
    with 1(2) show ?thesis by (simp add: bit_count.simps [of n])
  qed (simp add: bit_count.simps)
qed

text \<open>The rounding error is at most half of the step.\<close>

lemma round_half_even_error: "2 * \<bar>round_half_even n k * 2 ^ k - n\<bar> \<le> 2 ^ k"
proof -
  let ?q = "n div 2 ^ k" and ?r = "n mod 2 ^ k"
  have n: "n = ?q * 2 ^ k + ?r" and r: "0 \<le> ?r" "?r < 2 ^ k" by (simp_all only: div_mult_mod_eq) simp_all
  have "(?q + 1) * 2 ^ k - n = 2 ^ k - ?r" "?q * 2 ^ k - n = - ?r" using n by (simp_all add: algebra_simps)
  moreover have "\<bar>2 ^ k - ?r\<bar> = 2 ^ k - ?r" by (intro abs_of_nonneg) (use r(2) in linarith)
  ultimately show ?thesis using r(1) by (auto simp: round_half_even_def Let_def)
qed

section \<open>Values and operations\<close>

datatype fval = FNaN | FInf bool | Fin int int

text \<open>A format: bits of the significand, exponent of the last place of the smallest number, exponent
  of the first power that is too large.\<close>

type_synonym format = "nat \<times> int \<times> int"

definition single :: format where
  "single = (24, -149, 128)"

definition double :: format where
  "double = (53, -1074, 1024)"

fun f_fix :: "format \<Rightarrow> int \<Rightarrow> int \<Rightarrow> fval" where
  "f_fix (p, emin, emax) m e =
     (let a = \<bar>m\<bar>; k = nat (max (int (bit_count a) - int p) (emin - e)); q = round_half_even a k
      in if emax < e + int k + int (bit_count q) then FInf (m < 0)
         else Fin (if m < 0 then - q else q) (e + int k))"

fun f_add :: "format \<Rightarrow> fval \<Rightarrow> fval \<Rightarrow> fval" where
  "f_add f (Fin m1 e1) (Fin m2 e2) =
     (let e = min e1 e2 in f_fix f (m1 * 2 ^ nat (e1 - e) + m2 * 2 ^ nat (e2 - e)) e)"
| "f_add f (FInf s) (FInf t) = (if s = t then FInf s else FNaN)"
| "f_add f (FInf s) (Fin m e) = FInf s"
| "f_add f (Fin m e) (FInf s) = FInf s"
| "f_add f x y = FNaN"

text \<open>The exact product.\<close>

fun f_times :: "fval \<Rightarrow> fval \<Rightarrow> fval" where
  "f_times (Fin m1 e1) (Fin m2 e2) = Fin (m1 * m2) (e1 + e2)"
| "f_times (FInf s) (FInf t) = FInf (s \<noteq> t)"
| "f_times (FInf s) (Fin m e) = (if m = 0 then FNaN else FInf (s \<noteq> (m < 0)))"
| "f_times (Fin m e) (FInf s) = (if m = 0 then FNaN else FInf (s \<noteq> (m < 0)))"
| "f_times x y = FNaN"

fun f_round :: "format \<Rightarrow> fval \<Rightarrow> fval" where
  "f_round f (Fin m e) = f_fix f m e"
| "f_round f x = x"

definition f_mul :: "format \<Rightarrow> fval \<Rightarrow> fval \<Rightarrow> fval" where
  "f_mul f x y = f_round f (f_times x y)"

text \<open>\<^verbatim>\<open>x*y + z\<close>, which the compiler may or may not fuse into one operation.\<close>

definition f_muladd :: "bool \<Rightarrow> format \<Rightarrow> fval \<Rightarrow> fval \<Rightarrow> fval \<Rightarrow> fval" where
  "f_muladd fused f x y z = f_add f z (if fused then f_times x y else f_mul f x y)"

function isqrt :: "int \<Rightarrow> int" where
  "isqrt n = (if n \<le> 0 then 0 else let r = 2 * isqrt (n div 4) in if (r + 1) * (r + 1) \<le> n then r + 1 else r)"
  by pat_completeness auto

termination by (relation "measure nat") auto

declare isqrt.simps [simp del]

lemma isqrt_spec: "0 \<le> n \<Longrightarrow> 0 \<le> isqrt n \<and> isqrt n * isqrt n \<le> n \<and> n < (isqrt n + 1) * (isqrt n + 1)"
proof (induction n rule: isqrt.induct)
  case (1 n)
  show ?case
  proof (cases "n \<le> 0")
    case False
    let ?q = "isqrt (n div 4)"
    from 1 False have IH: "0 \<le> ?q" "?q * ?q \<le> n div 4" "n div 4 < (?q + 1) * (?q + 1)" by simp_all
    from IH(2,3) have "4 * (?q * ?q) \<le> n" "n < 4 * ((?q + 1) * (?q + 1))" by linarith+
    with False IH(1) show ?thesis by (auto simp: isqrt.simps [of n] Let_def algebra_simps)
  qed (use 1 in \<open>simp add: isqrt.simps\<close>)
qed

text \<open>
  Roots and quotients: the integer part with more bits than the format keeps, and one more bit that says
  whether a remainder was cut off, so that the rounding sees on which side of a middle the exact result
  lies.
\<close>

definition sticky :: "int \<Rightarrow> bool \<Rightarrow> int" where
  "sticky q inexact = 2 * q + (if inexact then 1 else 0)"

fun f_sqrt :: "format \<Rightarrow> fval \<Rightarrow> fval" where
  "f_sqrt f (Fin m e) =
     (if m = 0 then Fin 0 0
      else if m < 0 then FNaN
      else let k = (if even e then 120 else 121); n = m * 2 ^ k; r = isqrt n
           in f_fix f (sticky r (r * r \<noteq> n)) ((e - int k) div 2 - 1))"
| "f_sqrt f (FInf s) = (if s then FNaN else FInf False)"
| "f_sqrt f FNaN = FNaN"

fun f_div :: "format \<Rightarrow> fval \<Rightarrow> fval \<Rightarrow> fval" where
  "f_div f (Fin m1 e1) (Fin m2 e2) =
     (if m2 = 0 then (if m1 = 0 then FNaN else FInf (m1 < 0))
      else let k = bit_count \<bar>m2\<bar> + 60; n = \<bar>m1\<bar> * 2 ^ k; q = n div \<bar>m2\<bar>;
               a = sticky q (q * \<bar>m2\<bar> \<noteq> n)
           in f_fix f (if (m1 < 0) \<noteq> (m2 < 0) then - a else a) (e1 - e2 - int k - 1))"
| "f_div f (FInf s) (Fin m e) = FInf (s \<noteq> (m < 0))"
| "f_div f (Fin m e) (FInf s) = Fin 0 0"
| "f_div f x y = FNaN"

fun f_less :: "fval \<Rightarrow> fval \<Rightarrow> bool" where
  "f_less (Fin m1 e1) (Fin m2 e2) = (let e = min e1 e2 in m1 * 2 ^ nat (e1 - e) < m2 * 2 ^ nat (e2 - e))"
| "f_less (FInf s) (FInf t) = (s \<and> \<not> t)"
| "f_less (FInf s) (Fin m e) = s"
| "f_less (Fin m e) (FInf s) = (\<not> s)"
| "f_less x y = False"

definition f_le :: "fval \<Rightarrow> fval \<Rightarrow> bool" where
  "f_le x y \<longleftrightarrow> x \<noteq> FNaN \<and> y \<noteq> FNaN \<and> \<not> f_less y x"

section \<open>Reading and storing\<close>

definition f_of32 :: "f32 \<Rightarrow> fval" where
  "f_of32 w =
     (let x = f32_mag w div 2 ^ 23; m = f32_mag w mod 2 ^ 23; sign = (if f32_neg w then -1 else 1)
      in if x = 255 then if m = 0 then FInf (f32_neg w) else FNaN
         else if x = 0 then Fin (sign * m) (-149)
         else Fin (sign * (m + 2 ^ 23)) (x - 150))"

text \<open>Storing rounds to 32 bits; the pattern of a NaN is the canonical one.\<close>

fun f_to32 :: "fval \<Rightarrow> f32" where
  "f_to32 FNaN = 0x7FC00000"
| "f_to32 (FInf s) = (if s then 0xFF800000 else 0x7F800000)"
| "f_to32 (Fin m e) =
     (case f_fix single m e of
        Fin m1 e1 \<Rightarrow>
          let a = \<bar>m1\<bar>; top = e1 + int (bit_count a);
              mag = (if a = 0 then 0
                     else if top < -125 then a * 2 ^ nat (e1 + 149)
                     else (top + 126) * 2 ^ 23 + (a * 2 ^ 24 div 2 ^ bit_count a - 2 ^ 23))
          in word_of_int (mag + (if m < 0 then 2 ^ 31 else 0))
      | FInf s \<Rightarrow> if s then 0xFF800000 else 0x7F800000
      | FNaN \<Rightarrow> 0x7FC00000)"

end
