(* ===== verification/LocalStore.thy ===== *)
theory LocalStore
  imports GoHeap GoFloat
begin

text \<open>
  The vector store, \<open>backend/go/local-store/store.go\<close>: keys are vectors of 32-bit floats, kept sorted
  beside their values. A float is its 32 bits, so the order of keys is the one of
  \<^verbatim>\<open>cmp.Compare\<close>, with its two zeros and its NaNs. The calls to \<open>assert\<close> have no
  effect in a production build and are left out. The language lets a compiler fuse a multiplication and
  an addition of the 32-bit sum of \<open>findNormalized\<close>; \<open>fused\<close> says whether it does. The 64-bit sums
  are the same either way, since the products of two 32-bit floats are exact.
\<close>

section \<open>Keys\<close>

type_synonym vec = "f32 list"
type_synonym bytes = "8 word list"

text \<open>\<^verbatim>\<open>slices.Compare\<close> on vectors.\<close>

fun slices_compare :: "vec \<Rightarrow> vec \<Rightarrow> int" where
  "slices_compare [] [] = 0"
| "slices_compare [] (y # ys) = -1"
| "slices_compare (x # xs) [] = 1"
| "slices_compare (x # xs) (y # ys) = (let c = cmp_f32 x y in if c \<noteq> 0 then c else slices_compare xs ys)"

text \<open>\<^verbatim>\<open>slices.BinarySearchFunc\<close>: the loop narrows \<open>i\<close> and \<open>j\<close> around the first element that is not
  less than the target.\<close>

function bsearch_loop :: "vec list \<Rightarrow> vec \<Rightarrow> nat \<Rightarrow> nat \<Rightarrow> nat" where
  "bsearch_loop xs k i j =
     (if i < j
      then let h = (i + j) div 2
           in if slices_compare (xs ! h) k < 0 then bsearch_loop xs k (h + 1) j else bsearch_loop xs k i h
      else i)"
  by pat_completeness auto

termination by (relation "measure (\<lambda>(xs, k, i, j). j - i)") auto

declare bsearch_loop.simps [simp del]

definition BinarySearchFunc :: "vec list \<Rightarrow> vec \<Rightarrow> nat \<times> bool" where
  "BinarySearchFunc xs k =
     (let i = bsearch_loop xs k 0 (length xs) in (i, i < length xs \<and> slices_compare (xs ! i) k = 0))"

section \<open>Unit length and similarity\<close>

definition sum_squares :: "vec \<Rightarrow> fval" where
  "sum_squares k = foldl (\<lambda>sum v. f_add double sum (f_mul double (f_of32 v) (f_of32 v))) (Fin 0 0) k"

text \<open>\<^verbatim>\<open>0.99\<close> and \<^verbatim>\<open>1.01\<close> as 64-bit floats.\<close>

definition isNormalized :: "vec \<Rightarrow> bool" where
  "isNormalized k \<longleftrightarrow>
     (let mag = f_sqrt double (sum_squares k)
      in f_le (Fin 8917127262193582 (-53)) mag \<and> f_le mag (Fin 4548635623644201 (-52)))"

text \<open>\<open>findNormalized\<close>: the dot product in 32-bit floats.\<close>

definition normalized_similarity :: "bool \<Rightarrow> vec \<Rightarrow> vec \<Rightarrow> f32" where
  "normalized_similarity fused query k =
     f_to32 (foldl (\<lambda>dot (q, v). f_muladd fused single (f_of32 q) (f_of32 v) dot) (Fin 0 0) (zip query k))"

text \<open>\<open>findFallback\<close>: the cosine in 64-bit floats.\<close>

definition fallback_similarity :: "vec \<Rightarrow> vec \<Rightarrow> f32" where
  "fallback_similarity query k =
     (let qmag = f_sqrt double (sum_squares query);
          dot = foldl (\<lambda>dot (q, v). f_add double dot (f_mul double (f_of32 q) (f_of32 v))) (Fin 0 0) (zip query k);
          kmag = sum_squares k;
          denom = f_mul double qmag (f_sqrt double kmag)
      in if f_less (Fin 0 0) denom then f_to32 (f_div double dot denom) else 0)"

section \<open>The store\<close>

record store =
  keys :: "vec list"
  vals :: "bytes list"
  keysAreNormalized :: bool
  keyLen :: int

datatype store_error =
    NotNamespace string
  | NoKeys
  | CountMismatch nat nat
  | FirstKeyLength nat int
  | KeyLength nat nat int
  | TopK int
  | QueryLength nat int

definition NewStore :: store where
  "NewStore = \<lparr>keys = [], vals = [], keysAreNormalized = True, keyLen = -1\<rparr>"

definition NamespacePrefix :: string where
  "NamespacePrefix = ''store://''"

definition Load :: "string \<Rightarrow> store_error option" where
  "Load model = (if take (length NamespacePrefix) model \<noteq> NamespacePrefix then Some (NotNamespace model) else None)"

type_synonym pair = "vec \<times> bytes"

definition pair_less :: "pair \<Rightarrow> pair \<Rightarrow> bool" where
  "pair_less a b \<longleftrightarrow> slices_compare (fst a) (fst b) < 0"

fun mergeSortedPairs :: "vec list \<Rightarrow> bytes list \<Rightarrow> pair list \<Rightarrow> vec list \<times> bytes list" where
  "mergeSortedPairs [] evs [] = ([], [])"
| "mergeSortedPairs [] evs (p # ps) =
     (let (mk, mv) = mergeSortedPairs [] evs ps in (fst p # mk, snd p # mv))"
| "mergeSortedPairs (k # ks) evs [] =
     (let (mk, mv) = mergeSortedPairs ks (tl evs) [] in (k # mk, hd evs # mv))"
| "mergeSortedPairs (k # ks) evs (p # ps) =
     (let c = slices_compare (fst p) k
      in if c < 0 then (let (mk, mv) = mergeSortedPairs (k # ks) evs ps in (fst p # mk, snd p # mv))
         else if c > 0 then (let (mk, mv) = mergeSortedPairs ks (tl evs) (p # ps) in (k # mk, hd evs # mv))
         else (let (mk, mv) = mergeSortedPairs ks (tl evs) ps in (fst p # mk, snd p # mv)))"

text \<open>The loop over the incoming keys: it checks the lengths and the magnitudes, and stops at the
  first key of another length, with the flag as it is by then.\<close>

fun check_keys :: "nat \<Rightarrow> int \<Rightarrow> vec list \<Rightarrow> bool \<Rightarrow> store_error option \<times> bool" where
  "check_keys i n [] nrm = (None, nrm)"
| "check_keys i n (k # ks) nrm =
     (if int (length k) \<noteq> n then (Some (KeyLength i (length k) n), nrm)
      else check_keys (i + 1) n ks (if nrm \<and> \<not> isNormalized k then False else nrm))"

definition StoresSet :: "vec list \<Rightarrow> bytes list \<Rightarrow> store \<Rightarrow> store_error option \<times> store" where
  "StoresSet ks vs s =
     (if ks = [] then (Some NoKeys, s)
      else if length ks \<noteq> length vs then (Some (CountMismatch (length ks) (length vs)), s)
      else if keyLen s \<noteq> -1 \<and> int (length (hd ks)) \<noteq> keyLen s
      then (Some (FirstKeyLength (length (hd ks)) (keyLen s)), s)
      else
        let s1 = (if keyLen s = -1 then s\<lparr>keyLen := int (length (hd ks))\<rparr> else s);
            (err, nrm) = check_keys 0 (keyLen s1) ks (keysAreNormalized s1);
            s2 = s1\<lparr>keysAreNormalized := nrm\<rparr>
        in case err of
             Some e \<Rightarrow> (Some e, s2)
           | None \<Rightarrow> let (mk, mv) = mergeSortedPairs (keys s2) (vals s2) (go_sort pair_less (zip ks vs))
                     in (None, s2\<lparr>keys := mk, vals := mv\<rparr>))"

definition key_less :: "vec \<Rightarrow> vec \<Rightarrow> bool" where
  "key_less a b \<longleftrightarrow> slices_compare a b < 0"

fun check_lengths :: "nat \<Rightarrow> int \<Rightarrow> vec list \<Rightarrow> store_error option" where
  "check_lengths i n [] = None"
| "check_lengths i n (k # ks) = (if int (length k) \<noteq> n then Some (KeyLength i (length k) n) else check_lengths (i + 1) n ks)"

fun delete_loop :: "vec list \<Rightarrow> vec list \<Rightarrow> bytes list \<Rightarrow> vec list \<times> bytes list" where
  "delete_loop [] tailK tailV = (tailK, tailV)"
| "delete_loop (k # ks) tailK tailV =
     (let (j, ok) = BinarySearchFunc tailK k
      in if ok then (let (mk, mv) = delete_loop ks (drop (j + 1) tailK) (drop (j + 1) tailV)
                     in (take j tailK @ mk, take j tailV @ mv))
         else delete_loop ks tailK tailV)"

definition StoresDelete :: "vec list \<Rightarrow> store \<Rightarrow> store_error option \<times> store" where
  "StoresDelete ks s =
     (if ks = [] then (Some NoKeys, s)
      else case (if keyLen s \<noteq> -1 then check_lengths 0 (keyLen s) ks else None) of
        Some e \<Rightarrow> (Some e, s)
      | None \<Rightarrow>
          let (mk, mv) = delete_loop (go_sort key_less ks) (keys s) (vals s);
              s1 = s\<lparr>keys := mk, vals := mv\<rparr>
          in (None, if mk = [] then s1\<lparr>keyLen := -1, keysAreNormalized := True\<rparr> else s1))"

fun get_loop :: "vec list \<Rightarrow> vec list \<Rightarrow> bytes list \<Rightarrow> pair list" where
  "get_loop [] tailK tailV = []"
| "get_loop (k # ks) tailK tailV =
     (let (j, ok) = BinarySearchFunc tailK k
      in if ok then (tailK ! j, tailV ! j) # get_loop ks (drop (j + 1) tailK) (drop (j + 1) tailV)
         else get_loop ks tailK tailV)"

definition StoresGet :: "vec list \<Rightarrow> store \<Rightarrow> store_error + pair list" where
  "StoresGet ks s =
     (if keys s = [] then Inr []
      else case (if keyLen s \<noteq> -1 then check_lengths 0 (keyLen s) ks else None) of
        Some e \<Rightarrow> Inl e
      | None \<Rightarrow> Inr (get_loop (go_sort key_less ks) (keys s) (vals s)))"

section \<open>Search\<close>

record item =
  similarity :: f32
  ikey :: vec
  ivalue :: bytes

definition item_less :: "item \<Rightarrow> item \<Rightarrow> bool" where
  "item_less a b \<longleftrightarrow> f32_less (similarity a) (similarity b)"

definition find_step :: "(vec \<Rightarrow> f32) \<Rightarrow> nat \<Rightarrow> pair \<Rightarrow> item list \<Rightarrow> item list" where
  "find_step sim topK p pq =
     (let pq1 = heap_push item_less \<lparr>similarity = sim (fst p), ikey = fst p, ivalue = snd p\<rparr> pq
      in if length pq1 > topK then snd (the (heap_pop item_less pq1)) else pq1)"

fun drain :: "nat \<Rightarrow> item list \<Rightarrow> item list" where
  "drain 0 pq = []"
| "drain (Suc n) pq = (case heap_pop item_less pq of None \<Rightarrow> [] | Some (x, pq1) \<Rightarrow> drain n pq1 @ [x])"

definition drainPQ :: "item list \<Rightarrow> item list" where
  "drainPQ pq = drain (length pq) pq"

definition find_top :: "(vec \<Rightarrow> f32) \<Rightarrow> nat \<Rightarrow> store \<Rightarrow> item list" where
  "find_top sim topK s = drainPQ (fold (find_step sim topK) (zip (keys s) (vals s)) [])"

definition findNormalized :: "bool \<Rightarrow> vec \<Rightarrow> nat \<Rightarrow> store \<Rightarrow> item list" where
  "findNormalized fused query topK s = find_top (normalized_similarity fused query) topK s"

definition findFallback :: "vec \<Rightarrow> nat \<Rightarrow> store \<Rightarrow> item list" where
  "findFallback query topK s = find_top (fallback_similarity query) topK s"

definition StoresFind :: "bool \<Rightarrow> vec \<Rightarrow> int \<Rightarrow> store \<Rightarrow> store_error + item list" where
  "StoresFind fused query topK s =
     (if topK < 1 then Inl (TopK topK)
      else if keys s = [] then Inr []
      else if int (length query) \<noteq> keyLen s then Inl (QueryLength (length query) (keyLen s))
      else if keysAreNormalized s \<and> isNormalized query then Inr (findNormalized fused query (nat topK) s)
      else Inr (findFallback query (nat topK) s))"

end
