(* ===== verification/LocalStoreProps.thy ===== *)
theory LocalStoreProps
  imports LocalStore
begin

text \<open>
  The vector store implements a map from vectors to values, and its search returns the most similar
  entries. Vectors that compare equal (the two zeros, two NaNs) have equal \<open>ranks\<close>, so the map is
  one from ranks. The last section has the two cases in which \<open>StoresSet\<close> does not keep its word.
\<close>

section \<open>The order of keys\<close>

abbreviation ranks :: "vec \<Rightarrow> int list" where
  "ranks k \<equiv> map f32_rank k"

lemma slices_compare_ranks:
  "slices_compare a b = (if ranks a < ranks b then -1 else if ranks a = ranks b then 0 else 1)"
  by (induction a b rule: slices_compare.induct) (auto simp: cmp_f32_rank sgn_if Let_def)

lemma key_less_ranks: "key_less a b \<longleftrightarrow> ranks a < ranks b"
  by (simp add: key_less_def slices_compare_ranks)

lemma pair_less_ranks: "pair_less p q \<longleftrightarrow> ranks (fst p) < ranks (fst q)"
  by (simp add: pair_less_def slices_compare_ranks)

interpretation keys: strict_weak key_less
  by unfold_locales (auto simp: key_less_ranks)

interpretation pairs: strict_weak pair_less
  by unfold_locales (auto simp: pair_less_ranks)

lemma sorted_keys: "sorted (map ranks (go_sort key_less ks))"
  using keys.go_sort_sorted [of ks] by (simp add: sorted_wrt_map key_less_ranks not_less)

lemma sorted_pairs:
  assumes "distinct (map (ranks \<circ> fst) ps)"
  shows "sorted_wrt (<) (map (ranks \<circ> fst) (go_sort pair_less ps))"
proof -
  have "sorted (map (ranks \<circ> fst) (go_sort pair_less ps))"
    using pairs.go_sort_sorted [of ps] by (simp add: sorted_wrt_map pair_less_ranks not_less)
  moreover have "distinct (map (ranks \<circ> fst) (go_sort pair_less ps))"
    using assms by (metis mset_go_sort mset_eq_imp_distinct_iff mset_map)
  ultimately show ?thesis by (simp add: strict_sorted_iff)
qed

section \<open>Binary search\<close>

lemma bsearch_loop_spec:
  assumes "sorted (map ranks xs)" and "i \<le> j" "j \<le> length xs"
    and "\<forall>m < i. ranks (xs ! m) < ranks k" and "\<forall>m < length xs. j \<le> m \<longrightarrow> ranks k \<le> ranks (xs ! m)"
  shows "bsearch_loop xs k i j \<le> length xs \<and> (\<forall>m < bsearch_loop xs k i j. ranks (xs ! m) < ranks k)
    \<and> (\<forall>m < length xs. bsearch_loop xs k i j \<le> m \<longrightarrow> ranks k \<le> ranks (xs ! m))"
  using assms
proof (induction xs k i j rule: bsearch_loop.induct)
  case (1 xs k i j)
  let ?h = "(i + j) div 2"
  have mono: "ranks (xs ! m) \<le> ranks (xs ! n)" if "m \<le> n" "n < length xs" for m n
    using "1.prems"(1) that by (simp add: sorted_iff_nth_mono)
  show ?case
  proof (cases "i < j")
    case True
    then have h: "i \<le> ?h" "?h < j" "?h < length xs" using "1.prems"(3) by auto
    show ?thesis
    proof (cases "slices_compare (xs ! ?h) k < 0")
      case less: True
      then have "ranks (xs ! m) < ranks k" if "m < ?h + 1" for m
        using mono [of m ?h] that h(3) by (auto simp: slices_compare_ranks split: if_splits intro: le_less_trans)
      with "1.IH"(1) [OF True refl less] "1.prems" h show ?thesis
        using less by (simp add: bsearch_loop.simps [of xs k i j] True)
    next
      case False
      then have "ranks k \<le> ranks (xs ! ?h)" by (auto simp: slices_compare_ranks split: if_splits)
      then have "ranks k \<le> ranks (xs ! m)" if "m < length xs" "?h \<le> m" for m
        using mono [of ?h m] that by (auto intro: order_trans)
      with "1.IH"(2) [OF True refl False] "1.prems" h show ?thesis
        using False by (simp add: bsearch_loop.simps [of xs k i j] True)
    qed
  next
    case False
    then have "bsearch_loop xs k i j = i" by (simp add: bsearch_loop.simps [of xs k i j])
    with "1.prems" False show ?thesis by simp
  qed
qed

text \<open>In a strictly sorted list the search splits at the key.\<close>

lemma BinarySearchFunc_spec:
  assumes "sorted_wrt (<) (map ranks xs)" and "BinarySearchFunc xs k = (j, ok)"
  shows "\<forall>x \<in> set (take j xs). ranks x < ranks k"
    and "ok \<Longrightarrow> j < length xs \<and> ranks (xs ! j) = ranks k \<and> (\<forall>x \<in> set (drop (j + 1) xs). ranks k < ranks x)"
    and "\<not> ok \<Longrightarrow> \<forall>x \<in> set xs. ranks x \<noteq> ranks k"
proof -
  have srt: "sorted (map ranks xs)" using assms(1) by (simp add: strict_sorted_iff)
  from assms(2) have j: "j = bsearch_loop xs k 0 (length xs)" and ok: "ok \<longleftrightarrow> j < length xs \<and> ranks (xs ! j) = ranks k"
    by (auto simp: BinarySearchFunc_def slices_compare_ranks Let_def split: if_splits)
  from bsearch_loop_spec [OF srt, of 0 "length xs" k] have below: "\<forall>m < j. ranks (xs ! m) < ranks k"
    and above: "\<forall>m < length xs. j \<le> m \<longrightarrow> ranks k \<le> ranks (xs ! m)" by (simp_all add: j)
  show "\<forall>x \<in> set (take j xs). ranks x < ranks k" using below by (auto simp: in_set_conv_nth)
  show "j < length xs \<and> ranks (xs ! j) = ranks k \<and> (\<forall>x \<in> set (drop (j + 1) xs). ranks k < ranks x)" if ok
  proof -
    from that ok have *: "j < length xs" "ranks (xs ! j) = ranks k" by auto
    have "ranks k < ranks x" if "x \<in> set (drop (j + 1) xs)" for x
    proof -
      from that obtain m where "j + 1 + m < length xs" "x = xs ! (j + 1 + m)"
        by (auto simp: in_set_conv_nth less_diff_conv add.commute) blast
      with assms(1) * show ?thesis using sorted_wrt_nth_less [of "(<)" "map ranks xs" j "j + 1 + m"] by simp
    qed
    with * show ?thesis by blast
  qed
  show "\<forall>x \<in> set xs. ranks x \<noteq> ranks k" if "\<not> ok"
  proof
    fix x assume "x \<in> set xs"
    then obtain m where m: "m < length xs" "x = xs ! m" by (auto simp: in_set_conv_nth)
    show "ranks x \<noteq> ranks k"
    proof
      assume eq: "ranks x = ranks k"
      with below m have "j \<le> m" by (metis less_irrefl not_less)
      then have "ranks (xs ! j) \<le> ranks (xs ! m)" "ranks k \<le> ranks (xs ! j)"
        using m(1) above srt by (simp_all add: sorted_iff_nth_mono)
      with ok that m eq \<open>j \<le> m\<close> show False by simp
    qed
  qed
qed

section \<open>Get and Delete\<close>

lemma zip_fst_mem: "p \<in> set (zip xs ys) \<Longrightarrow> fst p \<in> set xs"
  by (metis prod.collapse set_zip_leftD)

lemma split_at:
  assumes "j < length ks" and "length ks = length vs"
  shows "zip ks vs = zip (take j ks) (take j vs) @ (ks ! j, vs ! j) # zip (drop (j + 1) ks) (drop (j + 1) vs)"
proof -
  have "ks = take j ks @ ks ! j # drop (j + 1) ks" and "vs = take j vs @ vs ! j # drop (j + 1) vs"
    using assms by (simp_all add: id_take_nth_drop)
  moreover have "length (take j ks) = length (take j vs)" using assms by simp
  ultimately show ?thesis by (metis zip_Cons_Cons zip_append)
qed

text \<open>One search: what it finds is the only entry with that key, and lies behind the entries that later keys
  cannot find.\<close>

lemma search_found:
  assumes "sorted_wrt (<) (map ranks ks)" and "length ks = length vs" and "BinarySearchFunc ks k = (j, True)"
    and "\<forall>q \<in> set qs. ranks k \<le> ranks q"
  shows "filter (\<lambda>p. ranks (fst p) \<in> ranks ` set (k # qs)) (zip ks vs) =
      (ks ! j, vs ! j) # filter (\<lambda>p. ranks (fst p) \<in> ranks ` set qs) (zip (drop (j + 1) ks) (drop (j + 1) vs))"
    and "filter (\<lambda>p. ranks (fst p) \<notin> ranks ` set (k # qs)) (zip ks vs) =
      zip (take j ks) (take j vs) @ filter (\<lambda>p. ranks (fst p) \<notin> ranks ` set qs) (zip (drop (j + 1) ks) (drop (j + 1) vs))"
    and "sorted_wrt (<) (map ranks (drop (j + 1) ks))"
proof -
  note b = BinarySearchFunc_spec [OF assms(1,3)]
  have j: "j < length ks" "ranks (ks ! j) = ranks k" using b(2) by auto
  have lo: "ranks (fst p) \<notin> ranks ` set (k # qs)" if "p \<in> set (zip (take j ks) (take j vs))" for p
  proof -
    from that have "fst p \<in> set (take j ks)" by (rule zip_fst_mem)
    with b(1) have "ranks (fst p) < ranks k" by blast
    with assms(4) show ?thesis by auto
  qed
  have hi: "ranks (fst p) \<noteq> ranks k" if "p \<in> set (zip (drop (j + 1) ks) (drop (j + 1) vs))" for p
  proof -
    from that have "fst p \<in> set (drop (j + 1) ks)" by (rule zip_fst_mem)
    with b(2) show ?thesis by auto
  qed
  have tail: "filter (\<lambda>p. ranks (fst p) \<in> ranks ` set (k # qs)) (zip (drop (j + 1) ks) (drop (j + 1) vs)) =
      filter (\<lambda>p. ranks (fst p) \<in> ranks ` set qs) (zip (drop (j + 1) ks) (drop (j + 1) vs))"
    "filter (\<lambda>p. ranks (fst p) \<notin> ranks ` set (k # qs)) (zip (drop (j + 1) ks) (drop (j + 1) vs)) =
      filter (\<lambda>p. ranks (fst p) \<notin> ranks ` set qs) (zip (drop (j + 1) ks) (drop (j + 1) vs))"
    using hi by (auto intro!: filter_cong)
  show "filter (\<lambda>p. ranks (fst p) \<in> ranks ` set (k # qs)) (zip ks vs) =
      (ks ! j, vs ! j) # filter (\<lambda>p. ranks (fst p) \<in> ranks ` set qs) (zip (drop (j + 1) ks) (drop (j + 1) vs))"
    unfolding split_at [OF j(1) assms(2)] using lo j(2) tail(1) by (simp add: filter_empty_conv)
  show "filter (\<lambda>p. ranks (fst p) \<notin> ranks ` set (k # qs)) (zip ks vs) =
      zip (take j ks) (take j vs) @ filter (\<lambda>p. ranks (fst p) \<notin> ranks ` set qs) (zip (drop (j + 1) ks) (drop (j + 1) vs))"
    unfolding split_at [OF j(1) assms(2)] using lo j(2) tail(2) by (simp add: filter_id_conv)
  show "sorted_wrt (<) (map ranks (drop (j + 1) ks))" using assms(1) by (simp add: sorted_wrt_drop flip: drop_map)
qed

lemma get_loop_filter:
  assumes "sorted (map ranks qs)" and "sorted_wrt (<) (map ranks ks)" and "length ks = length vs"
  shows "get_loop qs ks vs = filter (\<lambda>p. ranks (fst p) \<in> ranks ` set qs) (zip ks vs)"
  using assms
proof (induction qs arbitrary: ks vs)
  case Nil
  then show ?case by simp
next
  case (Cons k qs)
  obtain j ok where bs: "BinarySearchFunc ks k = (j, ok)" by (cases "BinarySearchFunc ks k")
  show ?case
  proof (cases ok)
    case True
    with search_found [OF Cons.prems(2,3), of k j qs] bs Cons show ?thesis by simp
  next
    case False
    have "ranks (fst p) \<noteq> ranks k" if "p \<in> set (zip ks vs)" for p
      using BinarySearchFunc_spec(3) [OF Cons.prems(2) bs False] zip_fst_mem [OF that] by blast
    then have "filter (\<lambda>p. ranks (fst p) \<in> ranks ` set (k # qs)) (zip ks vs) =
      filter (\<lambda>p. ranks (fst p) \<in> ranks ` set qs) (zip ks vs)" by (auto intro!: filter_cong)
    with False bs Cons show ?thesis by simp
  qed
qed

lemma delete_loop_filter:
  assumes "sorted (map ranks qs)" and "sorted_wrt (<) (map ranks ks)" and "length ks = length vs"
    and "delete_loop qs ks vs = (mk, mv)"
  shows "length mk = length mv \<and> zip mk mv = filter (\<lambda>p. ranks (fst p) \<notin> ranks ` set qs) (zip ks vs)"
  using assms
proof (induction qs arbitrary: ks vs mk mv)
  case Nil
  then show ?case by simp
next
  case (Cons k qs)
  obtain j ok where bs: "BinarySearchFunc ks k = (j, ok)" by (cases "BinarySearchFunc ks k")
  show ?case
  proof (cases ok)
    case True
    obtain mk1 mv1 where d: "delete_loop qs (drop (j + 1) ks) (drop (j + 1) vs) = (mk1, mv1)" by fastforce
    with True bs Cons.prems(4) have m: "mk = take j ks @ mk1" "mv = take j vs @ mv1" by simp_all
    have "length mk1 = length mv1 \<and> zip mk1 mv1 = filter (\<lambda>p. ranks (fst p) \<notin> ranks ` set qs) (zip (drop (j + 1) ks) (drop (j + 1) vs))"
      using Cons.prems search_found(3) [OF Cons.prems(2,3), of k j qs] bs True by (intro Cons.IH [OF _ _ _ d]) simp_all
    with m search_found(2) [OF Cons.prems(2,3), of k j qs] bs True Cons.prems(1,3) show ?thesis by simp
  next
    case False
    have "ranks (fst p) \<noteq> ranks k" if "p \<in> set (zip ks vs)" for p
      using BinarySearchFunc_spec(3) [OF Cons.prems(2) bs False] zip_fst_mem [OF that] by blast
    then have "filter (\<lambda>p. ranks (fst p) \<notin> ranks ` set (k # qs)) (zip ks vs) =
      filter (\<lambda>p. ranks (fst p) \<notin> ranks ` set qs) (zip ks vs)" by (auto intro!: filter_cong)
    with Cons.IH [of ks vs mk mv] Cons.prems False bs show ?thesis by simp
  qed
qed


section \<open>Set\<close>

definition rank_map :: "pair list \<Rightarrow> int list \<rightharpoonup> bytes" where
  "rank_map ps = map_of (map (\<lambda>p. (ranks (fst p), snd p)) ps)"

lemma rank_map_simps [simp]: "rank_map [] = Map.empty" "rank_map (p # ps) = (rank_map ps)(ranks (fst p) \<mapsto> snd p)"
  by (simp_all add: rank_map_def)

lemma rank_map_dom: "dom (rank_map ps) = (ranks \<circ> fst) ` set ps"
  by (simp add: rank_map_def dom_map_of_conv_image_fst image_image comp_def)

text \<open>What a merge gives, read as a map; \<open>mk\<close> is sorted and holds the keys of both.\<close>

definition merged :: "vec list \<Rightarrow> bytes list \<Rightarrow> pair list \<Rightarrow> vec list \<times> bytes list \<Rightarrow> bool" where
  "merged ks evs ps m \<longleftrightarrow> length (fst m) = length (snd m)
     \<and> ranks ` set (fst m) = ranks ` set ks \<union> (ranks \<circ> fst) ` set ps \<and> set (fst m) \<subseteq> set ks \<union> fst ` set ps
     \<and> sorted_wrt (<) (map ranks (fst m)) \<and> rank_map (zip (fst m) (snd m)) = rank_map (zip ks evs) ++ rank_map ps"

lemma merged_new:
  assumes "merged ks evs ps m" and "\<forall>x \<in> set ks. ranks k < ranks x" and "\<forall>p \<in> set ps. ranks k < ranks (fst p)"
  shows "merged ks evs ((k, v) # ps) (k # fst m, v # snd m)"
proof -
  from assms have "\<forall>r \<in> ranks ` set (fst m). ranks k < r" by (auto simp: merged_def)
  with assms(1) show ?thesis by (auto simp: merged_def)
qed

lemma merged_old:
  assumes "merged ks evs ps m" and "\<forall>x \<in> set ks. ranks k < ranks x" and "\<forall>p \<in> set ps. ranks k < ranks (fst p)"
  shows "merged (k # ks) (v # evs) ps (k # fst m, v # snd m)"
proof -
  from assms have "\<forall>r \<in> ranks ` set (fst m). ranks k < r" by (auto simp: merged_def)
  moreover have "ranks k \<notin> dom (rank_map ps)" using assms(3) by (auto simp: rank_map_dom)
  ultimately show ?thesis using assms by (auto simp: merged_def map_add_upd_left)
qed

lemma merged_both:
  assumes "merged ks evs ps m" and "\<forall>x \<in> set ks. ranks k < ranks x" and "\<forall>p \<in> set ps. ranks k < ranks (fst p)"
    and "ranks k' = ranks k"
  shows "merged (k # ks) (v # evs) ((k', v') # ps) (k' # fst m, v' # snd m)"
proof -
  from assms have "\<forall>r \<in> ranks ` set (fst m). ranks k < r" by (auto simp: merged_def)
  moreover have "ranks k \<notin> dom (rank_map ps)" using assms(3) by (auto simp: rank_map_dom)
  ultimately show ?thesis using assms by (auto simp: merged_def map_add_upd_left)
qed

lemma mergeSortedPairs_merged:
  assumes "length ks = length evs" and "sorted_wrt (<) (map ranks ks)" and "sorted_wrt (<) (map (ranks \<circ> fst) ps)"
  shows "merged ks evs ps (mergeSortedPairs ks evs ps)"
  using assms
proof (induction ks evs ps rule: mergeSortedPairs.induct)
  case (1 evs)
  then show ?case by (simp add: merged_def)
next
  case (2 evs p ps)
  with merged_new [of "[]" evs ps "mergeSortedPairs [] evs ps" "fst p" "snd p"] show ?case
    by (auto simp: case_prod_beta)
next
  case (3 k ks evs)
  then obtain e es where "evs = e # es" by (cases evs) auto
  with 3 merged_old [of ks es "[]" "mergeSortedPairs ks es []" k e] show ?case by (auto simp: case_prod_beta)
next
  case (4 k ks evs p ps)
  obtain e es where evs: "evs = e # es" using "4.prems"(1) by (cases evs) auto
  have lt: "\<forall>x \<in> set ks. ranks k < ranks x" "\<forall>x \<in> set ps. ranks (fst p) < ranks (fst x)"
    using "4.prems"(2,3) by auto
  consider (less) "ranks (fst p) < ranks k" | (greater) "ranks k < ranks (fst p)" | (eq) "ranks (fst p) = ranks k"
    by fastforce
  then show ?case
  proof cases
    case less
    then have "\<forall>x \<in> set (k # ks). ranks (fst p) < ranks x" using lt(1) by auto
    with less 4 lt(2) merged_new [of "k # ks" evs ps "mergeSortedPairs (k # ks) evs ps" "fst p" "snd p"] show ?thesis
      by (simp add: slices_compare_ranks case_prod_beta)
  next
    case greater
    then have "\<forall>x \<in> set (p # ps). ranks k < ranks (fst x)" using lt(2) by auto
    moreover have "slices_compare (fst p) k = 1" using greater by (auto simp: slices_compare_ranks)
    ultimately show ?thesis using 4 lt(1) evs merged_old [of ks es "p # ps" "mergeSortedPairs ks es (p # ps)" k e]
      by (simp add: case_prod_beta)
  next
    case eq
    moreover from this lt(2) have "\<forall>x \<in> set ps. ranks k < ranks (fst x)" by simp
    ultimately show ?thesis using 4 lt(1) evs merged_both [of ks es ps "mergeSortedPairs ks es ps" k "fst p" e "snd p"]
      by (simp add: slices_compare_ranks case_prod_beta)
  qed
qed


section \<open>C38: the store is a map\<close>

definition store_ok :: "store \<Rightarrow> bool" where
  "store_ok s \<longleftrightarrow> length (keys s) = length (vals s) \<and> sorted_wrt (<) (map ranks (keys s))
     \<and> (\<forall>k \<in> set (keys s). int (length k) = keyLen s) \<and> (keysAreNormalized s \<longrightarrow> list_all isNormalized (keys s))"

definition store_map :: "store \<Rightarrow> int list \<rightharpoonup> bytes" where
  "store_map s = rank_map (zip (keys s) (vals s))"

lemma store_ok_length: "store_ok s \<Longrightarrow> length (keys s) = length (vals s)"
  by (simp add: store_ok_def)

lemma NewStore_ok: "store_ok NewStore" "store_map NewStore = Map.empty"
  by (simp_all add: NewStore_def store_ok_def store_map_def)

lemma check_keys_spec:
  "check_keys i n ks nrm = (err, nrm') \<Longrightarrow>
     (err = None \<longleftrightarrow> (\<forall>k \<in> set ks. int (length k) = n)) \<and> (nrm' \<longrightarrow> nrm)
     \<and> (err = None \<and> nrm' \<longrightarrow> list_all isNormalized ks)"
  by (induction ks arbitrary: i nrm) (auto split: if_splits)

lemma check_lengths_spec: "check_lengths i n ks = None \<longleftrightarrow> (\<forall>k \<in> set ks. int (length k) = n)"
  by (induction ks arbitrary: i) auto

lemma rank_map_go_sort:
  assumes "distinct (map (ranks \<circ> fst) ps)"
  shows "rank_map (go_sort pair_less ps) = rank_map ps"
proof -
  have "map_of (map (\<lambda>p. (ranks (fst p), snd p)) (go_sort pair_less ps)) = map_of (map (\<lambda>p. (ranks (fst p), snd p)) ps)"
  proof (rule map_of_inject_set [THEN iffD2])
    show "distinct (map fst (map (\<lambda>p. (ranks (fst p), snd p)) ps))" using assms by (simp add: comp_def)
    show "distinct (map fst (map (\<lambda>p. (ranks (fst p), snd p)) (go_sort pair_less ps)))"
      using sorted_pairs [OF assms] by (simp add: strict_sorted_iff comp_def)
  qed simp
  then show ?thesis by (simp add: rank_map_def)
qed

text \<open>The dimension a \<open>Set\<close> call requires.\<close>

definition set_dim :: "vec list \<Rightarrow> store \<Rightarrow> int" where
  "set_dim ks s = (if keyLen s = -1 then int (length (hd ks)) else keyLen s)"

lemma StoresSet_cases:
  assumes "StoresSet ks vs s = (err, s')"
  obtains (refused) "err \<noteq> None" "s' = s" "ks = [] \<or> length ks \<noteq> length vs \<or> int (length (hd ks)) \<noteq> set_dim ks s"
  | (checked) nrm e where "ks \<noteq> []" "length ks = length vs" "check_keys 0 (set_dim ks s) ks (keysAreNormalized s) = (e, nrm)"
    "err = e" "e \<noteq> None \<Longrightarrow> s' = s\<lparr>keyLen := set_dim ks s, keysAreNormalized := nrm\<rparr>"
    "e = None \<Longrightarrow> s' = s\<lparr>keyLen := set_dim ks s, keysAreNormalized := nrm,
        keys := fst (mergeSortedPairs (keys s) (vals s) (go_sort pair_less (zip ks vs))),
        vals := snd (mergeSortedPairs (keys s) (vals s) (go_sort pair_less (zip ks vs)))\<rparr>"
proof (cases "ks = [] \<or> length ks \<noteq> length vs \<or> keyLen s \<noteq> -1 \<and> int (length (hd ks)) \<noteq> keyLen s")
  case True
  with assms show thesis by (intro refused) (auto simp: StoresSet_def set_dim_def split: if_splits)
next
  case False
  obtain e nrm where c: "check_keys 0 (set_dim ks s) ks (keysAreNormalized s) = (e, nrm)" by fastforce
  have dim: "(if keyLen s = -1 then s\<lparr>keyLen := int (length (hd ks))\<rparr> else s) = s\<lparr>keyLen := set_dim ks s\<rparr>"
    by (simp add: set_dim_def)
  have "StoresSet ks vs s = (case e of
       Some x \<Rightarrow> (Some x, s\<lparr>keyLen := set_dim ks s, keysAreNormalized := nrm\<rparr>)
     | None \<Rightarrow> (None, s\<lparr>keyLen := set_dim ks s, keysAreNormalized := nrm,
        keys := fst (mergeSortedPairs (keys s) (vals s) (go_sort pair_less (zip ks vs))),
        vals := snd (mergeSortedPairs (keys s) (vals s) (go_sort pair_less (zip ks vs)))\<rparr>))"
    using False c unfolding StoresSet_def dim by (cases e) (auto simp: Let_def case_prod_beta)
  with assms False show thesis by (intro checked [OF _ _ c]) (auto split: option.splits)
qed

lemma StoresSet_spec:
  assumes "store_ok s" and "distinct (map ranks ks)" and "StoresSet ks vs s = (err, s')"
  shows "store_ok s'" and "err = None \<Longrightarrow> store_map s' = store_map s ++ rank_map (zip ks vs)"
    and "err \<noteq> None \<Longrightarrow> keys s' = keys s \<and> vals s' = vals s"
    and "err = None \<longleftrightarrow> ks \<noteq> [] \<and> length ks = length vs \<and> (\<forall>k \<in> set ks. int (length k) = set_dim ks s)"
proof -
  have "store_ok s' \<and> (err = None \<longrightarrow> store_map s' = store_map s ++ rank_map (zip ks vs))
    \<and> (err \<noteq> None \<longrightarrow> keys s' = keys s \<and> vals s' = vals s)
    \<and> (err = None \<longleftrightarrow> ks \<noteq> [] \<and> length ks = length vs \<and> (\<forall>k \<in> set ks. int (length k) = set_dim ks s))"
    using assms(3)
  proof (cases rule: StoresSet_cases)
    case refused
    with assms(1) show ?thesis by (auto dest: hd_in_set)
  next
    case (checked nrm e)
    note c = check_keys_spec [OF checked(3)]
    have dim: "\<forall>k \<in> set (keys s). int (length k) = set_dim ks s"
      using assms(1) by (auto simp: store_ok_def set_dim_def)
    show ?thesis
    proof (cases e)
      case (Some x)
      with c checked assms(1) dim show ?thesis by (auto simp: store_ok_def)
    next
      case None
      let ?ps = "go_sort pair_less (zip ks vs)"
      let ?m = "mergeSortedPairs (keys s) (vals s) ?ps"
      have d: "distinct (map (ranks \<circ> fst) (zip ks vs))" using assms(2) checked(2) by (simp add: map_fst_zip flip: map_map)
      have m: "merged (keys s) (vals s) ?ps ?m"
        using assms(1) sorted_pairs [OF d] by (intro mergeSortedPairs_merged) (simp_all add: store_ok_def)
      have "fst ` set ?ps = set ks" using checked(2) by (simp add: map_fst_zip flip: set_map)
      with m have sub: "set (fst ?m) \<subseteq> set (keys s) \<union> set ks" by (simp add: merged_def)
      have "store_ok s'"
        using m sub dim c None checked(4,6) assms(1) by (auto simp: store_ok_def merged_def list_all_iff)
      moreover have "store_map s' = store_map s ++ rank_map (zip ks vs)"
        using m None checked(4,6) by (simp add: store_map_def merged_def rank_map_go_sort [OF d])
      ultimately show ?thesis using c None checked by auto
    qed
  qed
  then show "store_ok s'" and "err = None \<Longrightarrow> store_map s' = store_map s ++ rank_map (zip ks vs)"
    and "err \<noteq> None \<Longrightarrow> keys s' = keys s \<and> vals s' = vals s"
    and "err = None \<longleftrightarrow> ks \<noteq> [] \<and> length ks = length vs \<and> (\<forall>k \<in> set ks. int (length k) = set_dim ks s)" by blast+
qed


lemma rank_map_filter: "rank_map (filter (\<lambda>p. ranks (fst p) \<in> A) ps) = rank_map ps |` A"
  by (induction ps) (auto simp: fun_eq_iff restrict_map_def)

lemma sorted_wrt_map_filter: "sorted_wrt R (map f xs) \<Longrightarrow> sorted_wrt R (map f (filter Q xs))"
  by (simp add: sorted_wrt_map sorted_wrt_filter)

lemma map_fst_filter_zip:
  "length xs = length ys \<Longrightarrow> map fst (filter (\<lambda>p. Q (fst p)) (zip xs ys)) = filter Q xs"
  by (induction xs ys rule: list_induct2) auto

lemma StoresDelete_spec:
  assumes "store_ok s" and "StoresDelete ks s = (err, s')"
  shows "store_ok s'" and "err = None \<Longrightarrow> store_map s' = store_map s |` (- ranks ` set ks)"
    and "err \<noteq> None \<Longrightarrow> s' = s"
proof -
  obtain mk mv where d: "delete_loop (go_sort key_less ks) (keys s) (vals s) = (mk, mv)" by fastforce
  have z: "length mk = length mv" "zip mk mv = filter (\<lambda>p. ranks (fst p) \<notin> ranks ` set ks) (zip (keys s) (vals s))"
    using delete_loop_filter [OF sorted_keys _ _ d] assms(1) by (auto simp: store_ok_def)
  have mk: "mk = filter (\<lambda>k. ranks k \<notin> ranks ` set ks) (keys s)"
    using arg_cong [OF z(2), of "map fst"] z(1) map_fst_filter_zip [OF store_ok_length [OF assms(1)], of "\<lambda>k. ranks k \<notin> ranks ` set ks"]
    by simp
  have run: "StoresDelete ks s = (if ks = [] then (Some NoKeys, s)
      else case if keyLen s \<noteq> -1 then check_lengths 0 (keyLen s) ks else None of Some e \<Rightarrow> (Some e, s)
        | None \<Rightarrow> (None, if mk = [] then s\<lparr>keys := mk, vals := mv, keyLen := -1, keysAreNormalized := True\<rparr>
                        else s\<lparr>keys := mk, vals := mv\<rparr>))"
    by (simp add: StoresDelete_def d Let_def split: option.split)
  have ok: "store_ok (s\<lparr>keys := mk, vals := mv\<rparr>)"
    using assms(1) z(1) sorted_wrt_map_filter by (auto simp: store_ok_def mk list_all_iff)
  then have "store_ok (if mk = [] then s\<lparr>keys := mk, vals := mv, keyLen := -1, keysAreNormalized := True\<rparr>
                        else s\<lparr>keys := mk, vals := mv\<rparr>)" using z(1) by (auto simp: store_ok_def)
  with assms run show "store_ok s'" by (auto split: if_splits option.splits)
  have "rank_map (zip mk mv) = store_map s |` (- ranks ` set ks)"
    using rank_map_filter [of "- ranks ` set ks" "zip (keys s) (vals s)"] by (simp add: z(2) store_map_def)
  with assms(2) run show "err = None \<Longrightarrow> store_map s' = store_map s |` (- ranks ` set ks)"
    by (auto simp: store_map_def split: if_splits option.splits)
  show "err \<noteq> None \<Longrightarrow> s' = s" using assms(2) run by (auto split: if_splits option.splits)
qed

lemma StoresGet_spec:
  assumes "store_ok s" and "StoresGet ks s = Inr ps"
  shows "rank_map ps = store_map s |` (ranks ` set ks)" and "sorted_wrt (<) (map (ranks \<circ> fst) ps)"
proof -
  have ps: "ps = filter (\<lambda>p. ranks (fst p) \<in> ranks ` set ks) (zip (keys s) (vals s))"
    using assms get_loop_filter [OF sorted_keys, of "keys s" "vals s" ks]
    by (auto simp: StoresGet_def store_ok_def split: if_splits option.splits)
  then show "rank_map ps = store_map s |` (ranks ` set ks)" by (simp add: rank_map_filter store_map_def)
  have "map fst ps = filter (\<lambda>k. ranks k \<in> ranks ` set ks) (keys s)"
    using map_fst_filter_zip [OF store_ok_length [OF assms(1)], of "\<lambda>k. ranks k \<in> ranks ` set ks"] by (simp add: ps)
  moreover have "sorted_wrt (<) (map ranks (filter (\<lambda>k. ranks k \<in> ranks ` set ks) (keys s)))"
    using assms(1) by (intro sorted_wrt_map_filter) (simp add: store_ok_def)
  ultimately show "sorted_wrt (<) (map (ranks \<circ> fst) ps)" by (metis map_map)
qed

text \<open>Runs of \<open>Set\<close> and \<open>Delete\<close> calls, with the calls that succeeded, and what these do to a map.\<close>

datatype store_op = OpSet "vec list" "bytes list" | OpDelete "vec list"

fun store_exec :: "store_op \<Rightarrow> store \<Rightarrow> store_error option \<times> store" where
  "store_exec (OpSet ks vs) s = StoresSet ks vs s"
| "store_exec (OpDelete ks) s = StoresDelete ks s"

fun store_run :: "store_op list \<Rightarrow> store \<Rightarrow> store_op list \<times> store" where
  "store_run [] s = ([], s)"
| "store_run (op # ops) s =
     (let (err, s1) = store_exec op s; (ok_ops, s2) = store_run ops s1
      in (if err = None then op # ok_ops else ok_ops, s2))"

fun map_exec :: "store_op \<Rightarrow> (int list \<rightharpoonup> bytes) \<Rightarrow> int list \<rightharpoonup> bytes" where
  "map_exec (OpSet ks vs) m = m ++ rank_map (zip ks vs)"
| "map_exec (OpDelete ks) m = m |` (- ranks ` set ks)"

fun op_distinct :: "store_op \<Rightarrow> bool" where
  "op_distinct (OpSet ks vs) = distinct (map ranks ks)"
| "op_distinct (OpDelete ks) = True"

lemma store_exec_map:
  assumes "store_ok s" and "op_distinct op" and "store_exec op s = (err, s')"
  shows "store_ok s' \<and> store_map s' = (if err = None then map_exec op (store_map s) else store_map s)"
proof (cases op)
  case (OpSet ks vs)
  with assms StoresSet_spec [of s ks vs err s'] show ?thesis by (auto simp: store_map_def)
next
  case (OpDelete ks)
  with assms StoresDelete_spec [of s ks err s'] show ?thesis by auto
qed

lemma store_run_map:
  assumes "store_ok s" and "list_all op_distinct ops" and "store_run ops s = (ok_ops, s')"
  shows "store_ok s' \<and> store_map s' = fold map_exec ok_ops (store_map s)"
  using assms
proof (induction ops arbitrary: s "ok_ops")
  case (Cons op ops)
  obtain err s1 where e: "store_exec op s = (err, s1)" by fastforce
  obtain done1 s2 where r: "store_run ops s1 = (done1, s2)" by fastforce
  from store_exec_map [OF Cons.prems(1) _ e] Cons.IH [of s1 done1] Cons.prems e r show ?case
    by (auto split: if_splits)
qed simp


definition sample_ops :: "store_op list" where
  "sample_ops = [OpSet [[0x3F800000, 0], [0, 0x3F800000]] [[1], [2]], OpSet [[1]] [[7]], OpSet [[0, 0x3F800000]] [[3]],
     OpDelete [[0x3F800000, 0]]]"



section \<open>C39: the search returns the most similar entries\<close>

text \<open>On items without NaN the comparison of the queue is the one of the ranks.\<close>

abbreviation item_rank :: "item \<Rightarrow> int" where
  "item_rank x \<equiv> f32_rank (similarity x)"

interpretation queue: ranked_heap item_less item_rank "{x. \<not> f32_nan (similarity x)}"
  by unfold_locales (simp add: item_less_def f32_less_rank)

abbreviation numbers :: "item list \<Rightarrow> bool" where
  "numbers xs \<equiv> \<forall>x \<in> set xs. \<not> f32_nan (similarity x)"

definition entry_item :: "(vec \<Rightarrow> f32) \<Rightarrow> pair \<Rightarrow> item" where
  "entry_item sim p = \<lparr>similarity = sim (fst p), ikey = fst p, ivalue = snd p\<rparr>"

text \<open>The queue after the entries \<open>xs\<close>: a heap of the \<open>topK\<close> best of them.\<close>

definition best_so_far :: "nat \<Rightarrow> item list \<Rightarrow> item list \<Rightarrow> bool" where
  "best_so_far topK xs pq \<longleftrightarrow> heap_wrt item_rank (length pq) pq \<and> length pq = min topK (length xs)
     \<and> (\<exists>rest. mset xs = mset pq + mset rest \<and> (\<forall>x \<in> set pq. \<forall>y \<in> set rest. item_rank y \<le> item_rank x))"

lemma best_so_far_numbers: "best_so_far topK xs pq \<Longrightarrow> numbers xs \<Longrightarrow> numbers pq"
  unfolding best_so_far_def by (metis UnCI mset_append mset_eq_setD set_append)

lemma find_step_best:
  assumes "best_so_far topK xs pq" and "numbers xs" and "\<not> f32_nan (sim (fst p))"
  shows "best_so_far topK (xs @ [entry_item sim p]) (find_step sim topK p pq)"
proof -
  let ?x = "entry_item sim p" and ?h = "heap_push item_less (entry_item sim p) pq"
  obtain rest where b: "heap_wrt item_rank (length pq) pq" "length pq = min topK (length xs)"
    "mset xs = mset pq + mset rest" "\<forall>x \<in> set pq. \<forall>y \<in> set rest. item_rank y \<le> item_rank x"
    using assms(1) by (auto simp: best_so_far_def)
  have num: "numbers pq" by (rule best_so_far_numbers [OF assms(1,2)])
  have x: "\<not> f32_nan (similarity ?x)" using assms(3) by (simp add: entry_item_def)
  have h: "heap_wrt item_rank (length ?h) ?h" using queue.heap_push_heap [OF b(1)] num x by auto
  have nh: "set ?h \<subseteq> {x. \<not> f32_nan (similarity x)}"
    using num x mset_eq_setD [of ?h "?x # pq"] by auto
  have step: "find_step sim topK p pq = (if topK < length ?h then snd (the (heap_pop item_less ?h)) else ?h)"
    by (simp add: find_step_def entry_item_def Let_def)
  show ?thesis
  proof (cases "topK < length ?h")
    case False
    then have "length xs < topK" "rest = []" using b(2) arg_cong [OF b(3), of size] by auto
    with b h False show ?thesis by (auto simp: best_so_far_def step intro!: exI [of _ "[]"])
  next
    case True
    have "?h \<noteq> []" by (metis length_heap_push list.size(3) nat.distinct(1))
    then obtain y h' where pop: "heap_pop item_less ?h = Some (y, h')" "mset ?h = add_mset y (mset h')"
      "heap_wrt item_rank (length h') h'" "\<forall>z \<in> set h'. item_rank y \<le> item_rank z"
      using queue.heap_pop_heap [OF h nh] by metis
    have "size (mset ?h) = size (add_mset y (mset h'))" using pop(2) by simp
    then have "length h' = length pq" by simp
    moreover have "topK \<le> length xs" using True b(2) by auto
    moreover have "mset (xs @ [?x]) = mset h' + mset (y # rest)" using pop(2) b(3) by (simp add: add.commute)
    moreover have "item_rank z \<le> item_rank w" if "w \<in> set h'" "z \<in> set (y # rest)" for w z
    proof (cases "z = y")
      case False
      then have z: "z \<in> set rest" using that(2) by simp
      show ?thesis
      proof (cases "y \<in> set pq")
        case True
        with z b(4) pop(4) that(1) show ?thesis by (meson order_trans)
      next
        case False
        with pop(2) have "y = ?x" by (metis insert_iff mset_heap_push set_mset_add_mset_insert set_mset_mset union_single_eq_member
          add_mset_add_single)
        with pop(2) have "mset pq = mset h'" by simp
        with that(1) have "w \<in> set pq" by (metis mset_eq_setD)
        with z b(4) show ?thesis by blast
      qed
    qed (use pop(4) that in simp)
    ultimately show ?thesis using True pop(1,3) b(2) unfolding best_so_far_def step
      by (intro conjI exI [of _ "y # rest"]) auto
  qed
qed


lemma fold_find_best:
  assumes "\<forall>p \<in> set ps. \<not> f32_nan (sim (fst p))"
  shows "best_so_far topK (map (entry_item sim) ps) (fold (find_step sim topK) ps [])"
  using assms
proof (induction ps rule: rev_induct)
  case Nil
  then show ?case by (simp add: best_so_far_def heap_wrt_def)
next
  case (snoc p ps)
  then have "numbers (map (entry_item sim) ps)" by (auto simp: entry_item_def)
  with snoc find_step_best [of topK "map (entry_item sim) ps" "fold (find_step sim topK) ps []" sim p] show ?case by simp
qed

lemma drain_sorted:
  assumes "heap_wrt item_rank (length pq) pq" and "numbers pq"
  shows "mset (drain (length pq) pq) = mset pq \<and> sorted_wrt (\<lambda>x y. item_rank y \<le> item_rank x) (drain (length pq) pq)"
  using assms
proof (induction "length pq" arbitrary: pq)
  case 0
  then show ?case by simp
next
  case (Suc n)
  then have "pq \<noteq> []" by auto
  with Suc.prems queue.heap_pop_heap [of pq] obtain x h where pop: "heap_pop item_less pq = Some (x, h)" "mset pq = add_mset x (mset h)"
    "heap_wrt item_rank (length h) h" "\<forall>y \<in> set h. item_rank x \<le> item_rank y" by blast
  have n: "length h = n" using arg_cong [OF pop(2), of size] Suc.hyps(2) by simp
  have "set h \<subseteq> set pq" using mset_eq_setD [of pq "x # h"] pop(2) by auto
  with Suc.hyps(1) [of h] n pop(3) Suc.prems(2)
  have IH: "mset (drain n h) = mset h" "sorted_wrt (\<lambda>x y. item_rank y \<le> item_rank x) (drain n h)" by auto
  have "set (drain n h) = set h" using IH(1) by (rule mset_eq_setD)
  with pop(1,2,4) IH show ?case unfolding Suc.hyps(2) [symmetric] by (simp add: sorted_wrt_append)
qed

lemma find_top_best:
  assumes "\<forall>p \<in> set (zip (keys s) (vals s)). \<not> f32_nan (sim (fst p))"
  shows "\<exists>rest. mset (map (entry_item sim) (zip (keys s) (vals s))) = mset (find_top sim topK s) + mset rest
      \<and> (\<forall>x \<in> set (find_top sim topK s). \<forall>y \<in> set rest. item_rank y \<le> item_rank x)
      \<and> sorted_wrt (\<lambda>x y. item_rank y \<le> item_rank x) (find_top sim topK s)
      \<and> length (find_top sim topK s) = min topK (length (zip (keys s) (vals s)))"
proof -
  let ?ps = "zip (keys s) (vals s)" and ?pq = "fold (find_step sim topK) (zip (keys s) (vals s)) []"
  have num: "numbers (map (entry_item sim) ?ps)" using assms by (auto simp: entry_item_def)
  note best = fold_find_best [OF assms, of topK]
  then obtain rest where b: "mset (map (entry_item sim) ?ps) = mset ?pq + mset rest" "length ?pq = min topK (length ?ps)"
    "\<forall>x \<in> set ?pq. \<forall>y \<in> set rest. item_rank y \<le> item_rank x" "heap_wrt item_rank (length ?pq) ?pq"
    by (auto simp: best_so_far_def)
  note d = drain_sorted [OF b(4) best_so_far_numbers [OF best num]]
  have "set (find_top sim topK s) = set ?pq" "length (find_top sim topK s) = length ?pq"
    using d mset_eq_setD mset_eq_length unfolding find_top_def drainPQ_def by blast+
  with b d show ?thesis unfolding find_top_def drainPQ_def by auto
qed

text \<open>C30: the search. When no similarity is NaN, \<open>StoresFind\<close> on a store of the right dimension returns as
  many entries as asked for, or all when there are fewer, most similar first, each with its similarity, and no
  entry that is left out is more similar than one that is returned.\<close>

theorem StoresFind_top:
  assumes "store_ok s" and "1 \<le> topK" and "keys s \<noteq> []" and "int (length query) = keyLen s"
    and "sim = (if keysAreNormalized s \<and> isNormalized query then normalized_similarity fused query else fallback_similarity query)"
    and "\<forall>k \<in> set (keys s). \<not> f32_nan (sim k)"
  shows "\<exists>r rest. StoresFind fused query topK s = Inr r
      \<and> int (length r) = min topK (int (length (keys s)))
      \<and> sorted_wrt (\<lambda>x y. f32_rank (similarity y) \<le> f32_rank (similarity x)) r
      \<and> mset (zip (keys s) (vals s)) = mset (map (\<lambda>x. (ikey x, ivalue x)) r) + mset rest
      \<and> (\<forall>x \<in> set r. similarity x = sim (ikey x))
      \<and> (\<forall>x \<in> set r. \<forall>p \<in> set rest. f32_rank (sim (fst p)) \<le> f32_rank (similarity x))"
proof -
  let ?ps = "zip (keys s) (vals s)" and ?r = "find_top sim (nat topK) s"
  have "\<forall>p \<in> set ?ps. \<not> f32_nan (sim (fst p))" using assms(6) zip_fst_mem by blast
  from find_top_best [OF this, of "nat topK"] obtain rest where
    m: "mset (map (entry_item sim) ?ps) = mset ?r + mset rest" and le: "\<forall>x \<in> set ?r. \<forall>y \<in> set rest. item_rank y \<le> item_rank x"
    and srt: "sorted_wrt (\<lambda>x y. item_rank y \<le> item_rank x) ?r" and len: "length ?r = min (nat topK) (length ?ps)" by blast
  have sub: "set (?r @ rest) = entry_item sim ` set ?ps" using arg_cong [OF m, of set_mset] by simp
  then have sim: "\<forall>x \<in> set (?r @ rest). similarity x = sim (ikey x)" by (auto simp: entry_item_def)
  let ?f = "\<lambda>x. (ikey x, ivalue x)"
  have "mset ?ps = image_mset (?f \<circ> entry_item sim) (mset ?ps)" by (simp add: entry_item_def comp_def)
  also have "\<dots> = image_mset ?f (mset (map (entry_item sim) ?ps))" by (simp add: image_mset.compositionality)
  also have "\<dots> = mset (map ?f ?r) + mset (map ?f rest)" unfolding m by simp
  finally have "mset ?ps = mset (map ?f ?r) + mset (map ?f rest)" .
  moreover have "StoresFind fused query topK s = Inr ?r" using assms(2-5) by (auto simp: StoresFind_def findNormalized_def findFallback_def)
  moreover have "int (length ?r) = min topK (int (length (keys s)))"
    using len assms(2) store_ok_length [OF assms(1)] by simp
  moreover have "\<forall>x \<in> set ?r. \<forall>p \<in> set (map ?f rest). f32_rank (sim (fst p)) \<le> f32_rank (similarity x)" using le sim by auto
  ultimately show ?thesis using srt sim by (intro exI [of _ ?r] exI [of _ "map ?f rest"]) simp
qed


definition sample_store :: store where
  "sample_store = snd (StoresSet [[0x3F800000], [0x3F19999A], [0x3F4CCCCD], [0xBF800000]] [[1], [2], [3], [4]] NewStore)"

lemma sample_store_ok: "store_ok sample_store"
proof -
  have "distinct (map ranks [[0x3F800000], [0x3F19999A], [0x3F4CCCCD], [0xBF800000]])" by code_simp
  from StoresSet_spec(1) [OF NewStore_ok(1) this] show ?thesis unfolding sample_store_def by (metis prod.collapse)
qed

theorem StoresFind_top_witness:
  "\<exists>r. StoresFind False [0x3F800000] 2 sample_store = Inr r \<and> length r = 2
     \<and> sorted_wrt (\<lambda>x y. f32_rank (similarity y) \<le> f32_rank (similarity x)) r"
proof -
  let ?sim = "fallback_similarity [0x3F800000]"
  have "keys sample_store \<noteq> []" "int (length [0x3F800000 :: f32]) = keyLen sample_store" "length (keys sample_store) = 4"
    "list_all (\<lambda>k. \<not> f32_nan (?sim k)) (keys sample_store)" "\<not> keysAreNormalized sample_store" by code_simp+
  with StoresFind_top [OF sample_store_ok, of 2 "[0x3F800000]" ?sim False] show ?thesis by (auto simp: list_all_iff)
qed

section \<open>C40: where Set does not keep its word\<close>

text \<open>C31: \<open>StoresSet\<close> is documented as an upsert, and a store without keys as one of open dimension. Neither
  holds. A batch that repeats a key stores it twice: after deleting the key it is still found, with the value of the
  second occurrence. And a batch refused for a key of another length leaves the store empty and the
  dimension fixed, so that keys of any other length are refused from then on.\<close>

theorem StoresSet_breaks_contract:
  "StoresGet [k] (snd (StoresDelete [k] (snd (StoresSet [k, k] [v, w] NewStore)))) = Inr [(k, w)]
   \<and> (length k1 \<noteq> length k2 \<longrightarrow>
        (let (e, s) = StoresSet [k1, k2] [v, w] NewStore
         in e \<noteq> None \<and> keys s = [] \<and> fst (StoresSet [k2] [w] s) \<noteq> None))"
proof -
  have cmp: "slices_compare k k = 0" by (simp add: slices_compare_ranks)
  have bs: "BinarySearchFunc [k, k] k = (0, True)" "BinarySearchFunc [k] k = (0, True)"
    by (simp_all add: BinarySearchFunc_def bsearch_loop.simps cmp Let_def)
  have "go_sort pair_less [(k, v), (k, w)] = [(k, v), (k, w)]" by (simp add: go_sort_def pair_less_def cmp)
  moreover have "go_sort key_less [k] = [k]" by (simp add: go_sort_def)
  ultimately have "StoresGet [k] (snd (StoresDelete [k] (snd (StoresSet [k, k] [v, w] NewStore)))) = Inr [(k, w)]"
    by (simp add: StoresSet_def StoresDelete_def StoresGet_def NewStore_def Let_def bs case_prod_beta)
  moreover have "let (e, s) = StoresSet [k1, k2] [v, w] NewStore
         in e \<noteq> None \<and> keys s = [] \<and> fst (StoresSet [k2] [w] s) \<noteq> None" if "length k1 \<noteq> length k2"
    using that by (simp add: StoresSet_def NewStore_def Let_def)
  ultimately show ?thesis by blast
qed

theorem StoresSet_breaks_contract_witness:
  "(let (e, s) = StoresSet [[1, 2], [1]] [[1], [2]] NewStore in keys s = [] \<and> fst (StoresSet [[1]] [[2]] s) \<noteq> None)"
  using StoresSet_breaks_contract [of "[1]" "[1]" "[2]" "[1, 2]" "[1]"] by auto

end
