(* ===== verification/PiiText.thy ===== *)
theory PiiText
  imports Prelude
begin

text \<open>
  The text side of the PII filter, \<open>core/services/routing/pii\<close>: runes, words and protected
  terms. A Go string is a list of bytes, so offsets count bytes and a \<open>char\<close> is a byte.
  \<^verbatim>\<open>unicode/utf8\<close> decodes as the library does, invalid input included. The character classes of
  \<^verbatim>\<open>unicode\<close> are tables and are an argument; so are the matches of the compiled regular expression.
\<close>

section \<open>Runes\<close>

definition byte :: "char \<Rightarrow> nat" where
  "byte c = of_char c"

definition RuneError :: nat where
  "RuneError = 0xFFFD"

text \<open>The length that a first byte announces, and the range of the second byte.\<close>

definition utf8_lead :: "nat \<Rightarrow> (nat \<times> nat \<times> nat) option" where
  "utf8_lead b =
     (if 0xC2 \<le> b \<and> b \<le> 0xDF then Some (2, 0x80, 0xBF)
      else if b = 0xE0 then Some (3, 0xA0, 0xBF)
      else if b = 0xED then Some (3, 0x80, 0x9F)
      else if 0xE1 \<le> b \<and> b \<le> 0xEF then Some (3, 0x80, 0xBF)
      else if b = 0xF0 then Some (4, 0x90, 0xBF)
      else if b = 0xF4 then Some (4, 0x80, 0x8F)
      else if 0xF1 \<le> b \<and> b \<le> 0xF3 then Some (4, 0x80, 0xBF)
      else None)"

definition is_cont :: "nat \<Rightarrow> bool" where
  "is_cont b \<longleftrightarrow> 0x80 \<le> b \<and> b \<le> 0xBF"

definition DecodeRune :: "string \<Rightarrow> nat \<times> nat" where
  "DecodeRune s =
     (if s = [] then (RuneError, 0)
      else let b0 = byte (s ! 0)
           in if b0 < 0x80 then (b0, 1)
              else case utf8_lead b0 of
                None \<Rightarrow> (RuneError, 1)
              | Some (sz, lo, hi) \<Rightarrow>
                  if length s < sz \<or> \<not> (lo \<le> byte (s ! 1) \<and> byte (s ! 1) \<le> hi) then (RuneError, 1)
                  else if sz = 2 then ((b0 mod 0x20) * 0x40 + byte (s ! 1) mod 0x40, 2)
                  else if \<not> is_cont (byte (s ! 2)) then (RuneError, 1)
                  else if sz = 3
                  then ((b0 mod 0x10) * 0x1000 + (byte (s ! 1) mod 0x40) * 0x40 + byte (s ! 2) mod 0x40, 3)
                  else if \<not> is_cont (byte (s ! 3)) then (RuneError, 1)
                  else ((b0 mod 8) * 0x40000 + (byte (s ! 1) mod 0x40) * 0x1000
                        + (byte (s ! 2) mod 0x40) * 0x40 + byte (s ! 3) mod 0x40, 4))"

text \<open>\<^verbatim>\<open>DecodeLastRune\<close> looks back at most four bytes for a byte that starts a rune.\<close>

definition rune_start :: "char \<Rightarrow> bool" where
  "rune_start c \<longleftrightarrow> byte c div 0x40 \<noteq> 2"

definition last_start :: "string \<Rightarrow> nat" where
  "last_start s =
     (let lim = length s - 4
      in case find (\<lambda>i. rune_start (s ! i)) (rev [lim..<length s - 1]) of Some i \<Rightarrow> i | None \<Rightarrow> lim - 1)"

definition DecodeLastRune :: "string \<Rightarrow> nat \<times> nat" where
  "DecodeLastRune s =
     (if s = [] then (RuneError, 0)
      else if byte (last s) < 0x80 then (byte (last s), 1)
      else let start = last_start s; (r, sz) = DecodeRune (drop start s)
           in if start + sz \<noteq> length s then (RuneError, 1) else (r, sz))"

lemma utf8_lead_size: "utf8_lead b = Some (sz, lo, hi) \<Longrightarrow> sz \<in> {2, 3, 4}"
  by (auto simp: utf8_lead_def split: if_splits)

lemma DecodeRune_size: "s \<noteq> [] \<Longrightarrow> 1 \<le> snd (DecodeRune s) \<and> snd (DecodeRune s) \<le> length s"
proof -
  assume s: "s \<noteq> []"
  show ?thesis
  proof (cases "utf8_lead (byte (s ! 0))")
    case None
    with s show ?thesis by (simp add: DecodeRune_def Let_def Suc_le_eq)
  next
    case (Some l)
    then obtain sz lo hi where "l = (sz, lo, hi)" by (cases l)
    with Some s show ?thesis
      using utf8_lead_size [of "byte (s ! 0)"] by (auto simp: DecodeRune_def Let_def Suc_le_eq)
  qed
qed

lemma DecodeLastRune_size: "s \<noteq> [] \<Longrightarrow> 1 \<le> snd (DecodeLastRune s) \<and> snd (DecodeLastRune s) \<le> length s"
proof -
  assume s: "s \<noteq> []"
  have "last_start s < length s"
  proof (cases "find (\<lambda>i. rune_start (s ! i)) (rev [length s - 4..<length s - 1])")
    case None
    with s show ?thesis by (cases s) (auto simp: last_start_def Let_def)
  next
    case (Some i)
    then have "i \<in> set (rev [length s - 4..<length s - 1])" by (metis find_Some_iff nth_mem)
    with Some show ?thesis by (auto simp: last_start_def Let_def)
  qed
  with s DecodeRune_size [of "drop (last_start s) s"] show ?thesis
    by (auto simp: DecodeLastRune_def Let_def Suc_le_eq length_greater_0_conv [symmetric]
        simp del: length_greater_0_conv split: prod.splits)
qed

section \<open>Words\<close>

record unicode =
  IsSpace :: "nat \<Rightarrow> bool"
  IsLetter :: "nat \<Rightarrow> bool"
  IsDigit :: "nat \<Rightarrow> bool"
  IsMark :: "nat \<Rightarrow> bool"

text \<open>\<^verbatim>\<open>tx[s:e]\<close> with offsets in range, and as a value that is \<open>None\<close> where Go panics.\<close>

definition sub :: "string \<Rightarrow> nat \<Rightarrow> nat \<Rightarrow> string" where
  "sub tx s e = take (e - s) (drop s tx)"

definition substr :: "string \<Rightarrow> nat \<Rightarrow> nat \<Rightarrow> string option" where
  "substr tx s e = (if s \<le> e \<and> e \<le> length tx then Some (sub tx s e) else None)"

lemma length_sub [simp]: "e \<le> length tx \<Longrightarrow> length (sub tx s e) = e - s"
  by (simp add: sub_def)

lemma sub_Nil: "sub tx s e = [] \<longleftrightarrow> length tx \<le> s \<or> e \<le> s"
  by (auto simp: sub_def)

text \<open>Byte ranges from \<open>c\<close> to \<open>n\<close>: not empty, in order, apart.\<close>

fun intervals :: "nat \<Rightarrow> nat \<Rightarrow> (nat \<times> nat) list \<Rightarrow> bool" where
  "intervals c n [] = True"
| "intervals c n ((s, e) # ivs) = (c \<le> s \<and> s < e \<and> e \<le> n \<and> intervals e n ivs)"

lemma intervals_mono: "intervals c n ivs \<Longrightarrow> c' \<le> c \<Longrightarrow> intervals c' n ivs"
  by (cases ivs) auto

lemma intervals_in: "intervals c n ivs \<Longrightarrow> (s, e) \<in> set ivs \<Longrightarrow> c \<le> s \<and> s < e \<and> e \<le> n"
  by (induction c n ivs rule: intervals.induct) auto

text \<open>\<open>advance P\<close> moves over runes that satisfy \<open>P\<close>, from \<open>i\<close> up to \<open>e\<close>; \<open>retreat P\<close> moves back from \<open>e\<close>
  down to \<open>s\<close>.\<close>

function advance :: "(nat \<Rightarrow> bool) \<Rightarrow> string \<Rightarrow> nat \<Rightarrow> nat \<Rightarrow> nat" where
  "advance P tx e i =
     (if i < e \<and> e \<le> length tx
      then let (r, sz) = DecodeRune (sub tx i e) in if P r then advance P tx e (i + sz) else i
      else i)"
  by pat_completeness auto

termination
proof (relation "measure (\<lambda>(P, tx, e, i). e - i)", goal_cases)
  case (2 P tx e i rs r sz)
  then have "DecodeRune (sub tx i e) = (r, sz)" by simp
  with 2 have "1 \<le> sz" using DecodeRune_size [of "sub tx i e"] by (auto simp: sub_Nil)
  with 2 show ?case by auto
qed simp

function retreat :: "(nat \<Rightarrow> bool) \<Rightarrow> string \<Rightarrow> nat \<Rightarrow> nat \<Rightarrow> nat" where
  "retreat P tx s e =
     (if s < e \<and> e \<le> length tx
      then let (r, sz) = DecodeLastRune (sub tx s e) in if P r then retreat P tx s (e - sz) else e
      else e)"
  by pat_completeness auto

termination
proof (relation "measure (\<lambda>(P, tx, s, e). e)", goal_cases)
  case (2 P tx s e rs r sz)
  then have "DecodeLastRune (sub tx s e) = (r, sz)" by simp
  with 2 have "1 \<le> sz" using DecodeLastRune_size [of "sub tx s e"] by (auto simp: sub_Nil)
  with 2 show ?case by auto
qed simp

declare advance.simps [simp del] retreat.simps [simp del]

lemma advance_range: "i \<le> e \<Longrightarrow> i \<le> advance P tx e i \<and> advance P tx e i \<le> e"
proof (induction P tx e i rule: advance.induct)
  case (1 P tx e i)
  obtain r sz where d: "DecodeRune (sub tx i e) = (r, sz)" by fastforce
  show ?case
  proof (cases "i < e \<and> e \<le> length tx")
    case True
    with d have "i + sz \<le> e" using DecodeRune_size [of "sub tx i e"] by (auto simp: sub_Nil)
    with True d 1(1) [OF True d [symmetric] refl] have "P r \<Longrightarrow> i \<le> advance P tx e (i + sz) \<and> advance P tx e (i + sz) \<le> e"
      by linarith
    with True d show ?thesis by (simp add: advance.simps [of P tx e i])
  qed (use 1(2) in \<open>auto simp: advance.simps [of P tx e i]\<close>)
qed

lemma retreat_range: "s \<le> e \<Longrightarrow> s \<le> retreat P tx s e \<and> retreat P tx s e \<le> e"
proof (induction P tx s e rule: retreat.induct)
  case (1 P tx s e)
  obtain r sz where d: "DecodeLastRune (sub tx s e) = (r, sz)" by fastforce
  show ?case
  proof (cases "s < e \<and> e \<le> length tx")
    case True
    with d have "s \<le> e - sz" using DecodeLastRune_size [of "sub tx s e"] by (auto simp: sub_Nil)
    with True d 1(1) [OF True d [symmetric] refl] have "P r \<Longrightarrow> s \<le> retreat P tx s (e - sz) \<and> retreat P tx s (e - sz) \<le> e"
      by linarith
    with True d show ?thesis by (simp add: retreat.simps [of P tx s e])
  qed (use 1(2) in \<open>auto simp: retreat.simps [of P tx s e]\<close>)
qed


definition trim_span :: "unicode \<Rightarrow> string \<Rightarrow> nat \<times> nat \<Rightarrow> nat \<times> nat" where
  "trim_span u tx sp =
     (let s = advance (IsSpace u) tx (snd sp) (fst sp); e = retreat (IsSpace u) tx s (snd sp) in (s, e))"

definition trimSpans :: "unicode \<Rightarrow> string \<Rightarrow> (nat \<times> nat) list \<Rightarrow> (nat \<times> nat) list" where
  "trimSpans u tx spans = filter (\<lambda>(s, e). s < e) (map (trim_span u tx) spans)"

definition hspace :: "unicode \<Rightarrow> nat \<Rightarrow> bool" where
  "hspace u r \<longleftrightarrow> \<not> (r = 10 \<or> r = 13 \<or> \<not> IsSpace u r)"

text \<open>The dots at the end of a word.\<close>

fun drop_dots :: "string \<Rightarrow> nat \<Rightarrow> nat \<Rightarrow> nat" where
  "drop_dots tx wordStart 0 = 0"
| "drop_dots tx wordStart (Suc i) =
     (if wordStart < Suc i \<and> tx ! i = CHR ''.'' then drop_dots tx wordStart i else Suc i)"

definition nextWordEnd :: "unicode \<Rightarrow> string \<Rightarrow> nat \<Rightarrow> nat" where
  "nextWordEnd u tx end0 =
     (let wordStart = advance (hspace u) tx (length tx) end0;
          i = advance (\<lambda>r. IsLetter u r \<or> IsDigit u r \<or> IsMark u r \<or> r = byte (CHR ''-'') \<or> r = byte (CHR ''.'') \<or> r = 39)
                tx (length tx) wordStart;
          j = drop_dots tx wordStart i
      in if j = wordStart then end0 else j)"

text \<open>The loop of \<open>prevWordStart\<close> that also counts the letters.\<close>

function word_back :: "unicode \<Rightarrow> string \<Rightarrow> nat \<Rightarrow> nat \<Rightarrow> nat \<times> nat" where
  "word_back u tx i letters =
     (if 0 < i \<and> i \<le> length tx
      then let (r, sz) = DecodeLastRune (sub tx 0 i)
           in if IsLetter u r then word_back u tx (i - sz) (letters + 1)
              else if \<not> (\<not> IsMark u r \<and> r \<noteq> byte (CHR ''-'') \<and> r \<noteq> 39) then word_back u tx (i - sz) letters
              else (i, letters)
      else (i, letters))"
  by pat_completeness auto

termination
proof (relation "measure (\<lambda>(u, tx, i, n). i)", goal_cases)
  case (2 u tx i n rs r sz)
  then have "DecodeLastRune (sub tx 0 i) = (r, sz)" by simp
  moreover have "sub tx 0 i \<noteq> []" using 2 by (auto simp: sub_Nil)
  ultimately have "1 \<le> sz" using DecodeLastRune_size [of "sub tx 0 i"] by simp
  with 2 show ?case by auto
next
  case (3 u tx i n rs r sz)
  then have "DecodeLastRune (sub tx 0 i) = (r, sz)" by simp
  moreover have "sub tx 0 i \<noteq> []" using 3 by (auto simp: sub_Nil)
  ultimately have "1 \<le> sz" using DecodeLastRune_size [of "sub tx 0 i"] by simp
  with 3 show ?case by auto
qed simp

declare word_back.simps [simp del]

text \<open>The joiners at the start of a word.\<close>

function drop_joiners :: "string \<Rightarrow> nat \<Rightarrow> nat \<Rightarrow> nat" where
  "drop_joiners tx wordEnd i =
     (if i < wordEnd \<and> (tx ! i = CHR ''-'' \<or> byte (tx ! i) = 39) then drop_joiners tx wordEnd (i + 1) else i)"
  by pat_completeness auto

termination by (relation "measure (\<lambda>(tx, e, i). e - i)") auto

declare drop_joiners.simps [simp del]

definition prevWordStart :: "unicode \<Rightarrow> string \<Rightarrow> nat \<Rightarrow> nat" where
  "prevWordStart u tx start =
     (let wordEnd = retreat (hspace u) tx 0 start; (i, letters) = word_back u tx wordEnd 0
      in if i > 0 \<and> IsDigit u (fst (DecodeLastRune (sub tx 0 i))) then start
         else let j = drop_joiners tx wordEnd i in if j = wordEnd \<or> letters = 0 then start else j)"

lemma drop_dots_range: "w \<le> i \<Longrightarrow> w \<le> drop_dots tx w i \<and> drop_dots tx w i \<le> i"
  by (induction i) (auto simp: le_Suc_eq)

lemma nextWordEnd_range: "e \<le> length tx \<Longrightarrow> e \<le> nextWordEnd u tx e \<and> nextWordEnd u tx e \<le> length tx"
proof -
  assume e: "e \<le> length tx"
  let ?w = "advance (hspace u) tx (length tx) e"
  let ?i = "advance (\<lambda>r. IsLetter u r \<or> IsDigit u r \<or> IsMark u r \<or> r = byte (CHR ''-'') \<or> r = byte (CHR ''.'') \<or> r = 39)
    tx (length tx) ?w"
  have "e \<le> ?w" "?w \<le> length tx" using advance_range [OF e] by auto
  moreover from this have "?w \<le> ?i" "?i \<le> length tx" using advance_range by auto
  moreover have "?w \<le> drop_dots tx ?w ?i" "drop_dots tx ?w ?i \<le> ?i" using drop_dots_range [OF \<open>?w \<le> ?i\<close>] by auto
  ultimately show ?thesis using e by (simp add: nextWordEnd_def Let_def)
qed

lemma word_back_le: "word_back u tx i n = (j, m) \<Longrightarrow> j \<le> i"
proof (induction u tx i n rule: word_back.induct)
  case (1 u tx i n)
  obtain r sz where d: "DecodeLastRune (sub tx 0 i) = (r, sz)" by fastforce
  show ?case
  proof (cases "0 < i \<and> i \<le> length tx")
    case True
    note IH = 1(1,2) [OF True d [symmetric] refl]
    consider "IsLetter u r" "word_back u tx (i - sz) (n + 1) = (j, m)"
      | "\<not> IsLetter u r" "\<not> (\<not> IsMark u r \<and> r \<noteq> byte (CHR ''-'') \<and> r \<noteq> 39)" "word_back u tx (i - sz) n = (j, m)"
      | "j = i"
      using 1(3) True d unfolding word_back.simps [of u tx i n] by (simp split: if_splits)
    then show ?thesis using IH by cases force+
  qed (use 1(3) in \<open>auto simp: word_back.simps [of u tx i n]\<close>)
qed

lemma drop_joiners_range: "i \<le> e \<Longrightarrow> i \<le> drop_joiners tx e i \<and> drop_joiners tx e i \<le> e"
proof (induction tx e i rule: drop_joiners.induct)
  case (1 tx e i)
  then show ?case by (subst (1 2) drop_joiners.simps) auto
qed

lemma prevWordStart_le: "prevWordStart u tx s \<le> s"
proof -
  obtain i n where w: "word_back u tx (retreat (hspace u) tx 0 s) 0 = (i, n)" by fastforce
  have "retreat (hspace u) tx 0 s \<le> s" using retreat_range [of 0 s] by simp
  with drop_joiners_range [OF word_back_le [OF w]] show ?thesis
    by (auto simp: prevWordStart_def w Let_def intro: order_trans)
qed

lemma trim_span_range:
  assumes "s \<le> e" and "trim_span u tx (s, e) = (s', e')"
  shows "s \<le> s' \<and> s' \<le> e' \<and> e' \<le> e"
  using assms advance_range [of s e "IsSpace u" tx] retreat_range [of s' e "IsSpace u" tx]
  by (auto simp: trim_span_def Let_def)


text \<open>What trimming drops: bytes of runes that are white space where the loop decoded them.\<close>

definition blank :: "unicode \<Rightarrow> string \<Rightarrow> nat \<Rightarrow> bool" where
  "blank u tx p \<longleftrightarrow> (\<exists>i j r sz. IsSpace u r
     \<and> (DecodeRune (sub tx i j) = (r, sz) \<and> i \<le> p \<and> p < i + sz
        \<or> DecodeLastRune (sub tx i j) = (r, sz) \<and> j - sz \<le> p \<and> p < j))"

lemma advance_blank: "i \<le> p \<Longrightarrow> p < advance (IsSpace u) tx e i \<Longrightarrow> blank u tx p"
proof (induction "IsSpace u" tx e i rule: advance.induct)
  case (1 tx e i)
  obtain r sz where d: "DecodeRune (sub tx i e) = (r, sz)" by fastforce
  have step: "i < e \<and> e \<le> length tx" "IsSpace u r" "advance (IsSpace u) tx e i = advance (IsSpace u) tx e (i + sz)"
    using 1(2,3) d by (auto simp: advance.simps [of "IsSpace u" tx e i] split: if_splits)
  show ?case
  proof (cases "p < i + sz")
    case True
    with d step(2) 1(2) show ?thesis unfolding blank_def by blast
  next
    case False
    with 1(3) step(3) show ?thesis using 1(1) [OF step(1) d [symmetric] refl step(2)] by simp
  qed
qed

lemma retreat_blank: "retreat (IsSpace u) tx s e \<le> p \<Longrightarrow> p < e \<Longrightarrow> blank u tx p"
proof (induction "IsSpace u" tx s e rule: retreat.induct)
  case (1 tx s e)
  obtain r sz where d: "DecodeLastRune (sub tx s e) = (r, sz)" by fastforce
  have step: "s < e \<and> e \<le> length tx" "IsSpace u r" "retreat (IsSpace u) tx s e = retreat (IsSpace u) tx s (e - sz)"
    using 1(2,3) d by (auto simp: retreat.simps [of "IsSpace u" tx s e] split: if_splits)
  show ?case
  proof (cases "e - sz \<le> p")
    case True
    with d step(2) 1(3) show ?thesis unfolding blank_def by blast
  next
    case False
    with 1(2) step(3) show ?thesis using 1(1) [OF step(1) d [symmetric] refl step(2)] by simp
  qed
qed

lemma trimSpans_complete:
  assumes "(s, e) \<in> set spans" and "s \<le> p" "p < e" and "\<not> blank u tx p"
  shows "\<exists>(s', e') \<in> set (trimSpans u tx spans). s' \<le> p \<and> p < e'"
proof -
  obtain s' e' where t: "trim_span u tx (s, e) = (s', e')" by fastforce
  then have "s' \<le> p" using advance_blank [of s p u tx e] assms by (auto simp: trim_span_def Let_def not_le [symmetric])
  moreover have "p < e'" using retreat_blank [of u tx s' e p] assms t by (auto simp: trim_span_def Let_def not_le [symmetric])
  ultimately show ?thesis using assms(1) t by (force simp: trimSpans_def)
qed

end
