(* ===== verification/PiiShield.thy ===== *)
theory PiiShield
  imports PiiText
begin

text \<open>
  Protected terms, \<open>protected.go\<close>: whole-word occurrences are replaced by a placeholder before a
  detector runs, and what it finds is mapped back to the original text with the placeholders cut out.
  The matches of the regular expression are the result of \<^verbatim>\<open>FindAllStringIndex\<close>, an argument;
  \<open>intervals\<close> is what the library documents of them.
\<close>

section \<open>Shielding\<close>

definition protectedPlaceholder :: string where
  "protectedPlaceholder = ''[PROTECTED]''"

record shield =
  origStart :: nat
  origEnd :: nat
  scanStart :: nat
  scanEnd :: nat

definition isWordRune :: "unicode \<Rightarrow> nat \<Rightarrow> bool" where
  "isWordRune u r \<longleftrightarrow> IsLetter u r \<or> IsDigit u r \<or> IsMark u r"

definition isJoiner :: "nat \<Rightarrow> bool" where
  "isJoiner r \<longleftrightarrow> r = byte (CHR ''-'') \<or> r = 39"

definition touchesWordBefore :: "unicode \<Rightarrow> string \<Rightarrow> bool" where
  "touchesWordBefore u tx =
     (let (r, sz) = DecodeLastRune tx
      in if isWordRune u r then True
         else if \<not> isJoiner r then False
         else isWordRune u (fst (DecodeLastRune (take (length tx - sz) tx))))"

definition touchesWordAfter :: "unicode \<Rightarrow> string \<Rightarrow> bool" where
  "touchesWordAfter u tx =
     (let (r, sz) = DecodeRune tx
      in if isWordRune u r then True
         else if \<not> isJoiner r then False
         else isWordRune u (fst (DecodeRune (drop sz tx))))"

fun shield_loop ::
  "unicode \<Rightarrow> string \<Rightarrow> (nat \<times> nat) list \<Rightarrow> nat \<Rightarrow> string \<Rightarrow> shield list \<Rightarrow> (string \<times> shield list \<times> nat) option" where
  "shield_loop u tx [] cursor b regions = Some (b, regions, cursor)"
| "shield_loop u tx ((s, e) # ms) cursor b regions =
     (if s > 0 \<and> touchesWordBefore u (take s tx) then shield_loop u tx ms cursor b regions
      else if e < length tx \<and> touchesWordAfter u (drop e tx) then shield_loop u tx ms cursor b regions
      else case substr tx cursor s of
        None \<Rightarrow> None
      | Some piece \<Rightarrow>
          let b1 = b @ piece; b2 = b1 @ protectedPlaceholder
          in shield_loop u tx ms e b2
               (regions @ [\<lparr>origStart = s, origEnd = e, scanStart = length b1, scanEnd = length b2\<rparr>]))"

definition shieldProtected ::
  "unicode \<Rightarrow> string \<Rightarrow> (string \<Rightarrow> (nat \<times> nat) list) option \<Rightarrow> (string \<times> shield list) option" where
  "shieldProtected u tx re =
     (case re of
        None \<Rightarrow> Some (tx, [])
      | Some find_all \<Rightarrow>
          if tx = [] then Some (tx, [])
          else case shield_loop u tx (find_all tx) 0 [] [] of
            None \<Rightarrow> None
          | Some (b, regions, cursor) \<Rightarrow>
              if regions = [] then Some (tx, [])
              else map_option (\<lambda>rest. (b @ rest, regions)) (substr tx cursor (length tx)))"

section \<open>Mapping back\<close>

fun orig_delta :: "shield list \<Rightarrow> nat \<Rightarrow> int" where
  "orig_delta [] p = 0"
| "orig_delta (r # rs) p =
     (if scanEnd r > p then 0
      else (int (origEnd r) - int (origStart r)) - (int (scanEnd r) - int (scanStart r)) + orig_delta rs p)"

definition toOrig :: "shield list \<Rightarrow> nat \<Rightarrow> nat" where
  "toOrig regions p = nat (int p + orig_delta regions p)"

fun unshield_loop :: "shield list \<Rightarrow> shield list \<Rightarrow> nat \<Rightarrow> nat \<Rightarrow> (nat \<times> nat) list" where
  "unshield_loop regions [] cur e = (if cur < e then [(toOrig regions cur, toOrig regions e)] else [])"
| "unshield_loop regions (r # rs) cur e =
     (if scanEnd r \<le> cur then unshield_loop regions rs cur e
      else if scanStart r \<ge> e then (if cur < e then [(toOrig regions cur, toOrig regions e)] else [])
      else if scanStart r > cur
      then (toOrig regions cur, toOrig regions (scanStart r)) # unshield_loop regions rs (scanEnd r) e
      else unshield_loop regions rs (scanEnd r) e)"

definition unshieldSpan :: "nat \<Rightarrow> nat \<Rightarrow> shield list \<Rightarrow> (nat \<times> nat) list" where
  "unshieldSpan start e regions = unshield_loop regions regions start e"

definition keepExtension :: "nat \<Rightarrow> nat \<Rightarrow> shield list \<Rightarrow> nat" where
  "keepExtension e extended regions =
     (if \<exists>r \<in> set regions. origStart r \<ge> e \<and> origStart r < extended then e else extended)"

definition keepExtensionBefore :: "nat \<Rightarrow> nat \<Rightarrow> shield list \<Rightarrow> nat" where
  "keepExtensionBefore start extended regions =
     (if \<exists>r \<in> set regions. origEnd r > extended \<and> origEnd r \<le> start then start else extended)"

section \<open>The regions correspond\<close>

text \<open>Regions from offset \<open>o1\<close> of the text and \<open>s1\<close> of the scanned text on: the parts between them have
  equal lengths.\<close>

fun regions_from :: "nat \<Rightarrow> nat \<Rightarrow> shield list \<Rightarrow> bool" where
  "regions_from o1 s1 [] = True"
| "regions_from o1 s1 (r # rs) =
     (o1 \<le> origStart r \<and> s1 \<le> scanStart r \<and> origStart r + s1 = scanStart r + o1
      \<and> origStart r < origEnd r \<and> scanStart r < scanEnd r \<and> regions_from (origEnd r) (scanEnd r) rs)"

fun regions_end :: "nat \<times> nat \<Rightarrow> shield list \<Rightarrow> nat \<times> nat" where
  "regions_end p [] = p"
| "regions_end p (r # rs) = regions_end (origEnd r, scanEnd r) rs"

lemma regions_from_snoc:
  "regions_from o1 s1 (rs @ [r]) \<longleftrightarrow> regions_from o1 s1 rs
     \<and> regions_from (fst (regions_end (o1, s1) rs)) (snd (regions_end (o1, s1) rs)) [r]"
  by (induction rs arbitrary: o1 s1) auto

lemma regions_end_snoc [simp]: "regions_end p (rs @ [r]) = (origEnd r, scanEnd r)"
  by (induction rs arbitrary: p) auto

lemma shield_loop_ok:
  assumes "intervals cursor (length tx) ms" and "regions_from 0 0 regions"
    and "regions_end (0, 0) regions = (cursor, length b)" and "cursor \<le> length tx"
  shows "\<exists>b' rs' c'. shield_loop u tx ms cursor b regions = Some (b', rs', c') \<and> regions_from 0 0 rs'
    \<and> regions_end (0, 0) rs' = (c', length b') \<and> c' \<le> length tx"
  using assms
proof (induction ms arbitrary: cursor b regions)
  case Nil
  then show ?case by simp
next
  case (Cons m ms)
  obtain s e where m: "m = (s, e)" by (cases m)
  have range: "cursor \<le> s" "s < e" "e \<le> length tx" "intervals e (length tx) ms" using Cons.prems(1) m by auto
  then have skip: "intervals cursor (length tx) ms" by (auto intro: intervals_mono)
  let ?b = "b @ sub tx cursor s"
  let ?r = "\<lparr>origStart = s, origEnd = e, scanStart = length ?b, scanEnd = length (?b @ protectedPlaceholder)\<rparr>"
  have sb: "substr tx cursor s = Some (sub tx cursor s)" using range by (simp add: substr_def)
  have "shield_loop u tx (m # ms) cursor b regions =
      (if s > 0 \<and> touchesWordBefore u (take s tx) then shield_loop u tx ms cursor b regions
       else if e < length tx \<and> touchesWordAfter u (drop e tx) then shield_loop u tx ms cursor b regions
       else shield_loop u tx ms e (?b @ protectedPlaceholder) (regions @ [?r]))"
    by (simp only: m shield_loop.simps sb option.case Let_def)
  then have "shield_loop u tx (m # ms) cursor b regions = shield_loop u tx ms cursor b regions
      \<or> shield_loop u tx (m # ms) cursor b regions = shield_loop u tx ms e (?b @ protectedPlaceholder) (regions @ [?r])"
    by presburger
  moreover have "regions_from 0 0 (regions @ [?r])"
    using Cons.prems(2,3) range by (simp add: regions_from_snoc protectedPlaceholder_def)
  ultimately show ?case
    using Cons.IH [OF skip Cons.prems(2-4)] Cons.IH [of e "regions @ [?r]" "?b @ protectedPlaceholder"] range by auto
qed

text \<open>The scanned text and the text agree behind the last region.\<close>

definition scan_fits :: "string \<Rightarrow> string \<Rightarrow> shield list \<Rightarrow> bool" where
  "scan_fits tx scan regions \<longleftrightarrow> regions_from 0 0 regions \<and> fst (regions_end (0, 0) regions) \<le> length tx
     \<and> int (length scan) - int (snd (regions_end (0, 0) regions)) = int (length tx) - int (fst (regions_end (0, 0) regions))"

lemma shieldProtected_ok:
  assumes "\<forall>f. re = Some f \<longrightarrow> intervals 0 (length tx) (f tx)"
  shows "\<exists>scan regions. shieldProtected u tx re = Some (scan, regions) \<and> scan_fits tx scan regions"
proof (cases re)
  case (Some f)
  with assms shield_loop_ok [of 0 tx "f tx" "[]" "[]" u] obtain b rs c where
    l: "shield_loop u tx (f tx) 0 [] [] = Some (b, rs, c)" "regions_from 0 0 rs" "regions_end (0, 0) rs = (c, length b)" "c \<le> length tx"
    by auto
  then have "substr tx c (length tx) = Some (sub tx c (length tx))" by (simp add: substr_def)
  with Some l show ?thesis by (auto simp: shieldProtected_def scan_fits_def)
qed (simp add: shieldProtected_def scan_fits_def)


section \<open>Pieces avoid the regions\<close>

text \<open>The offset of scanned position \<open>q\<close> in the text, relative to the start of the regions.\<close>

definition orig_at :: "nat \<Rightarrow> nat \<Rightarrow> shield list \<Rightarrow> nat \<Rightarrow> int" where
  "orig_at o1 s1 rs q = int o1 - int s1 + int q + orig_delta rs q"

lemma orig_at_Cons:
  "regions_from o1 s1 (r # rs) \<Longrightarrow> scanEnd r \<le> q \<Longrightarrow> orig_at o1 s1 (r # rs) q = orig_at (origEnd r) (scanEnd r) rs q"
  by (auto simp: orig_at_def)

lemma orig_at_lower: "regions_from o1 s1 rs \<Longrightarrow> s1 \<le> q \<Longrightarrow> int o1 \<le> orig_at o1 s1 rs q"
proof (induction rs arbitrary: o1 s1)
  case Nil
  then show ?case by (simp add: orig_at_def)
next
  case (Cons r rs)
  show ?case
  proof (cases "scanEnd r \<le> q")
    case True
    with Cons.IH [of "origEnd r" "scanEnd r"] Cons.prems orig_at_Cons [OF Cons.prems(1) True] show ?thesis by auto
  next
    case False
    with Cons.prems show ?thesis by (simp add: orig_at_def)
  qed
qed

lemma regions_lower:
  "regions_from o1 s1 rs \<Longrightarrow> r \<in> set rs \<Longrightarrow> o1 \<le> origStart r \<and> s1 \<le> scanStart r \<and> origStart r < origEnd r \<and> scanStart r < scanEnd r"
proof (induction rs arbitrary: o1 s1)
  case (Cons a rs)
  then show ?case by (cases "r = a") (auto dest: Cons.IH)
qed simp

lemma region_before: "regions_from o1 s1 rs \<Longrightarrow> r \<in> set rs \<Longrightarrow> scanEnd r \<le> q \<Longrightarrow> int (origEnd r) \<le> orig_at o1 s1 rs q"
proof (induction rs arbitrary: o1 s1)
  case (Cons a rs)
  have "scanEnd a \<le> q" using Cons.prems regions_lower [of "origEnd a" "scanEnd a" rs r] by (cases "r = a") auto
  with orig_at_Cons [OF Cons.prems(1) this] Cons orig_at_lower [of "origEnd a" "scanEnd a" rs q] show ?case by auto
qed simp

text \<open>A scanned position that is not inside a placeholder.\<close>

definition outside :: "shield list \<Rightarrow> nat \<Rightarrow> bool" where
  "outside rs q \<longleftrightarrow> (\<forall>r \<in> set rs. q \<le> scanStart r \<or> scanEnd r \<le> q)"

lemma region_after:
  "regions_from o1 s1 rs \<Longrightarrow> r \<in> set rs \<Longrightarrow> outside rs q \<Longrightarrow> q \<le> scanStart r \<Longrightarrow> orig_at o1 s1 rs q \<le> int (origStart r)"
proof (induction rs arbitrary: o1 s1)
  case (Cons a rs)
  show ?case
  proof (cases "scanEnd a \<le> q")
    case True
    with orig_at_Cons [OF Cons.prems(1) True] Cons show ?thesis by (auto simp: outside_def)
  next
    case False
    with Cons.prems(1,3) have "orig_at o1 s1 (a # rs) q \<le> int (origStart a)" by (auto simp: outside_def orig_at_def)
    also have "\<dots> \<le> int (origStart r)"
      using Cons.prems(1,2) regions_lower [of "origEnd a" "scanEnd a" rs r] by auto
    finally show ?thesis .
  qed
qed simp

lemma toOrig_at: "regions_from 0 0 rs \<Longrightarrow> int (toOrig rs q) = orig_at 0 0 rs q"
  using orig_at_lower [of 0 0 rs q] by (simp add: toOrig_def orig_at_def)

text \<open>A stretch of the scanned text that no placeholder meets keeps its length and avoids the regions.\<close>

lemma orig_delta_stretch:
  "regions_from o1 s1 rs \<Longrightarrow> \<forall>r \<in> set rs. scanEnd r \<le> a \<or> b \<le> scanStart r \<Longrightarrow> a \<le> q \<Longrightarrow> q \<le> b \<Longrightarrow> orig_delta rs q = orig_delta rs a"
proof (induction rs arbitrary: o1 s1)
  case (Cons r rs)
  then show ?case by (cases "scanEnd r \<le> a") auto
qed simp

lemma stretch_ok:
  assumes "regions_from 0 0 rs" and "\<forall>r \<in> set rs. scanEnd r \<le> a \<or> b \<le> scanStart r" and "a < b"
  shows "toOrig rs a < toOrig rs b" and "\<forall>r \<in> set rs. toOrig rs b \<le> origStart r \<or> origEnd r \<le> toOrig rs a"
    and "a \<le> q \<Longrightarrow> q \<le> b \<Longrightarrow> toOrig rs q = toOrig rs a + (q - a)"
proof -
  have shift: "int (toOrig rs q) = int (toOrig rs a) + int (q - a)" if "a \<le> q" "q \<le> b" for q
    using orig_delta_stretch [OF assms(1,2) that] that toOrig_at [OF assms(1)] by (simp add: orig_at_def)
  then show "toOrig rs q = toOrig rs a + (q - a)" if "a \<le> q" "q \<le> b" using that by fastforce
  show "toOrig rs a < toOrig rs b" using shift [of b] assms(3) by simp
  have "outside rs b" using assms(2,3) by (force simp: outside_def)
  then have "toOrig rs b \<le> origStart r \<or> origEnd r \<le> toOrig rs a" if "r \<in> set rs" for r
    using assms(2) that region_before [OF assms(1) that, of a] region_after [OF assms(1) that, of b] toOrig_at [OF assms(1)]
    by (metis of_nat_le_iff)
  then show "\<forall>r \<in> set rs. toOrig rs b \<le> origStart r \<or> origEnd r \<le> toOrig rs a" by blast
qed

lemma regions_from_append:
  "regions_from o1 s1 (ds @ r # rs) \<Longrightarrow> regions_from (origEnd r) (scanEnd r) rs \<and> scanStart r < scanEnd r"
  by (induction ds arbitrary: o1 s1) auto

lemma regions_order: "regions_from o1 s1 (ds @ r # rs) \<Longrightarrow> r' \<in> set rs \<Longrightarrow> scanEnd r \<le> scanStart r'"
  using regions_from_append [of o1 s1 ds r rs] regions_lower [of "origEnd r" "scanEnd r" rs r'] by blast

lemma unshield_loop_pieces:
  assumes "regions_from 0 0 (ds @ rs)" and "\<forall>r \<in> set ds. scanEnd r \<le> cur" and "(x, y) \<in> set (unshield_loop (ds @ rs) rs cur e)"
  shows "\<exists>a b. x = toOrig (ds @ rs) a \<and> y = toOrig (ds @ rs) b \<and> cur \<le> a \<and> a < b \<and> b \<le> e
    \<and> (\<forall>r \<in> set (ds @ rs). scanEnd r \<le> a \<or> b \<le> scanStart r)"
  using assms
proof (induction rs arbitrary: ds cur)
  case Nil
  then show ?case by (auto split: if_splits)
next
  case (Cons r rs)
  have later: "\<forall>r' \<in> set rs. scanEnd r \<le> scanStart r'" using regions_order [OF Cons.prems(1)] by blast
  have r: "scanStart r < scanEnd r" using regions_from_append [OF Cons.prems(1)] by blast
  note IH = Cons.IH [of "ds @ [r]", simplified]
  consider (past) "scanEnd r \<le> cur" | (beyond) "cur < scanEnd r" "e \<le> scanStart r"
    | (cut) "cur < scanEnd r" "scanStart r < e" by linarith
  then show ?case
  proof cases
    case past
    with Cons.prems IH [of cur] show ?thesis by auto
  next
    case beyond
    then have "x = toOrig (ds @ r # rs) cur" "y = toOrig (ds @ r # rs) e" "cur < e"
      using Cons.prems(3) by (auto split: if_splits)
    moreover have "\<forall>r' \<in> set (ds @ r # rs). scanEnd r' \<le> cur \<or> e \<le> scanStart r'"
      using Cons.prems(2) beyond(2) later r by force
    ultimately show ?thesis by blast
  next
    case cut
    have "\<forall>r' \<in> set ds. scanEnd r' \<le> scanEnd r" using Cons.prems(2) cut(1) by auto
    with IH [of "scanEnd r"] Cons.prems(1) have tail:
      "(x, y) \<in> set (unshield_loop (ds @ r # rs) rs (scanEnd r) e) \<Longrightarrow> ?thesis" using cut(1) by fastforce
    show ?thesis
    proof (cases "cur < scanStart r \<and> (x, y) = (toOrig (ds @ r # rs) cur, toOrig (ds @ r # rs) (scanStart r))")
      case True
      moreover have "\<forall>r' \<in> set (ds @ r # rs). scanEnd r' \<le> cur \<or> scanStart r \<le> scanStart r'"
        using Cons.prems(2) later r by force
      ultimately show ?thesis using cut(2) by (metis less_imp_le order_refl prod.inject)
    next
      case False
      with Cons.prems(3) cut tail show ?thesis by (auto split: if_splits)
    qed
  qed
qed

lemma regions_end_lower: "regions_from o1 s1 rs \<Longrightarrow> o1 \<le> fst (regions_end (o1, s1) rs)"
proof (induction rs arbitrary: o1 s1)
  case (Cons r rs)
  then have "o1 \<le> origStart r" "origStart r < origEnd r" "origEnd r \<le> fst (regions_end (origEnd r, scanEnd r) rs)"
    using Cons.IH [of "origEnd r" "scanEnd r"] by simp_all
  then show ?case by simp
qed simp

lemma orig_at_upper:
  "regions_from o1 s1 rs \<Longrightarrow> outside rs q \<Longrightarrow> regions_end (o1, s1) rs = (oe, se)
     \<Longrightarrow> orig_at o1 s1 rs q \<le> max (int oe) (int oe + int q - int se)"
proof (induction rs arbitrary: o1 s1)
  case Nil
  then show ?case by (simp add: orig_at_def)
next
  case (Cons r rs)
  show ?case
  proof (cases "scanEnd r \<le> q")
    case True
    with orig_at_Cons [OF Cons.prems(1) True] Cons show ?thesis by (auto simp: outside_def)
  next
    case False
    with Cons.prems(1,2) have "orig_at o1 s1 (r # rs) q \<le> int (origEnd r)" by (auto simp: outside_def orig_at_def)
    moreover have "origEnd r \<le> oe" using regions_end_lower [of "origEnd r" "scanEnd r" rs] Cons.prems(1,3) by simp
    ultimately show ?thesis by simp
  qed
qed

text \<open>The pieces of a detection: not empty, within the text, apart from every protected term.\<close>

lemma unshieldSpan_avoids:
  assumes "scan_fits tx scan regions" and "(x, y) \<in> set (unshieldSpan start e regions)" and "e \<le> length scan"
  shows "x < y" and "y \<le> length tx" and "\<forall>r \<in> set regions. y \<le> origStart r \<or> origEnd r \<le> x"
proof -
  have ok: "regions_from 0 0 regions" using assms(1) by (simp add: scan_fits_def)
  from unshield_loop_pieces [of "[]" regions start x y e] ok assms(2) obtain a b where ab: "x = toOrig regions a" "y = toOrig regions b"
    "a < b" "b \<le> e" "\<forall>r \<in> set regions. scanEnd r \<le> a \<or> b \<le> scanStart r" by (auto simp: unshieldSpan_def)
  from stretch_ok(1,2) [OF ok ab(5,3)] ab(1,2) show "x < y" "\<forall>r \<in> set regions. y \<le> origStart r \<or> origEnd r \<le> x" by auto
  have "outside regions b" using ab(3,5) by (force simp: outside_def)
  then have "int y \<le> max (int (fst (regions_end (0, 0) regions)))
      (int (fst (regions_end (0, 0) regions)) + int b - int (snd (regions_end (0, 0) regions)))"
    using orig_at_upper [OF ok, of b] toOrig_at [OF ok] ab(2) by (metis prod.collapse)
  then show "y \<le> length tx" using assms(1,3) ab(4) by (auto simp: scan_fits_def)
qed

text \<open>Nothing else is lost: a scanned position of the detection that is not on a placeholder is in a piece.\<close>

lemma unshield_loop_complete:
  assumes "regions_from 0 0 (ds @ rs)" and "\<forall>r \<in> set ds. scanEnd r \<le> cur" and "cur \<le> q" "q < e"
    and "\<forall>r \<in> set (ds @ rs). q < scanStart r \<or> scanEnd r \<le> q"
  shows "\<exists>(x, y) \<in> set (unshield_loop (ds @ rs) rs cur e). x \<le> toOrig (ds @ rs) q \<and> toOrig (ds @ rs) q < y"
  using assms
proof (induction rs arbitrary: ds cur)
  case Nil
  then have st: "\<forall>r \<in> set (ds @ []). scanEnd r \<le> cur \<or> e \<le> scanStart r" by simp
  show ?case
    using stretch_ok(3) [OF Nil(1) st, of q] stretch_ok(3) [OF Nil(1) st, of e] Nil(3,4) by simp linarith
next
  case (Cons r rs)
  have later: "\<forall>r' \<in> set rs. scanEnd r \<le> scanStart r'" using regions_order [OF Cons.prems(1)] by blast
  have r: "scanStart r < scanEnd r" using regions_from_append [OF Cons.prems(1)] by blast
  note IH = Cons.IH [of "ds @ [r]", simplified]
  let ?t = "toOrig (ds @ r # rs)"
  have stretch: "?t cur \<le> ?t q \<and> ?t q < ?t b" if "q < b" "b \<le> scanStart r" for b
  proof -
    have st: "\<forall>r' \<in> set (ds @ r # rs). scanEnd r' \<le> cur \<or> b \<le> scanStart r'"
      using Cons.prems(2) that(2) later r by force
    then show ?thesis
      using stretch_ok(3) [OF Cons.prems(1) st, of q] stretch_ok(3) [OF Cons.prems(1) st, of b] Cons.prems(3) that(1) by simp linarith
  qed
  consider (past) "scanEnd r \<le> cur" | (beyond) "cur < scanEnd r" "e \<le> scanStart r"
    | (here) "cur < scanEnd r" "scanStart r < e" "q < scanStart r" | (after) "cur < scanEnd r" "scanStart r < e" "scanEnd r \<le> q"
    using Cons.prems(5) by fastforce
  then show ?case
  proof cases
    case past
    with Cons.prems IH [of cur] show ?thesis by auto
  next
    case beyond
    with stretch [of e] Cons.prems(3,4) show ?thesis by auto
  next
    case here
    with stretch [of "scanStart r"] Cons.prems(3) show ?thesis by auto
  next
    case after
    have "\<forall>r' \<in> set ds. scanEnd r' \<le> scanEnd r" using Cons.prems(2) after(1) by auto
    with IH [of "scanEnd r"] Cons.prems(1,4,5) after show ?thesis by auto
  qed
qed

lemma unshieldSpan_complete:
  assumes "regions_from 0 0 regions" and "start \<le> q" "q < e" and "\<forall>r \<in> set regions. q < scanStart r \<or> scanEnd r \<le> q"
  shows "\<exists>(x, y) \<in> set (unshieldSpan start e regions). x \<le> toOrig regions q \<and> toOrig regions q < y"
  using unshield_loop_complete [of "[]" regions start q e] assms by (simp add: unshieldSpan_def)


text \<open>The regions are the matches that are whole words.\<close>

definition whole_word :: "unicode \<Rightarrow> string \<Rightarrow> nat \<times> nat \<Rightarrow> bool" where
  "whole_word u tx m \<longleftrightarrow> \<not> (fst m > 0 \<and> touchesWordBefore u (take (fst m) tx))
     \<and> \<not> (snd m < length tx \<and> touchesWordAfter u (drop (snd m) tx))"

lemma shield_loop_regions:
  "shield_loop u tx ms cursor b regions = Some (b', rs', c') \<Longrightarrow>
     map (\<lambda>r. (origStart r, origEnd r)) rs' = map (\<lambda>r. (origStart r, origEnd r)) regions @ filter (whole_word u tx) ms"
proof (induction ms arbitrary: cursor b regions)
  case (Cons m ms)
  obtain s e where m: "m = (s, e)" by (cases m)
  show ?case
  proof (cases "whole_word u tx m")
    case True
    with Cons.prems m obtain piece where "substr tx cursor s = Some piece"
      by (auto simp: whole_word_def split: option.splits if_splits)
    with True Cons.prems m Cons.IH show ?thesis by (auto simp: whole_word_def Let_def split: if_splits)
  next
    case False
    with Cons.prems m have "shield_loop u tx ms cursor b regions = Some (b', rs', c')"
      by (auto simp: whole_word_def split: if_splits)
    with Cons.IH False show ?thesis by simp
  qed
qed simp

definition protected_matches :: "unicode \<Rightarrow> string \<Rightarrow> (string \<Rightarrow> (nat \<times> nat) list) option \<Rightarrow> (nat \<times> nat) list" where
  "protected_matches u tx re = (case re of None \<Rightarrow> [] | Some f \<Rightarrow> if tx = [] then [] else filter (whole_word u tx) (f tx))"

lemma shieldProtected_regions:
  assumes "shieldProtected u tx re = Some (scan, regions)"
  shows "map (\<lambda>r. (origStart r, origEnd r)) regions = protected_matches u tx re"
  using assms shield_loop_regions [of u tx _ 0 "[]" "[]"]
  by (fastforce simp: shieldProtected_def protected_matches_def split: option.splits if_splits)

lemma shieldProtected_text: "shieldProtected u tx re = Some (scan, []) \<Longrightarrow> scan = tx"
  by (auto simp: shieldProtected_def split: option.splits if_splits)

end
