(* ===== verification/PiiMerge.thy ===== *)
theory PiiMerge
  imports PiiText GoFloat
begin

text \<open>
  The merge of overlapping detections and the redacted text, \<open>mergeAndEmit\<close> of \<open>redactor.go\<close>,
  with the types of \<open>types.go\<close>. A slice expression out of range panics, which is \<open>None\<close>. The sort
  of \<^verbatim>\<open>sort.Slice\<close> is an argument, since it is not stable and equal hits may come in either order;
  \<open>hit_sort\<close> is what the library promises of it. SHA-256 is an argument.
\<close>

section \<open>Types\<close>

type_synonym Action = string

definition ActionMask :: Action where "ActionMask = ''mask''"

definition ActionBlock :: Action where "ActionBlock = ''block''"

definition ActionAllow :: Action where "ActionAllow = ''allow''"

lemmas action_defs = ActionMask_def ActionBlock_def ActionAllow_def

lemma action_distinct [simp]:
  "ActionMask \<noteq> ActionBlock" "ActionMask \<noteq> ActionAllow" "ActionBlock \<noteq> ActionMask"
  "ActionBlock \<noteq> ActionAllow" "ActionAllow \<noteq> ActionMask" "ActionAllow \<noteq> ActionBlock"
  by (simp_all add: action_defs)

record rawHit =
  h_pattern :: string
  h_action :: Action
  h_start :: nat
  h_end :: nat
  h_score :: f32

record Span =
  s_start :: nat
  s_end :: nat
  s_pattern :: string
  s_hash :: string
  s_action :: Action
  s_score :: f32

record Result =
  Redacted :: string
  Spans :: "Span list"
  Blocked :: bool
  Masked :: bool

definition empty_result :: Result where
  "empty_result = \<lparr>Redacted = [], Spans = [], Blocked = False, Masked = False\<rparr>"

definition actionRank :: "Action \<Rightarrow> nat" where
  "actionRank a =
     (if a = ActionBlock then 3 else if a = ActionMask then 2 else if a = ActionAllow then 1 else 0)"

definition maskFor :: "string \<Rightarrow> string" where
  "maskFor patternID = ''[REDACTED:'' @ patternID @ '']''"

definition hex_digit :: "nat \<Rightarrow> char" where
  "hex_digit n = ''0123456789abcdef'' ! n"

definition hex_encode :: "string \<Rightarrow> string" where
  "hex_encode bs = concat (map (\<lambda>c. [hex_digit (byte c div 16), hex_digit (byte c mod 16)]) bs)"

definition hashPrefix :: "(string \<Rightarrow> string) \<Rightarrow> string \<Rightarrow> string" where
  "hashPrefix sha256 v = take 8 (hex_encode (sha256 v))"

section \<open>Merging\<close>

definition hit_less :: "rawHit \<Rightarrow> rawHit \<Rightarrow> bool" where
  "hit_less a b =
     (if h_start a \<noteq> h_start b then h_start a < h_start b
      else actionRank (h_action a) > actionRank (h_action b))"

definition absorb :: "rawHit \<Rightarrow> rawHit \<Rightarrow> rawHit" where
  "absorb l h =
     (let l1 = if actionRank (h_action h) > actionRank (h_action l)
               then l\<lparr>h_action := h_action h, h_pattern := h_pattern h, h_score := h_score h\<rparr> else l
      in if h_end h > h_end l1 then l1\<lparr>h_end := h_end h\<rparr> else l1)"

text \<open>\<open>merged\<close> starts as \<open>hits[:0]\<close> and so shares the array it is filled from: \<open>arr\<close> is that array, \<open>i\<close>
  the index read next and \<open>n\<close> the length of \<open>merged\<close>.\<close>

function merge_loop :: "rawHit list \<Rightarrow> nat \<Rightarrow> nat \<Rightarrow> rawHit list" where
  "merge_loop arr i n =
     (if i < length arr
      then let h = arr ! i
           in if n > 0 \<and> h_start h < h_end (arr ! (n - 1))
              then merge_loop (arr[n - 1 := absorb (arr ! (n - 1)) h]) (i + 1) n
              else merge_loop (arr[n := h]) (i + 1) (n + 1)
      else take n arr)"
  by pat_completeness auto
termination
  by (relation "measure (\<lambda>(arr, i, n). length arr - i)") auto

declare merge_loop.simps [simp del]

definition merge_hits :: "rawHit list \<Rightarrow> rawHit list" where
  "merge_hits hits = merge_loop hits 0 0"

section \<open>The redacted text\<close>

definition mk_span :: "(string \<Rightarrow> string) \<Rightarrow> rawHit \<Rightarrow> string \<Rightarrow> Span" where
  "mk_span sha256 h matched =
     \<lparr>s_start = h_start h, s_end = h_end h, s_pattern = h_pattern h, s_hash = hashPrefix sha256 matched,
      s_action = h_action h, s_score = h_score h\<rparr>"

fun emit_loop :: "(string \<Rightarrow> string) \<Rightarrow> string \<Rightarrow> rawHit list \<Rightarrow> nat \<Rightarrow> string \<Rightarrow> Result \<Rightarrow> Result option" where
  "emit_loop sha256 tx [] cursor out res =
     (case substr tx cursor (length tx) of
        None \<Rightarrow> None
      | Some rest \<Rightarrow> Some (res\<lparr>Redacted := out @ rest\<rparr>))"
| "emit_loop sha256 tx (h # hs) cursor out res =
     (case substr tx (h_start h) (h_end h) of
        None \<Rightarrow> None
      | Some matched \<Rightarrow>
          (case substr tx cursor (h_start h) of
             None \<Rightarrow> None
           | Some before \<Rightarrow>
               let res1 = res\<lparr>Spans := Spans res @ [mk_span sha256 h matched]\<rparr>
               in if h_action h = ActionBlock
                  then emit_loop sha256 tx hs (h_end h) (out @ before @ matched) (res1\<lparr>Blocked := True\<rparr>)
                  else if h_action h = ActionAllow
                  then emit_loop sha256 tx hs (h_end h) (out @ before @ matched) res1
                  else emit_loop sha256 tx hs (h_end h) (out @ before @ maskFor (h_pattern h))
                         (res1\<lparr>Masked := True\<rparr>)))"

definition mergeAndEmit ::
  "(rawHit list \<Rightarrow> rawHit list) \<Rightarrow> (string \<Rightarrow> string) \<Rightarrow> string \<Rightarrow> rawHit list \<Rightarrow> Result option" where
  "mergeAndEmit srt sha256 tx hits =
     (if hits = [] then Some (empty_result\<lparr>Redacted := tx\<rparr>)
      else emit_loop sha256 tx (merge_hits (srt hits)) 0 [] empty_result)"

section \<open>The sort of the library\<close>

locale hit_sort =
  fixes srt :: "rawHit list \<Rightarrow> rawHit list"
  assumes srt_perm: "mset (srt hs) = mset hs"
    and srt_ordered: "sorted_wrt (\<lambda>a b. \<not> hit_less b a) (srt hs)"
begin

lemma srt_set: "set (srt hs) = set hs"
  using srt_perm by (metis set_mset_mset)

lemma srt_starts: "sorted_wrt (\<lambda>a b. h_start a \<le> h_start b) (srt hs)"
  using srt_ordered by (rule sorted_wrt_mono_rel [rotated]) (auto simp: hit_less_def split: if_splits)

end

interpretation hit_lt: strict_weak hit_less
  by unfold_locales (auto simp: hit_less_def split: if_splits)

interpretation hit_sort_lib: hit_sort "go_sort hit_less"
  by unfold_locales (simp_all add: hit_lt.go_sort_sorted)

section \<open>Merged hits\<close>

fun merge_from :: "rawHit \<Rightarrow> rawHit list \<Rightarrow> rawHit list" where
  "merge_from l [] = [l]"
| "merge_from l (h # hs) =
     (if h_start h < h_end l then merge_from (absorb l h) hs else l # merge_from h hs)"

lemma merge_loop_from:
  "i \<le> length arr \<Longrightarrow> n \<le> i \<Longrightarrow> 0 < n \<Longrightarrow>
     merge_loop arr i n = take (n - 1) arr @ merge_from (arr ! (n - 1)) (drop i arr)"
proof (induction "length arr - i" arbitrary: arr i n)
  case 0
  then show ?case by (simp add: merge_loop.simps [of arr] take_Suc_conv_app_nth [symmetric])
next
  case (Suc k)
  then have i: "i < length arr" and split: "drop i arr = arr ! i # drop (i + 1) arr"
    by (simp_all add: Cons_nth_drop_Suc)
  show ?case
  proof (cases "h_start (arr ! i) < h_end (arr ! (n - 1))")
    case True
    let ?arr = "arr[n - 1 := absorb (arr ! (n - 1)) (arr ! i)]"
    have "merge_loop arr i n = merge_loop ?arr (i + 1) n"
      using Suc.prems i True by (simp add: merge_loop.simps [of arr] Let_def)
    also have "\<dots> = take (n - 1) ?arr @ merge_from (?arr ! (n - 1)) (drop (i + 1) ?arr)"
      using Suc i by (intro Suc.hyps(1)) auto
    finally show ?thesis using Suc.prems i True split by (simp add: drop_update_cancel)
  next
    case False
    let ?arr = "arr[n := arr ! i]"
    have "merge_loop arr i n = merge_loop ?arr (i + 1) (n + 1)"
      using Suc.prems i False by (simp add: merge_loop.simps [of arr] Let_def)
    also have "\<dots> = take n ?arr @ merge_from (?arr ! n) (drop (i + 1) ?arr)"
      using Suc.hyps(1) [of ?arr "i + 1" "n + 1"] Suc.hyps(2) Suc.prems i by auto
    also have "take n ?arr = take (n - 1) arr @ [arr ! (n - 1)]"
      using Suc.prems by (simp add: take_Suc_conv_app_nth [symmetric])
    finally show ?thesis using Suc.prems i False split by (simp add: drop_update_cancel)
  qed
qed

lemma merge_hits_Nil [simp]: "merge_hits [] = []"
  by (simp add: merge_hits_def merge_loop.simps)

text \<open>Writing behind the reading index does no harm: the loop is the merge of the list.\<close>

lemma merge_hits_Cons: "merge_hits (h # hs) = merge_from h hs"
  using merge_loop_from [of 1 "h # hs" 1] by (simp add: merge_hits_def merge_loop.simps [of "h # hs" 0])

definition hit_range :: "rawHit \<Rightarrow> nat set" where
  "hit_range h = {h_start h..<h_end h}"

lemma absorb_simps [simp]:
  "h_start (absorb l h) = h_start l"
  "h_end (absorb l h) = max (h_end l) (h_end h)"
  "actionRank (h_action (absorb l h)) = max (actionRank (h_action l)) (actionRank (h_action h))"
  by (auto simp: absorb_def Let_def)

definition same_kind :: "rawHit \<Rightarrow> rawHit \<Rightarrow> bool" where
  "same_kind a b \<longleftrightarrow> h_action a = h_action b \<and> h_pattern a = h_pattern b \<and> h_score a = h_score b"

lemma absorb_kind: "same_kind (absorb l h) l \<or> same_kind (absorb l h) h"
  by (auto simp: absorb_def same_kind_def Let_def)

lemma absorb_range: "h_start l \<le> h_start h \<Longrightarrow> h_start h < h_end l \<Longrightarrow> h_start h < h_end h \<Longrightarrow>
    hit_range (absorb l h) = hit_range l \<union> hit_range h"
  by (auto simp: hit_range_def)

abbreviation hit_iv :: "rawHit \<Rightarrow> nat \<times> nat" where
  "hit_iv h \<equiv> (h_start h, h_end h)"

definition hits_ok :: "nat \<Rightarrow> rawHit list \<Rightarrow> bool" where
  "hits_ok n hs \<longleftrightarrow> (\<forall>h \<in> set hs. h_start h < h_end h \<and> h_end h \<le> n)"

text \<open>
  \<open>merges c n hs ms\<close>: the hits \<open>ms\<close> are in order, apart and between \<open>c\<close> and \<open>n\<close>; they cover what the hits \<open>hs\<close>
  cover; each of \<open>hs\<close> lies in one that is at least as strong; each of \<open>ms\<close> has the action of one of \<open>hs\<close> in it.
\<close>

definition merges :: "nat \<Rightarrow> nat \<Rightarrow> rawHit list \<Rightarrow> rawHit list \<Rightarrow> bool" where
  "merges c n hs ms \<longleftrightarrow> intervals c n (map hit_iv ms)
     \<and> (\<Union>m \<in> set ms. hit_range m) = (\<Union>h \<in> set hs. hit_range h)
     \<and> (\<forall>h \<in> set hs. \<exists>m \<in> set ms. hit_range h \<subseteq> hit_range m \<and> actionRank (h_action h) \<le> actionRank (h_action m))
     \<and> (\<forall>m \<in> set ms. \<exists>h \<in> set hs. hit_range h \<subseteq> hit_range m \<and> same_kind m h)"

lemma merges_absorb:
  assumes "merges c n (absorb l h # hs) ms" and "hit_range (absorb l h) = hit_range l \<union> hit_range h"
  shows "merges c n (l # h # hs) ms"
  unfolding merges_def
proof (intro conjI ballI)
  show "intervals c n (map hit_iv ms)" "(\<Union>m \<in> set ms. hit_range m) = (\<Union>h \<in> set (l # h # hs). hit_range h)"
    using assms by (auto simp: merges_def)
next
  fix x assume "x \<in> set (l # h # hs)"
  then show "\<exists>m \<in> set ms. hit_range x \<subseteq> hit_range m \<and> actionRank (h_action x) \<le> actionRank (h_action m)"
  proof (cases "x \<in> set hs")
    case True
    with assms(1) show ?thesis by (simp add: merges_def)
  next
    case False
    with assms(2) \<open>x \<in> _\<close> have "hit_range x \<subseteq> hit_range (absorb l h)" "actionRank (h_action x) \<le> actionRank (h_action (absorb l h))"
      by auto
    moreover obtain m where "m \<in> set ms" "hit_range (absorb l h) \<subseteq> hit_range m" "actionRank (h_action (absorb l h)) \<le> actionRank (h_action m)"
      using assms(1) unfolding merges_def by (meson list.set_intros(1))
    ultimately show ?thesis by (meson order_trans)
  qed
next
  fix m assume "m \<in> set ms"
  with assms(1) obtain x where x: "x \<in> set (absorb l h # hs)" "hit_range x \<subseteq> hit_range m" "same_kind m x"
    unfolding merges_def by blast
  show "\<exists>x \<in> set (l # h # hs). hit_range x \<subseteq> hit_range m \<and> same_kind m x"
  proof (cases "x = absorb l h")
    case True
    with x(2,3) assms(2) absorb_kind [of l h] show ?thesis by (auto simp: same_kind_def)
  next
    case False
    with x show ?thesis by auto
  qed
qed

lemma merges_Cons:
  "merges c n hs ms \<Longrightarrow> h_start l < h_end l \<Longrightarrow> h_end l \<le> c \<Longrightarrow> h_end l \<le> n
     \<Longrightarrow> merges (h_start l) n (l # hs) (l # ms)"
  unfolding merges_def same_kind_def by (cases ms) auto

lemma merge_from_ok:
  "sorted_wrt (\<lambda>a b. h_start a \<le> h_start b) (l # hs) \<Longrightarrow> hits_ok n (l # hs)
     \<Longrightarrow> merges (h_start l) n (l # hs) (merge_from l hs)"
proof (induction hs arbitrary: l)
  case Nil
  then show ?case by (auto simp: hits_ok_def merges_def same_kind_def)
next
  case (Cons h hs)
  show ?case
  proof (cases "h_start h < h_end l")
    case True
    have "merges (h_start (absorb l h)) n (absorb l h # hs) (merge_from (absorb l h) hs)"
      using Cons.prems by (intro Cons.IH) (auto simp: hits_ok_def)
    moreover have "hit_range (absorb l h) = hit_range l \<union> hit_range h"
      using True Cons.prems by (intro absorb_range) (simp_all add: hits_ok_def)
    ultimately show ?thesis using True merges_absorb by simp
  next
    case False
    have "merges (h_start h) n (h # hs) (merge_from h hs)"
      using Cons.prems by (intro Cons.IH) (auto simp: hits_ok_def)
    with False Cons.prems show ?thesis by (auto intro!: merges_Cons simp: hits_ok_def)
  qed
qed

lemma merges_mset:
  assumes "merges c n hs ms" and "set hs' = set hs" and "c' \<le> c"
  shows "merges c' n hs' ms"
  using assms intervals_mono [of c n "map hit_iv ms" c'] unfolding merges_def by simp

context hit_sort
begin

lemma merge_hits_ok:
  assumes "hits_ok n hits"
  shows "merges 0 n hits (merge_hits (srt hits))"
proof (cases "srt hits")
  case Nil
  with srt_set [of hits] show ?thesis by (simp add: merges_def)
next
  case (Cons l hs)
  have "merges (h_start l) n (l # hs) (merge_from l hs)"
    using srt_starts [of hits] srt_set [of hits] assms Cons by (intro merge_from_ok) (auto simp: hits_ok_def)
  then show ?thesis
    using Cons srt_set [of hits] by (auto simp: merge_hits_Cons intro: merges_mset)
qed

end

section \<open>The text position by position\<close>

definition masks :: "Action \<Rightarrow> bool" where
  "masks a \<longleftrightarrow> a \<noteq> ActionBlock \<and> a \<noteq> ActionAllow"

definition redact_at :: "string \<Rightarrow> Span list \<Rightarrow> nat \<Rightarrow> string" where
  "redact_at tx spans i =
     (case find (\<lambda>s. s_start s \<le> i \<and> i < s_end s) spans of
        None \<Rightarrow> [tx ! i]
      | Some s \<Rightarrow> if \<not> masks (s_action s) then [tx ! i] else if i = s_start s then maskFor (s_pattern s) else [])"

text \<open>The reference: a position in no masked span keeps its byte, the first one of a masked span becomes
  the placeholder and the others vanish.\<close>

definition redact_ref :: "string \<Rightarrow> Span list \<Rightarrow> string" where
  "redact_ref tx spans = concat (map (redact_at tx spans) [0..<length tx])"

abbreviation span_iv :: "Span \<Rightarrow> nat \<times> nat" where
  "span_iv s \<equiv> (s_start s, s_end s)"

lemma concat_singles: "(\<And>i. i \<in> set is \<Longrightarrow> f i = [tx ! i]) \<Longrightarrow> concat (map f is) = map ((!) tx) is"
  by (induction "is") auto

lemma map_nth_sub: "s \<le> e \<Longrightarrow> e \<le> length tx \<Longrightarrow> map ((!) tx) [s..<e] = sub tx s e"
  by (intro nth_equalityI) (auto simp: sub_def)

lemma redact_at_before:
  assumes "intervals c n (map span_iv spans)" and "i < c"
  shows "redact_at tx spans i = [tx ! i]"
proof -
  have "find (\<lambda>s. s_start s \<le> i \<and> i < s_end s) spans = None"
    using intervals_in [OF assms(1)] assms(2) by (force simp: find_None_iff)
  then show ?thesis by (simp add: redact_at_def)
qed

lemma redact_inside:
  assumes "s_start s < s_end s" and "s_end s \<le> length tx"
  shows "concat (map (redact_at tx (s # spans)) [s_start s..<s_end s]) =
    (if masks (s_action s) then maskFor (s_pattern s) else sub tx (s_start s) (s_end s))"
proof (cases "masks (s_action s)")
  case True
  have "[s_start s..<s_end s] = s_start s # [Suc (s_start s)..<s_end s]" using assms(1) by (rule upt_conv_Cons)
  moreover have "map (redact_at tx (s # spans)) [Suc (s_start s)..<s_end s] = map (\<lambda>_. []) [Suc (s_start s)..<s_end s]"
    using True by (intro map_cong) (auto simp: redact_at_def)
  ultimately show ?thesis using True assms(1) by (simp add: redact_at_def del: upt_Suc)
next
  case False
  then show ?thesis
    using assms by (subst concat_singles) (auto simp: redact_at_def map_nth_sub)
qed

lemma redact_split:
  assumes "intervals c (length tx) (map span_iv (s # spans))"
  shows "concat (map (redact_at tx (s # spans)) [c..<length tx]) =
    sub tx c (s_start s) @ (if masks (s_action s) then maskFor (s_pattern s) else sub tx (s_start s) (s_end s))
      @ concat (map (redact_at tx spans) [s_end s..<length tx])"
proof -
  have iv: "c \<le> s_start s" "s_start s < s_end s" "s_end s \<le> length tx" "intervals (s_end s) (length tx) (map span_iv spans)"
    using assms by simp_all
  then have "[c..<length tx] = [c..<s_start s] @ [s_start s..<s_end s] @ [s_end s..<length tx]"
    by (metis le_add_diff_inverse less_imp_le_nat order_trans upt_add_eq_append)
  moreover have "concat (map (redact_at tx (s # spans)) [c..<s_start s]) = sub tx c (s_start s)"
    using iv by (subst concat_singles) (auto intro!: map_nth_sub redact_at_before [where n = "length tx" and c = "s_start s"])
  moreover have "concat (map (redact_at tx (s # spans)) [s_end s..<length tx]) = concat (map (redact_at tx spans) [s_end s..<length tx])"
    by (intro arg_cong [where f = concat] map_cong) (auto simp: redact_at_def)
  ultimately show ?thesis using redact_inside [OF iv(2,3)] by simp
qed

definition span_of :: "(string \<Rightarrow> string) \<Rightarrow> string \<Rightarrow> rawHit \<Rightarrow> Span" where
  "span_of sha256 tx h = mk_span sha256 h (sub tx (h_start h) (h_end h))"

lemma span_of_simps [simp]:
  "s_start (span_of sha256 tx h) = h_start h" "s_end (span_of sha256 tx h) = h_end h"
  "s_pattern (span_of sha256 tx h) = h_pattern h" "s_action (span_of sha256 tx h) = h_action h"
  "s_score (span_of sha256 tx h) = h_score h"
  by (simp_all add: span_of_def mk_span_def)

lemma span_of_iv: "map span_iv (map (span_of sha256 tx) ms) = map hit_iv ms"
  by simp

text \<open>The emitted result for hits that are in order and apart.\<close>

lemma emit_loop_result:
  assumes "intervals c (length tx) (map hit_iv ms)" and "c \<le> length tx"
  shows "emit_loop sha256 tx ms c out res = Some (res\<lparr>
    Redacted := out @ concat (map (redact_at tx (map (span_of sha256 tx) ms)) [c..<length tx]),
    Spans := Spans res @ map (span_of sha256 tx) ms,
    Blocked := Blocked res \<or> (\<exists>m \<in> set ms. h_action m = ActionBlock),
    Masked := Masked res \<or> (\<exists>m \<in> set ms. masks (h_action m))\<rparr>)"
  using assms
proof (induction ms arbitrary: c out res)
  case Nil
  then have "concat (map (redact_at tx []) [c..<length tx]) = sub tx c (length tx)"
    by (subst concat_singles) (auto simp: redact_at_def map_nth_sub)
  with Nil show ?case by (simp add: substr_def)
next
  case (Cons h ms)
  then have iv: "c \<le> h_start h" "h_start h < h_end h" "h_end h \<le> length tx"
    "intervals (h_end h) (length tx) (map hit_iv ms)" by simp_all
  have split: "concat (map (redact_at tx (map (span_of sha256 tx) (h # ms))) [c..<length tx]) =
    sub tx c (h_start h) @ (if masks (h_action h) then maskFor (h_pattern h) else sub tx (h_start h) (h_end h))
      @ concat (map (redact_at tx (map (span_of sha256 tx) ms)) [h_end h..<length tx])"
    using redact_split [of c tx "span_of sha256 tx h" "map (span_of sha256 tx) ms"] Cons.prems(1) by (simp add: comp_def)
  have slices: "substr tx (h_start h) (h_end h) = Some (sub tx (h_start h) (h_end h))"
    "substr tx c (h_start h) = Some (sub tx c (h_start h))"
    using iv by (simp_all add: substr_def)
  note IH = Cons.IH [OF iv(4,3)]
  note step = slices IH Let_def span_of_def [symmetric]
  consider "h_action h = ActionBlock" | "h_action h = ActionAllow" "h_action h \<noteq> ActionBlock"
    | "masks (h_action h)" unfolding masks_def by blast
  then show ?case
  proof cases
    case 1
    then show ?thesis unfolding split by (simp add: step masks_def)
  next
    case 2
    then show ?thesis unfolding split by (simp add: step masks_def action_defs)
  next
    case 3
    then show ?thesis unfolding split by (simp add: step masks_def)
  qed
qed

lemma find_interval:
  "intervals c n (map span_iv spans) \<Longrightarrow> s \<in> set spans \<Longrightarrow> s_start s \<le> i \<Longrightarrow> i < s_end s
     \<Longrightarrow> find (\<lambda>s. s_start s \<le> i \<and> i < s_end s) spans = Some s"
proof (induction spans arbitrary: c)
  case (Cons x xs)
  show ?case
  proof (cases "s = x")
    case False
    with Cons.prems have s: "s \<in> set xs" by simp
    from Cons.prems(1) have iv: "intervals (s_end x) n (map span_iv xs)" by simp
    then have "s_end x \<le> s_start s" using intervals_in [OF iv, of "s_start s" "s_end s"] s by force
    with Cons.IH [OF iv s] Cons.prems(3,4) show ?thesis by simp
  qed (use Cons.prems in simp)
qed simp

text \<open>What a hit is to a span: \<open>inside\<close> means that the span covers it.\<close>

definition inside :: "rawHit \<Rightarrow> Span \<Rightarrow> bool" where
  "inside h s \<longleftrightarrow> s_start s \<le> h_start h \<and> h_end h \<le> s_end s"

lemma hit_range_inside:
  "h_start h < h_end h \<Longrightarrow> hit_range h \<subseteq> hit_range m \<Longrightarrow> inside h (span_of sha256 tx m)"
  by (force simp: inside_def hit_range_def atLeastLessThan_subset_iff)

text \<open>The whole step, over the merged hits.\<close>

context hit_sort
begin

lemma mergeAndEmit_merges:
  assumes "hits_ok (length tx) hits"
  shows "\<exists>ms. merges 0 (length tx) hits ms
    \<and> mergeAndEmit srt sha256 tx hits = Some \<lparr>Redacted = redact_ref tx (map (span_of sha256 tx) ms),
        Spans = map (span_of sha256 tx) ms, Blocked = (\<exists>m \<in> set ms. h_action m = ActionBlock),
        Masked = (\<exists>m \<in> set ms. masks (h_action m))\<rparr>"
proof (cases "hits = []")
  case True
  have "redact_ref tx [] = tx"
    unfolding redact_ref_def by (subst concat_singles) (auto simp: redact_at_def map_nth)
  with True show ?thesis by (auto simp: mergeAndEmit_def empty_result_def merges_def)
next
  case False
  have m: "merges 0 (length tx) hits (merge_hits (srt hits))" by (rule merge_hits_ok [OF assms])
  then have "intervals 0 (length tx) (map hit_iv (merge_hits (srt hits)))" by (simp add: merges_def)
  from emit_loop_result [OF this, of sha256 "[]" empty_result] False m show ?thesis
    by (auto simp: mergeAndEmit_def redact_ref_def empty_result_def)
qed

end

lemma merges_Blocked:
  assumes "merges c n hits ms"
  shows "(\<exists>m \<in> set ms. h_action m = ActionBlock) \<longleftrightarrow> (\<exists>h \<in> set hits. h_action h = ActionBlock)"
proof
  assume "\<exists>h \<in> set hits. h_action h = ActionBlock"
  with assms obtain m where "m \<in> set ms" "3 \<le> actionRank (h_action m)"
    unfolding merges_def by (metis actionRank_def)
  then show "\<exists>m \<in> set ms. h_action m = ActionBlock" by (auto simp: actionRank_def split: if_splits)
qed (use assms in \<open>unfold merges_def same_kind_def, metis\<close>)


section \<open>Properties\<close>

lemma merged_strongest:
  assumes "merges 0 n hits ms" and "hits_ok n hits" and "h \<in> set hits"
  shows "\<exists>s \<in> set (map (span_of sha256 tx) ms). inside h s \<and> actionRank (h_action h) \<le> actionRank (s_action s)"
proof -
  obtain m where "m \<in> set ms" "hit_range h \<subseteq> hit_range m" "actionRank (h_action h) \<le> actionRank (h_action m)"
    using assms(1,3) unfolding merges_def by blast
  moreover have "h_start h < h_end h" using assms(2,3) by (auto simp: hits_ok_def)
  ultimately show ?thesis using hit_range_inside [of h m sha256 tx] by auto
qed

lemma merged_source:
  assumes "merges 0 n hits ms" and "hits_ok n hits" and "s \<in> set (map (span_of sha256 tx) ms)"
  shows "\<exists>h \<in> set hits. inside h s \<and> s_action s = h_action h \<and> s_pattern s = h_pattern h \<and> s_score s = h_score h"
proof -
  obtain m where m: "m \<in> set ms" "s = span_of sha256 tx m" using assms(3) by auto
  then obtain h where h: "h \<in> set hits" "hit_range h \<subseteq> hit_range m" "same_kind m h"
    using assms(1) unfolding merges_def by blast
  moreover have "h_start h < h_end h" using assms(2) h(1) by (auto simp: hits_ok_def)
  ultimately show ?thesis using hit_range_inside [of h m sha256 tx] m(2) by (auto simp: same_kind_def)
qed

lemma merged_cover:
  assumes "merges 0 n hits ms"
  shows "(\<exists>s \<in> set (map (span_of sha256 tx) ms). s_start s \<le> i \<and> i < s_end s) \<longleftrightarrow> (\<exists>h \<in> set hits. h_start h \<le> i \<and> i < h_end h)"
proof -
  have "i \<in> (\<Union>m \<in> set ms. hit_range m) \<longleftrightarrow> i \<in> (\<Union>h \<in> set hits. hit_range h)"
    using assms by (simp add: merges_def)
  then show ?thesis by (simp add: hit_range_def)
qed

lemma mergeAndEmit_result:
  assumes "hit_sort srt" and "hits_ok (length tx) hits"
  obtains res ms where "mergeAndEmit srt sha256 tx hits = Some res" and "merges 0 (length tx) hits ms"
    and "Spans res = map (span_of sha256 tx) ms"
    and "Blocked res \<longleftrightarrow> (\<exists>m \<in> set ms. h_action m = ActionBlock)"
    and "Masked res \<longleftrightarrow> (\<exists>s \<in> set (Spans res). masks (s_action s))"
    and "Redacted res = redact_ref tx (Spans res)"
proof -
  obtain ms where ms: "merges 0 (length tx) hits ms"
    and res: "mergeAndEmit srt sha256 tx hits = Some \<lparr>Redacted = redact_ref tx (map (span_of sha256 tx) ms),
        Spans = map (span_of sha256 tx) ms, Blocked = (\<exists>m \<in> set ms. h_action m = ActionBlock),
        Masked = (\<exists>m \<in> set ms. masks (h_action m))\<rparr>"
    using hit_sort.mergeAndEmit_merges [OF assms] by blast
  show thesis by (rule that [OF res ms]) simp_all
qed

lemma redact_at_uncovered: "\<not> (\<exists>s \<in> set spans. s_start s \<le> i \<and> i < s_end s) \<Longrightarrow> redact_at tx spans i = [tx ! i]"
  by (auto simp: redact_at_def find_Some_iff split: option.split)

lemma redact_ref_unmasked: "\<not> (\<exists>s \<in> set spans. masks (s_action s)) \<Longrightarrow> redact_ref tx spans = tx"
  unfolding redact_ref_def
  by (subst concat_singles) (auto simp: redact_at_def find_Some_iff map_nth split: option.split)

text \<open>C32: For detections within the text \<^verbatim>\<open>mergeAndEmit\<close> returns, whatever order equal ones are sorted in.
  The spans are in order, not empty, apart and within the text, and cover exactly the detected
  positions; each detection lies in a span of at least its rank, and each span carries the
  action, pattern and score of a detection in it and the hash of its own text. The request is blocked exactly when a
  detection says so.\<close>

theorem mergeAndEmit_spans:
  assumes "hit_sort srt" and "hits_ok (length tx) hits"
  shows "\<exists>res. mergeAndEmit srt sha256 tx hits = Some res
    \<and> intervals 0 (length tx) (map span_iv (Spans res))
    \<and> (\<forall>i. (\<exists>s \<in> set (Spans res). s_start s \<le> i \<and> i < s_end s) \<longleftrightarrow> (\<exists>h \<in> set hits. h_start h \<le> i \<and> i < h_end h))
    \<and> (\<forall>h \<in> set hits. \<exists>s \<in> set (Spans res). inside h s \<and> actionRank (h_action h) \<le> actionRank (s_action s))
    \<and> (\<forall>s \<in> set (Spans res). s_hash s = hashPrefix sha256 (sub tx (s_start s) (s_end s))
         \<and> (\<exists>h \<in> set hits. inside h s \<and> s_action s = h_action h \<and> s_pattern s = h_pattern h \<and> s_score s = h_score h))
    \<and> (Blocked res \<longleftrightarrow> (\<exists>h \<in> set hits. h_action h = ActionBlock))
    \<and> (Masked res \<longleftrightarrow> (\<exists>s \<in> set (Spans res). masks (s_action s)))"
proof -
  obtain res ms where res: "mergeAndEmit srt sha256 tx hits = Some res" and ms: "merges 0 (length tx) hits ms"
    and spans: "Spans res = map (span_of sha256 tx) ms"
    and flags: "Blocked res \<longleftrightarrow> (\<exists>m \<in> set ms. h_action m = ActionBlock)" "Masked res \<longleftrightarrow> (\<exists>s \<in> set (Spans res). masks (s_action s))"
    by (rule mergeAndEmit_result [OF assms])
  have "intervals 0 (length tx) (map span_iv (Spans res))"
    using ms unfolding merges_def spans span_of_iv by blast
  moreover have "\<forall>s \<in> set (Spans res). s_hash s = hashPrefix sha256 (sub tx (s_start s) (s_end s))"
    by (simp add: spans span_of_def mk_span_def)
  moreover note merged_cover [OF ms, of sha256 tx, folded spans]
    merged_strongest [OF ms assms(2), of _ sha256 tx, folded spans]
    merged_source [OF ms assms(2), of _ sha256 tx, folded spans] merges_Blocked [OF ms]
  ultimately show ?thesis using res flags by blast
qed

text \<open>Two overlapping detections of different strength, and one apart from them.\<close>

definition wit_hits :: "rawHit list" where
  "wit_hits =
     [\<lparr>h_pattern = ''ner:MAIL'', h_action = ActionMask, h_start = 6, h_end = 9, h_score = 1\<rparr>,
      \<lparr>h_pattern = ''ner:PER'', h_action = ActionMask, h_start = 1, h_end = 3, h_score = 1\<rparr>,
      \<lparr>h_pattern = ''ner:LOC'', h_action = ActionAllow, h_start = 0, h_end = 2, h_score = 2\<rparr>]"

lemma wit_hits_ok: "hits_ok (length ''bob to x@y.'') wit_hits"
  by (simp add: hits_ok_def wit_hits_def)

theorem mergeAndEmit_spans_witness:
  "\<exists>res. mergeAndEmit (go_sort hit_less) (\<lambda>v. v) ''bob to x@y.'' wit_hits = Some res
    \<and> intervals 0 (length ''bob to x@y.'') (map span_iv (Spans res)) \<and> \<not> Blocked res"
proof -
  obtain res where "mergeAndEmit (go_sort hit_less) (\<lambda>v. v) ''bob to x@y.'' wit_hits = Some res"
    "intervals 0 (length ''bob to x@y.'') (map span_iv (Spans res))"
    "Blocked res \<longleftrightarrow> (\<exists>h \<in> set wit_hits. h_action h = ActionBlock)"
    using mergeAndEmit_spans [OF hit_sort_lib.hit_sort_axioms wit_hits_ok, of "\<lambda>v. v"] by blast
  then show ?thesis by (simp add: wit_hits_def)
qed

text \<open>C33: The redacted text, position by position: outside the detections every byte is kept, and unless
  the request is blocked no byte of a detection with action mask is: its positions hold the placeholder
  of a detected pattern or nothing. Without detections to mask the text is unchanged.\<close>

theorem mergeAndEmit_redacts:
  assumes "hit_sort srt" and "hits_ok (length tx) hits" and "mergeAndEmit srt sha256 tx hits = Some res"
  shows "Redacted res = concat (map (redact_at tx (Spans res)) [0..<length tx])
    \<and> (\<forall>i. \<not> (\<exists>h \<in> set hits. h_start h \<le> i \<and> i < h_end h) \<longrightarrow> redact_at tx (Spans res) i = [tx ! i])
    \<and> (\<not> Blocked res \<longrightarrow> (\<forall>h \<in> set hits. h_action h = ActionMask \<longrightarrow> (\<forall>i. h_start h \<le> i \<and> i < h_end h \<longrightarrow>
         redact_at tx (Spans res) i \<in> insert [] ((\<lambda>h. maskFor (h_pattern h)) ` set hits))))
    \<and> (\<not> Masked res \<longrightarrow> Redacted res = tx)"
proof -
  obtain res1 ms where r: "mergeAndEmit srt sha256 tx hits = Some res1" and ms: "merges 0 (length tx) hits ms"
    and result: "Spans res1 = map (span_of sha256 tx) ms" "Blocked res1 \<longleftrightarrow> (\<exists>m \<in> set ms. h_action m = ActionBlock)"
      "Masked res1 \<longleftrightarrow> (\<exists>s \<in> set (Spans res1). masks (s_action s))" "Redacted res1 = redact_ref tx (Spans res1)"
    by (rule mergeAndEmit_result [OF assms(1,2)])
  have "res1 = res" using r assms(3) by simp
  note spans = result(1) [unfolded this] and blocked = result(2) [unfolded this]
    and masked = result(3) [unfolded this] and red = result(4) [unfolded this]
  have iv: "intervals 0 (length tx) (map span_iv (Spans res))"
    using ms unfolding merges_def spans span_of_iv by blast
  have outside: "redact_at tx (Spans res) i = [tx ! i]" if "\<not> (\<exists>h \<in> set hits. h_start h \<le> i \<and> i < h_end h)" for i
    using that merged_cover [OF ms, of sha256 tx, folded spans] by (intro redact_at_uncovered) blast
  have "redact_at tx (Spans res) i \<in> insert [] ((\<lambda>h. maskFor (h_pattern h)) ` set hits)"
    if prem: "\<not> Blocked res" "h \<in> set hits" "h_action h = ActionMask" "h_start h \<le> i" "i < h_end h" for h i
  proof -
    obtain s where s: "s \<in> set (Spans res)" "inside h s" "2 \<le> actionRank (s_action s)"
      using merged_strongest [OF ms assms(2) prem(2), of sha256 tx, folded spans] prem(3) by (auto simp: actionRank_def action_defs)
    then have "masks (s_action s)" using prem(1) blocked spans by (auto simp: masks_def actionRank_def split: if_splits)
    then have "redact_at tx (Spans res) i = (if i = s_start s then maskFor (s_pattern s) else [])"
      using s(1,2) prem(4,5) find_interval [OF iv s(1), of i] by (simp add: redact_at_def inside_def)
    moreover obtain g where "g \<in> set hits" "s_pattern s = h_pattern g"
      using merged_source [OF ms assms(2), of s sha256 tx, folded spans] s(1) by blast
    ultimately show ?thesis by simp
  qed
  moreover have "Redacted res = tx" if "\<not> Masked res"
    using that masked red redact_ref_unmasked by metis
  ultimately show ?thesis using outside red by (simp add: redact_ref_def)
qed


theorem mergeAndEmit_redacts_witness:
  "\<exists>res. mergeAndEmit (go_sort hit_less) (\<lambda>v. v) ''bob to x@y.'' wit_hits = Some res \<and> \<not> Blocked res
    \<and> redact_at ''bob to x@y.'' (Spans res) 7 \<in> insert [] ((\<lambda>h. maskFor (h_pattern h)) ` set wit_hits)"
proof -
  obtain res ms where res: "mergeAndEmit (go_sort hit_less) (\<lambda>v. v) ''bob to x@y.'' wit_hits = Some res"
    and ms: "merges 0 (length ''bob to x@y.'') wit_hits ms" and "Blocked res \<longleftrightarrow> (\<exists>m \<in> set ms. h_action m = ActionBlock)"
    by (rule mergeAndEmit_result [OF hit_sort_lib.hit_sort_axioms wit_hits_ok])
  then have b: "\<not> Blocked res" using merges_Blocked [OF ms] by (simp add: wit_hits_def)
  have "wit_hits ! 0 \<in> set wit_hits" "h_action (wit_hits ! 0) = ActionMask"
    "h_start (wit_hits ! 0) \<le> 7 \<and> 7 < h_end (wit_hits ! 0)"
    by (simp_all add: wit_hits_def)
  then have "redact_at ''bob to x@y.'' (Spans res) 7 \<in> insert [] ((\<lambda>h. maskFor (h_pattern h)) ` set wit_hits)"
    using mergeAndEmit_redacts [OF hit_sort_lib.hit_sort_axioms wit_hits_ok res] b by blast
  with res b show ?thesis by blast
qed

end
