(* ===== verification/PiiRedactor.thy ===== *)
theory PiiRedactor
  imports PiiShield PiiMerge
begin

text \<open>
  The redactor of the PII filter: detectors and their policy (\<open>ner.go\<close>), the detections of one
  detector (\<open>collectNERHits\<close>), the scan of one text (\<open>RedactNER\<close>) and of the messages of a request as one
  document (\<open>RedactNERSegments\<close>). A detector is a model behind an interface: a function from the scanned text to an
  error or the entities it finds, with no assumption on the offsets. The matcher of the protected terms is an argument;
  that its matches are in order and apart is the only thing assumed of it.
\<close>

section \<open>Detectors and policy\<close>

record NEREntity =
  e_group :: string
  e_start :: int
  e_end :: int
  e_score :: f32
  e_text :: string

record NERConfig =
  Detector :: "(string \<Rightarrow> string + NEREntity list) option"
  MinScore :: f32
  EntityActions :: "(string, Action) gomap"
  DefaultAction :: Action
  Source :: string
  ExtendToNextWord :: "string list"
  ExtendToPreviousWord :: "string list"
  ProtectedTerms :: "string list"

definition SourceNER :: string where "SourceNER = ''ner''"

definition ResolveAction :: "NERConfig \<Rightarrow> string \<Rightarrow> Action option" where
  "ResolveAction c grp =
     (case gm_get (EntityActions c) grp of
        Some a \<Rightarrow> Some a
      | None \<Rightarrow> if DefaultAction c \<noteq> [] then Some (DefaultAction c) else None)"

definition validAction :: "string \<Rightarrow> Action" where
  "validAction raw = (if raw \<in> {ActionMask, ActionBlock, ActionAllow} then raw else [])"

definition validActionOr :: "string \<Rightarrow> Action \<Rightarrow> Action" where
  "validActionOr raw fallback = (if validAction raw \<noteq> [] then validAction raw else fallback)"

definition validActions :: "(string, string) gomap \<Rightarrow> (string, Action) gomap" where
  "validActions raw =
     fold (\<lambda>(grp, action) out. if validAction action \<noteq> [] then gm_put grp (validAction action) out else out) raw []"

definition NERConfigFromRaw ::
  "(string \<Rightarrow> string + NEREntity list) option \<Rightarrow> f32 \<Rightarrow> string \<Rightarrow> (string, string) gomap \<Rightarrow> string \<Rightarrow> NERConfig" where
  "NERConfigFromRaw detector minScore defaultAction entityActions source =
     \<lparr>Detector = detector, MinScore = minScore, EntityActions = validActions entityActions,
      DefaultAction = validActionOr defaultAction ActionMask,
      Source = (if source = [] then SourceNER else source),
      ExtendToNextWord = [], ExtendToPreviousWord = [], ProtectedTerms = []\<rparr>"

definition extendsToNextWord :: "NERConfig \<Rightarrow> string \<Rightarrow> bool" where
  "extendsToNextWord c grp \<longleftrightarrow> grp \<in> set (ExtendToNextWord c)"

definition extendsToPreviousWord :: "NERConfig \<Rightarrow> string \<Rightarrow> bool" where
  "extendsToPreviousWord c grp \<longleftrightarrow> grp \<in> set (ExtendToPreviousWord c)"

definition patternID :: "NERConfig \<Rightarrow> string \<Rightarrow> string" where
  "patternID c grp = (if Source c = [] then SourceNER else Source c) @ '':'' @ grp"

definition NewErrNERDetector :: "string \<Rightarrow> string \<Rightarrow> string + NEREntity list" where
  "NewErrNERDetector msg = (\<lambda>tx. Inl msg)"

section \<open>The detections of one detector\<close>

type_synonym matcher = "string list \<Rightarrow> (string \<Rightarrow> (nat \<times> nat) list) option"

definition piece_hit ::
  "unicode \<Rightarrow> string \<Rightarrow> NERConfig \<Rightarrow> shield list \<Rightarrow> NEREntity \<Rightarrow> Action \<Rightarrow> nat \<Rightarrow> nat \<times> (nat \<times> nat) \<Rightarrow> rawHit" where
  "piece_hit u tx cfg shields e action np ipc =
     (case ipc of (i, start, stop) \<Rightarrow>
        \<lparr>h_pattern = patternID cfg (e_group e), h_action = action,
         h_start =
           (if extendsToPreviousWord cfg (e_group e) \<and> i = 0
            then keepExtensionBefore start (prevWordStart u tx start) shields else start),
         h_end =
           (if extendsToNextWord cfg (e_group e) \<and> i = np - 1
            then keepExtension stop (nextWordEnd u tx stop) shields else stop),
         h_score = e_score e\<rparr>)"

definition entity_hits ::
  "unicode \<Rightarrow> string \<Rightarrow> nat \<Rightarrow> NERConfig \<Rightarrow> shield list \<Rightarrow> NEREntity \<Rightarrow> rawHit list" where
  "entity_hits u tx scanLen cfg shields e =
     (if f32_less (e_score e) (MinScore cfg) then []
      else case ResolveAction cfg (e_group e) of
        None \<Rightarrow> []
      | Some action \<Rightarrow>
          if e_start e < 0 \<or> e_end e \<le> e_start e \<or> e_end e > int scanLen then []
          else let pieces = if shields \<noteq> []
                            then trimSpans u tx (unshieldSpan (nat (e_start e)) (nat (e_end e)) shields)
                            else [(nat (e_start e), nat (e_end e))]
               in map (piece_hit u tx cfg shields e action (length pieces)) (enumerate 0 pieces))"

definition collectNERHits ::
  "unicode \<Rightarrow> matcher \<Rightarrow> string \<Rightarrow> NERConfig \<Rightarrow> (string + rawHit list) option" where
  "collectNERHits u protectedMatcher tx cfg =
     (case Detector cfg of
        None \<Rightarrow> Some (Inr [])
      | Some detect \<Rightarrow>
          if tx = [] then Some (Inr [])
          else case shieldProtected u tx (protectedMatcher (ProtectedTerms cfg)) of
            None \<Rightarrow> None
          | Some (scan, shields) \<Rightarrow>
              (case detect scan of
                 Inl err \<Rightarrow> Some (Inl err)
               | Inr entities \<Rightarrow>
                   Some (Inr (concat (map (entity_hits u tx (length scan) cfg shields) entities)))))"

text \<open>The loop over the detectors: the hits of those that succeed and the first error.\<close>

fun collect_loop ::
  "unicode \<Rightarrow> matcher \<Rightarrow> string \<Rightarrow> NERConfig list \<Rightarrow> rawHit list \<Rightarrow> string option \<Rightarrow> (rawHit list \<times> string option) option" where
  "collect_loop u protectedMatcher tx [] hits firstErr = Some (hits, firstErr)"
| "collect_loop u protectedMatcher tx (cfg # cfgs) hits firstErr =
     (if Detector cfg = None then collect_loop u protectedMatcher tx cfgs hits firstErr
      else case collectNERHits u protectedMatcher tx cfg of
        None \<Rightarrow> None
      | Some (Inl err) \<Rightarrow>
          collect_loop u protectedMatcher tx cfgs hits (if firstErr = None then Some err else firstErr)
      | Some (Inr h) \<Rightarrow> collect_loop u protectedMatcher tx cfgs (hits @ h) firstErr)"

section \<open>Redacting one text and several\<close>

definition RedactNER ::
  "unicode \<Rightarrow> matcher \<Rightarrow> (rawHit list \<Rightarrow> rawHit list) \<Rightarrow> (string \<Rightarrow> string) \<Rightarrow> string \<Rightarrow> NERConfig list
     \<Rightarrow> (Result \<times> string option) option" where
  "RedactNER u protectedMatcher srt sha256 tx cfgs =
     (if tx = [] \<or> cfgs = [] then Some (empty_result\<lparr>Redacted := tx\<rparr>, None)
      else case collect_loop u protectedMatcher tx cfgs [] None of
        None \<Rightarrow> None
      | Some (hits, firstErr) \<Rightarrow> map_option (\<lambda>res. (res, firstErr)) (mergeAndEmit srt sha256 tx hits))"

definition segmentSeparator :: string where
  "segmentSeparator = [CHR 0x0A, CHR 0x0A]"

fun join_loop :: "string list \<Rightarrow> nat \<Rightarrow> string \<Rightarrow> (nat \<times> nat) list \<Rightarrow> string \<times> (nat \<times> nat) list" where
  "join_loop [] i joined offs = (joined, offs)"
| "join_loop (t # ts) i joined offs =
     (let j1 = if i > 0 then joined @ segmentSeparator else joined; j2 = j1 @ t
      in join_loop ts (i + 1) j2 (offs @ [(length j1, length j2)]))"

definition clip_hit :: "nat \<times> nat \<Rightarrow> rawHit \<Rightarrow> rawHit list" where
  "clip_hit seg h =
     (case seg of (start0, end0) \<Rightarrow>
        let s = max (h_start h) start0; e = min (h_end h) end0
        in if s \<ge> e then [] else [h\<lparr>h_start := s - start0, h_end := e - start0\<rparr>])"

definition segment_hits :: "rawHit list \<Rightarrow> nat \<times> nat \<Rightarrow> rawHit list" where
  "segment_hits hits seg = concat (map (clip_hit seg) hits)"

definition RedactNERSegments ::
  "unicode \<Rightarrow> matcher \<Rightarrow> (rawHit list \<Rightarrow> rawHit list) \<Rightarrow> (string \<Rightarrow> string) \<Rightarrow> string list \<Rightarrow> NERConfig list
     \<Rightarrow> (Result list \<times> string option) option" where
  "RedactNERSegments u protectedMatcher srt sha256 texts cfgs =
     (if texts = [] \<or> cfgs = [] then Some (map (\<lambda>t. empty_result\<lparr>Redacted := t\<rparr>) texts, None)
      else let (doc, offs) = join_loop texts 0 [] []
           in case collect_loop u protectedMatcher doc cfgs [] None of
             None \<Rightarrow> None
           | Some (hits, firstErr) \<Rightarrow>
               map_option (\<lambda>results. (results, firstErr))
                 (those (map2 (\<lambda>t seg. mergeAndEmit srt sha256 t (segment_hits hits seg)) texts offs)))"


section \<open>Detections stay in the text and off the protected terms\<close>

definition matches_ok :: "matcher \<Rightarrow> bool" where
  "matches_ok pm \<longleftrightarrow> (\<forall>terms f tx. pm terms = Some f \<longrightarrow> intervals 0 (length tx) (f tx))"

definition clear_of :: "(nat \<times> nat) list \<Rightarrow> nat \<Rightarrow> nat \<Rightarrow> bool" where
  "clear_of ms x y \<longleftrightarrow> (\<forall>(s, e) \<in> set ms. y \<le> s \<or> e \<le> x)"

abbreviation orig_iv :: "shield \<Rightarrow> nat \<times> nat" where
  "orig_iv r \<equiv> (origStart r, origEnd r)"

lemma keepExtension_clear:
  "clear_of (map orig_iv rs) x y \<Longrightarrow> clear_of (map orig_iv rs) x (keepExtension y y' rs)"
  by (fastforce simp: clear_of_def keepExtension_def)

lemma keepExtensionBefore_clear:
  "clear_of (map orig_iv rs) x y \<Longrightarrow> clear_of (map orig_iv rs) (keepExtensionBefore x x' rs) y"
  by (fastforce simp: clear_of_def keepExtensionBefore_def)

lemma piece_hit_ok:
  assumes "x < y" and "y \<le> length tx" and "clear_of (map orig_iv rs) x y"
    and "h = piece_hit u tx cfg rs e a n (i, x, y)"
  shows "h_start h \<le> x" and "y \<le> h_end h" and "h_end h \<le> length tx" and "clear_of (map orig_iv rs) (h_start h) (h_end h)"
proof -
  have "keepExtensionBefore x (prevWordStart u tx x) rs \<le> x"
    using prevWordStart_le by (simp add: keepExtensionBefore_def)
  moreover have "y \<le> keepExtension y (nextWordEnd u tx y) rs" "keepExtension y (nextWordEnd u tx y) rs \<le> length tx"
    using nextWordEnd_range assms(2) by (auto simp: keepExtension_def)
  ultimately show "h_start h \<le> x" "y \<le> h_end h" "h_end h \<le> length tx" "clear_of (map orig_iv rs) (h_start h) (h_end h)"
    using assms by (auto simp: piece_hit_def keepExtension_clear keepExtensionBefore_clear)
qed

definition pieces_of :: "unicode \<Rightarrow> string \<Rightarrow> shield list \<Rightarrow> NEREntity \<Rightarrow> (nat \<times> nat) list" where
  "pieces_of u tx shields e =
     (if shields \<noteq> [] then trimSpans u tx (unshieldSpan (nat (e_start e)) (nat (e_end e)) shields)
      else [(nat (e_start e), nat (e_end e))])"

lemma pieces_ok:
  assumes "scan_fits tx scan shields" and "(x, y) \<in> set (pieces_of u tx shields e)"
    and "0 \<le> e_start e" "e_start e < e_end e" "e_end e \<le> int (length scan)"
  shows "x < y" and "y \<le> length tx" and "clear_of (map orig_iv shields) x y"
proof -
  have "x < y \<and> y \<le> length tx \<and> clear_of (map orig_iv shields) x y"
  proof (cases "shields = []")
    case True
    with assms show ?thesis by (auto simp: pieces_of_def scan_fits_def clear_of_def)
  next
    case False
    with assms(2) obtain x0 y0 where p: "(x0, y0) \<in> set (unshieldSpan (nat (e_start e)) (nat (e_end e)) shields)"
      "trim_span u tx (x0, y0) = (x, y)" "x < y" by (auto simp: pieces_of_def trimSpans_def)
    have "nat (e_end e) \<le> length scan" using assms(5) by linarith
    note avoid = unshieldSpan_avoids [OF assms(1) p(1) this]
    from trim_span_range [OF _ p(2)] avoid(1) have "x0 \<le> x" "y \<le> y0" by auto
    with avoid p(3) show ?thesis by (fastforce simp: clear_of_def)
  qed
  then show "x < y" and "y \<le> length tx" and "clear_of (map orig_iv shields) x y" by auto
qed

text \<open>An entity that passes the policy, with the action it gets.\<close>

definition accepted :: "NERConfig \<Rightarrow> nat \<Rightarrow> NEREntity \<Rightarrow> Action \<Rightarrow> bool" where
  "accepted cfg n e a \<longleftrightarrow> \<not> f32_less (e_score e) (MinScore cfg) \<and> ResolveAction cfg (e_group e) = Some a
     \<and> 0 \<le> e_start e \<and> e_start e < e_end e \<and> e_end e \<le> int n"

lemma entity_hits_accepted:
  "accepted cfg n e a \<Longrightarrow> entity_hits u tx n cfg shields e =
     map (piece_hit u tx cfg shields e a (length (pieces_of u tx shields e))) (enumerate 0 (pieces_of u tx shields e))"
  by (simp add: accepted_def entity_hits_def pieces_of_def Let_def)

lemma entity_hits_in_accepted: "h \<in> set (entity_hits u tx n cfg shields e) \<Longrightarrow> \<exists>a. accepted cfg n e a"
  by (cases "ResolveAction cfg (e_group e)") (auto simp: entity_hits_def accepted_def split: if_splits)

lemma entity_hits_ok:
  assumes "scan_fits tx scan shields" and "h \<in> set (entity_hits u tx (length scan) cfg shields e)"
  shows "h_start h < h_end h \<and> h_end h \<le> length tx \<and> clear_of (map orig_iv shields) (h_start h) (h_end h)"
proof -
  obtain a where a: "accepted cfg (length scan) e a" using entity_hits_in_accepted [OF assms(2)] by blast
  with assms(2) obtain i x y where i: "(i, x, y) \<in> set (enumerate 0 (pieces_of u tx shields e))"
    and h: "h = piece_hit u tx cfg shields e a (length (pieces_of u tx shields e)) (i, x, y)"
    by (auto simp: entity_hits_accepted)
  from i have "(x, y) \<in> set (pieces_of u tx shields e)" by (metis enumerate_eq_zip set_zip_rightD)
  note pc = pieces_ok [OF assms(1) this]
  from a have "0 \<le> e_start e" "e_start e < e_end e" "e_end e \<le> int (length scan)" by (auto simp: accepted_def)
  note pc = pc [OF this]
  from piece_hit_ok [OF pc h] pc(1) show ?thesis by simp
qed

lemma collectNERHits_ok:
  assumes "matches_ok pm"
  shows "\<exists>r. collectNERHits u pm tx cfg = Some r \<and> (\<forall>hits. r = Inr hits \<longrightarrow> hits_ok (length tx) hits
    \<and> (\<forall>h \<in> set hits. clear_of (protected_matches u tx (pm (ProtectedTerms cfg))) (h_start h) (h_end h)))"
proof -
  obtain scan shields where s: "shieldProtected u tx (pm (ProtectedTerms cfg)) = Some (scan, shields)" "scan_fits tx scan shields"
    using shieldProtected_ok [of "pm (ProtectedTerms cfg)" tx u] assms by (auto simp: matches_ok_def)
  note regions = shieldProtected_regions [OF s(1), symmetric]
  show ?thesis
    using entity_hits_ok [OF s(2)]
    by (auto simp: collectNERHits_def s(1) hits_ok_def regions split: option.splits sum.splits)
qed


section \<open>All detectors\<close>

definition det_hits :: "unicode \<Rightarrow> matcher \<Rightarrow> string \<Rightarrow> NERConfig \<Rightarrow> rawHit list" where
  "det_hits u pm tx cfg = (case collectNERHits u pm tx cfg of Some (Inr hits) \<Rightarrow> hits | _ \<Rightarrow> [])"

definition det_err :: "unicode \<Rightarrow> matcher \<Rightarrow> string \<Rightarrow> NERConfig \<Rightarrow> string option" where
  "det_err u pm tx cfg = (case collectNERHits u pm tx cfg of Some (Inl err) \<Rightarrow> Some err | _ \<Rightarrow> None)"

definition first_err :: "unicode \<Rightarrow> matcher \<Rightarrow> string \<Rightarrow> NERConfig list \<Rightarrow> string option" where
  "first_err u pm tx cfgs = (case List.map_filter (det_err u pm tx) cfgs of [] \<Rightarrow> None | err # _ \<Rightarrow> Some err)"

abbreviation all_hits :: "unicode \<Rightarrow> matcher \<Rightarrow> string \<Rightarrow> NERConfig list \<Rightarrow> rawHit list" where
  "all_hits u pm tx cfgs \<equiv> concat (map (det_hits u pm tx) cfgs)"

lemma first_err_Cons: "first_err u pm tx (cfg # cfgs) = (case det_err u pm tx cfg of None \<Rightarrow> first_err u pm tx cfgs | Some err \<Rightarrow> Some err)"
  by (simp add: first_err_def map_filter_simps split: option.split)

lemma first_err_None: "first_err u pm tx cfgs = None \<longleftrightarrow> (\<forall>cfg \<in> set cfgs. det_err u pm tx cfg = None)"
  by (induction cfgs) (auto simp: first_err_Cons first_err_def map_filter_simps split: option.split)

lemma collect_loop_result:
  assumes "matches_ok pm"
  shows "collect_loop u pm tx cfgs hits e0 =
    Some (hits @ all_hits u pm tx cfgs, if e0 = None then first_err u pm tx cfgs else e0)"
proof (induction cfgs arbitrary: hits e0)
  case Nil
  then show ?case by (cases e0) (simp_all add: first_err_def map_filter_simps)
next
  case (Cons cfg cfgs)
  obtain r where r: "collectNERHits u pm tx cfg = Some r" using collectNERHits_ok [OF assms] by blast
  show ?case
  proof (cases r)
    case (Inl err)
    with r have "Detector cfg \<noteq> None" by (cases "Detector cfg") (auto simp: collectNERHits_def)
    with Inl r Cons.IH show ?thesis by (auto simp: det_hits_def det_err_def first_err_Cons)
  next
    case (Inr h)
    moreover have "h = []" if "Detector cfg = None" using that r Inr by (simp add: collectNERHits_def)
    ultimately show ?thesis using r Cons.IH by (auto simp: det_hits_def det_err_def first_err_Cons)
  qed
qed

lemma det_hits_ok:
  assumes "matches_ok pm"
  shows "hits_ok (length tx) (det_hits u pm tx cfg)"
    and "h \<in> set (det_hits u pm tx cfg) \<Longrightarrow> clear_of (protected_matches u tx (pm (ProtectedTerms cfg))) (h_start h) (h_end h)"
  using collectNERHits_ok [OF assms, of u tx cfg] by (auto simp: det_hits_def hits_ok_def split: sum.splits)

lemma all_hits_ok: "matches_ok pm \<Longrightarrow> hits_ok (length tx) (all_hits u pm tx cfgs)"
  using det_hits_ok(1) by (auto simp: hits_ok_def)

lemma det_hits_Nil: "det_hits u pm [] cfg = []" "det_err u pm [] cfg = None"
  by (simp_all add: det_hits_def det_err_def collectNERHits_def split: option.split)

lemma det_hits_no_detector: "Detector cfg = None \<Longrightarrow> det_hits u pm tx cfg = []"
  by (simp add: det_hits_def collectNERHits_def)

text \<open>\<^verbatim>\<open>RedactNER\<close> is the merge of the hits of all detectors, also where it returns early.\<close>

lemma RedactNER_result:
  assumes "matches_ok pm"
  shows "RedactNER u pm srt sha256 tx cfgs =
    map_option (\<lambda>res. (res, first_err u pm tx cfgs)) (mergeAndEmit srt sha256 tx (all_hits u pm tx cfgs))"
proof (cases "tx = [] \<or> cfgs = []")
  case True
  then have "all_hits u pm tx cfgs = []" "first_err u pm tx cfgs = None"
    by (auto simp: det_hits_Nil first_err_None)
  with True show ?thesis by (simp add: RedactNER_def mergeAndEmit_def)
next
  case False
  then show ?thesis by (simp add: RedactNER_def collect_loop_result [OF assms])
qed

end
