(* ===== verification/PiiRedactorProps.thy ===== *)
theory PiiRedactorProps
  imports PiiRedactor
begin

text \<open>
  What the redactor promises over all detectors: protected terms survive, accepted detections are
  acted upon, scanning the messages of a request together agrees with scanning the joined document, and the policy of a
  configuration built from raw strings knows only the three actions.
\<close>

section \<open>Protected terms and accepted detections\<close>

lemma RedactNER_spans:
  assumes "hit_sort srt" and "matches_ok pm"
  obtains res ms where "RedactNER u pm srt sha256 tx cfgs = Some (res, first_err u pm tx cfgs)"
    and "merges 0 (length tx) (all_hits u pm tx cfgs) ms" and "Spans res = map (span_of sha256 tx) ms"
    and "Redacted res = redact_ref tx (Spans res)"
    and "Blocked res \<longleftrightarrow> (\<exists>h \<in> set (all_hits u pm tx cfgs). h_action h = ActionBlock)"
proof -
  obtain res ms where r: "mergeAndEmit srt sha256 tx (all_hits u pm tx cfgs) = Some res"
    "merges 0 (length tx) (all_hits u pm tx cfgs) ms" "Spans res = map (span_of sha256 tx) ms"
    "Redacted res = redact_ref tx (Spans res)" "Blocked res \<longleftrightarrow> (\<exists>m \<in> set ms. h_action m = ActionBlock)"
    by (rule mergeAndEmit_result [OF assms(1) all_hits_ok [OF assms(2), of tx u cfgs]])
  show thesis
    by (rule that [of res ms])
      (use r RedactNER_result [OF assms(2), of u srt sha256 tx cfgs] merges_Blocked [OF r(2)] in simp_all)
qed

lemma span_clear:
  assumes "merges 0 n hits ms" and "\<forall>h \<in> set hits. h_end h \<le> s \<or> e \<le> h_start h"
    and "sp \<in> set (map (span_of sha256 tx) ms)" and "s < e"
  shows "s_end sp \<le> s \<or> e \<le> s_start sp"
proof (rule ccontr)
  assume "\<not> ?thesis"
  moreover have "s_start sp < s_end sp"
    using assms(1,3) intervals_in [of 0 n "map hit_iv ms"] by (force simp: merges_def)
  ultimately have "s_start sp \<le> max s (s_start sp)" "max s (s_start sp) < s_end sp" "s \<le> max s (s_start sp)" "max s (s_start sp) < e"
    using assms(4) by auto
  with merged_cover [OF assms(1), of sha256 tx "max s (s_start sp)"] assms(2,3) show False by fastforce
qed


lemma piece_covers:
  assumes "scan_fits tx scan regions" and "accepted cfg (length scan) e a"
    and "e_start e \<le> int q" "int q < e_end e" and "\<forall>r \<in> set regions. q < scanStart r \<or> scanEnd r \<le> q"
    and "regions = [] \<or> \<not> blank u tx (toOrig regions q)"
  shows "\<exists>h \<in> set (entity_hits u tx (length scan) cfg regions e).
    h_start h \<le> toOrig regions q \<and> toOrig regions q < h_end h \<and> h_action h = a"
proof -
  obtain x y where xy: "(x, y) \<in> set (pieces_of u tx regions e)" "x \<le> toOrig regions q" "toOrig regions q < y"
  proof (cases "regions = []")
    case True
    with that [of "nat (e_start e)" "nat (e_end e)"] assms(3,4) show thesis by (simp add: pieces_of_def toOrig_def)
  next
    case False
    have "nat (e_start e) \<le> q" "q < nat (e_end e)" using assms(3,4) by linarith+
    with unshieldSpan_complete [of regions "nat (e_start e)" q "nat (e_end e)"] assms(1,5)
    obtain x0 y0 where "(x0, y0) \<in> set (unshieldSpan (nat (e_start e)) (nat (e_end e)) regions)"
      "x0 \<le> toOrig regions q" "toOrig regions q < y0" by (auto simp: scan_fits_def)
    from trimSpans_complete [OF this, of u tx] False assms(6) that show thesis by (auto simp: pieces_of_def)
  qed
  from xy(1) obtain i where "i < length (pieces_of u tx regions e)" "pieces_of u tx regions e ! i = (x, y)"
    by (auto simp: in_set_conv_nth)
  then have "(i, x, y) \<in> set (enumerate 0 (pieces_of u tx regions e))" by (simp add: in_set_enumerate_eq)
  moreover from assms(2) have "0 \<le> e_start e" "e_start e < e_end e" "e_end e \<le> int (length scan)" by (auto simp: accepted_def)
  note piece_hit_ok(1,2) [OF pieces_ok [OF assms(1) xy(1) this] refl, of u cfg e a "length (pieces_of u tx regions e)" i]
  ultimately show ?thesis
    using xy(2,3) unfolding entity_hits_accepted [OF assms(2)] by (force simp: piece_hit_def)
qed


section \<open>Segments\<close>

definition is_segment :: "string \<Rightarrow> string \<Rightarrow> nat \<times> nat \<Rightarrow> bool" where
  "is_segment doc t seg \<longleftrightarrow> fst seg \<le> snd seg \<and> snd seg \<le> length doc \<and> sub doc (fst seg) (snd seg) = t"

lemma sub_append: "e \<le> length a \<Longrightarrow> sub (a @ b) s e = sub a s e"
  by (simp add: sub_def)

lemma is_segment_append: "is_segment doc t seg \<Longrightarrow> is_segment (doc @ rest) t seg"
  by (simp add: is_segment_def sub_append)

lemma join_loop_segments:
  "join_loop ts i joined offs = (doc, offs') \<Longrightarrow>
     \<exists>rest segs. doc = joined @ rest \<and> offs' = offs @ segs \<and> list_all2 (is_segment doc) ts segs"
proof (induction ts arbitrary: i joined offs)
  case (Cons t ts)
  let ?j = "if i > 0 then joined @ segmentSeparator else joined"
  from Cons.prems Cons.IH [of "i + 1" "?j @ t" "offs @ [(length ?j, length (?j @ t))]"] obtain rest segs where
    r: "doc = (?j @ t) @ rest" "offs' = (offs @ [(length ?j, length (?j @ t))]) @ segs" "list_all2 (is_segment doc) ts segs"
    by (auto simp: Let_def)
  have "is_segment (?j @ t) t (length ?j, length (?j @ t))" by (simp add: is_segment_def sub_def)
  with r show ?case by (auto intro!: exI [of _ "(length ?j, length (?j @ t)) # segs"] dest: is_segment_append)
qed simp

lemma segment_hits_in:
  "h' \<in> set (segment_hits hits (s0, e0)) \<longleftrightarrow> (\<exists>h \<in> set hits. max (h_start h) s0 < min (h_end h) e0
     \<and> h' = h\<lparr>h_start := max (h_start h) s0 - s0, h_end := min (h_end h) e0 - s0\<rparr>)"
  unfolding segment_hits_def clip_hit_def Let_def by (auto simp only: set_concat set_map prod.case not_le split: if_splits) auto

lemma segment_hits_ok: "hits_ok (e0 - s0) (segment_hits hits (s0, e0))"
  by (auto simp: hits_ok_def segment_hits_in)

lemma segment_fragment:
  assumes "h \<in> set hits" and "h_start h \<le> s0 + p" "s0 + p < h_end h" and "p < e0 - s0"
  shows "\<exists>h' \<in> set (segment_hits hits (s0, e0)). h_start h' \<le> p \<and> p < h_end h' \<and> h_action h' = h_action h"
proof
  let ?h = "h\<lparr>h_start := max (h_start h) s0 - s0, h_end := min (h_end h) e0 - s0\<rparr>"
  show "h_start ?h \<le> p \<and> p < h_end ?h \<and> h_action ?h = h_action h" using assms(2-4) by auto
  have "max (h_start h) s0 < min (h_end h) e0" using assms(2-4) by auto
  with assms(1) show "?h \<in> set (segment_hits hits (s0, e0))" by (auto simp: segment_hits_in)
qed

lemma segment_cover:
  assumes "p < e0 - s0"
  shows "(\<exists>h' \<in> set (segment_hits hits (s0, e0)). h_start h' \<le> p \<and> p < h_end h') \<longleftrightarrow>
    (\<exists>h \<in> set hits. h_start h \<le> s0 + p \<and> s0 + p < h_end h)"
proof
  assume "\<exists>h' \<in> set (segment_hits hits (s0, e0)). h_start h' \<le> p \<and> p < h_end h'"
  then obtain h where "h \<in> set hits" "max (h_start h) s0 - s0 \<le> p" "p < min (h_end h) e0 - s0"
    by (auto simp: segment_hits_in)
  then show "\<exists>h \<in> set hits. h_start h \<le> s0 + p \<and> s0 + p < h_end h" by (intro bexI [of _ h]) auto
qed (use segment_fragment [OF _ _ _ assms, of _ hits] in blast)

text \<open>What the result of a segment has to do with the hits and the result of the whole document.\<close>

definition seg_agrees :: "rawHit list \<Rightarrow> Result \<Rightarrow> string \<Rightarrow> nat \<times> nat \<Rightarrow> Result \<Rightarrow> bool" where
  "seg_agrees hits dres t seg r \<longleftrightarrow> Redacted r = redact_ref t (Spans r) \<and> intervals 0 (length t) (map span_iv (Spans r))
     \<and> (\<forall>p < length t.
          ((\<exists>sp \<in> set (Spans r). s_start sp \<le> p \<and> p < s_end sp)
             \<longleftrightarrow> (\<exists>sp \<in> set (Spans dres). s_start sp \<le> fst seg + p \<and> fst seg + p < s_end sp))
          \<and> (\<forall>h \<in> set hits. h_start h \<le> fst seg + p \<and> fst seg + p < h_end h \<longrightarrow>
               (\<exists>sp \<in> set (Spans r). s_start sp \<le> p \<and> p < s_end sp \<and> actionRank (h_action h) \<le> actionRank (s_action sp))))
     \<and> (Blocked r \<longleftrightarrow> (\<exists>sp \<in> set (Spans r). s_action sp = ActionBlock)) \<and> (Blocked r \<longrightarrow> Blocked dres)"

lemma segment_agrees:
  assumes "hit_sort srt" and "is_segment doc t seg" and "merges 0 (length doc) hits dms"
    and "Spans dres = map (span_of sha256 doc) dms" and "Blocked dres \<longleftrightarrow> (\<exists>h \<in> set hits. h_action h = ActionBlock)"
  shows "\<exists>r. mergeAndEmit srt sha256 t (segment_hits hits seg) = Some r \<and> seg_agrees hits dres t seg r"
proof -
  obtain s0 e0 where seg: "seg = (s0, e0)" by fastforce
  then have len: "length t = e0 - s0" using assms(2) by (auto simp: is_segment_def)
  have ok: "hits_ok (length t) (segment_hits hits seg)" using segment_hits_ok seg len by simp
  obtain r ms where r: "mergeAndEmit srt sha256 t (segment_hits hits seg) = Some r"
    and ms: "merges 0 (length t) (segment_hits hits seg) ms" and spans: "Spans r = map (span_of sha256 t) ms"
    and b: "Blocked r \<longleftrightarrow> (\<exists>m \<in> set ms. h_action m = ActionBlock)" and red: "Redacted r = redact_ref t (Spans r)"
    by (rule mergeAndEmit_result [OF assms(1) ok])
  have iv: "intervals 0 (length t) (map span_iv (Spans r))"
    using ms unfolding merges_def spans span_of_iv by blast
  have cover: "(\<exists>sp \<in> set (Spans r). s_start sp \<le> p \<and> p < s_end sp)
      \<longleftrightarrow> (\<exists>sp \<in> set (Spans dres). s_start sp \<le> s0 + p \<and> s0 + p < s_end sp)" if "p < length t" for p
    using merged_cover [OF ms, of sha256 t p] merged_cover [OF assms(3), of sha256 doc "s0 + p"] segment_cover [of p e0 s0 hits]
      that len seg unfolding spans assms(4) by simp
  have strong: "\<exists>sp \<in> set (Spans r). s_start sp \<le> p \<and> p < s_end sp \<and> actionRank (h_action h) \<le> actionRank (s_action sp)"
    if pr: "p < length t" "h \<in> set hits" "h_start h \<le> s0 + p" "s0 + p < h_end h" for p h
  proof -
    obtain h' where h': "h' \<in> set (segment_hits hits seg)" "h_start h' \<le> p" "p < h_end h'" "h_action h' = h_action h"
      using segment_fragment [OF pr(2-4), of e0] pr(1) len seg by auto
    obtain sp where "sp \<in> set (Spans r)" "inside h' sp" "actionRank (h_action h') \<le> actionRank (s_action sp)"
      using merged_strongest [OF ms ok h'(1), of sha256 t] unfolding spans by blast
    with h'(2-4) show ?thesis by (intro bexI [of _ sp]) (auto simp: inside_def)
  qed
  have "Blocked dres" if "Blocked r"
    using that b merges_Blocked [OF ms] assms(5) by (auto simp: seg segment_hits_in)
  moreover have "Blocked r \<longleftrightarrow> (\<exists>sp \<in> set (Spans r). s_action sp = ActionBlock)" using b spans by auto
  ultimately show ?thesis using r red iv cover strong by (auto simp: seg_agrees_def seg)
qed

lemma those_map2:
  assumes "list_all2 P xs ys" and "\<And>x y. P x y \<Longrightarrow> \<exists>r. f x y = Some r \<and> Q x y r"
  shows "\<exists>rs. those (map2 f xs ys) = Some rs \<and> length rs = length xs \<and> (\<forall>k < length xs. Q (xs ! k) (ys ! k) (rs ! k))"
  using assms(1)
proof (induction rule: list_all2_induct)
  case (Cons x xs y ys)
  then obtain rs where rs: "those (map2 f xs ys) = Some rs" "length rs = length xs" "\<forall>k < length xs. Q (xs ! k) (ys ! k) (rs ! k)"
    by blast
  from assms(2) [OF Cons(1)] obtain r where "f x y = Some r" "Q x y r" by blast
  with rs show ?case by (auto simp: nth_Cons' intro!: exI [of _ "r # rs"])
qed simp

lemma those_map2_left: "length xs = length ys \<Longrightarrow> those (map2 (\<lambda>x y. Some (f x)) xs ys) = Some (map f xs)"
  by (induction xs ys rule: list_induct2) auto

lemma RedactNERSegments_result:
  assumes "hit_sort srt" and "matches_ok pm" and "join_loop texts 0 [] [] = (doc, offs)"
  obtains dres results where "RedactNER u pm srt sha256 doc cfgs = Some (dres, first_err u pm doc cfgs)"
    and "RedactNERSegments u pm srt sha256 texts cfgs = Some (results, first_err u pm doc cfgs)" and "length results = length texts"
    and "\<forall>k < length texts. seg_agrees (all_hits u pm doc cfgs) dres (texts ! k) (offs ! k) (results ! k)"
proof -
  have segs: "list_all2 (is_segment doc) texts offs" using join_loop_segments [OF assms(3)] by simp
  obtain dres dms where d: "RedactNER u pm srt sha256 doc cfgs = Some (dres, first_err u pm doc cfgs)"
    "merges 0 (length doc) (all_hits u pm doc cfgs) dms" "Spans dres = map (span_of sha256 doc) dms"
    "Blocked dres \<longleftrightarrow> (\<exists>h \<in> set (all_hits u pm doc cfgs). h_action h = ActionBlock)"
    by (rule RedactNER_spans [OF assms(1,2)])
  obtain results where rs: "those (map2 (\<lambda>t seg. mergeAndEmit srt sha256 t (segment_hits (all_hits u pm doc cfgs) seg)) texts offs) = Some results"
    "length results = length texts"
    "\<forall>k < length texts. seg_agrees (all_hits u pm doc cfgs) dres (texts ! k) (offs ! k) (results ! k)"
    using those_map2 [of "is_segment doc" texts offs _ "seg_agrees (all_hits u pm doc cfgs) dres", OF segs segment_agrees [OF assms(1) _ d(2-4)]]
    by blast
  have "RedactNERSegments u pm srt sha256 texts cfgs = Some (results, first_err u pm doc cfgs)"
  proof (cases "texts = [] \<or> cfgs = []")
    case True
    then have nil: "all_hits u pm doc cfgs = []" "first_err u pm doc cfgs = None"
      using assms(3) by (auto simp: det_hits_Nil first_err_None)
    have "those (map2 (\<lambda>t seg. Some (empty_result\<lparr>Redacted := t\<rparr>)) texts offs) = Some (map (\<lambda>t. empty_result\<lparr>Redacted := t\<rparr>) texts)"
      by (rule those_map2_left [OF list_all2_lengthD [OF segs]])
    then have "results = map (\<lambda>t. empty_result\<lparr>Redacted := t\<rparr>) texts"
      using rs(1) by (simp add: nil segment_hits_def mergeAndEmit_def)
    with True nil(2) show ?thesis by (simp add: RedactNERSegments_def)
  next
    case False
    with rs(1) show ?thesis by (simp add: RedactNERSegments_def assms(3) collect_loop_result [OF assms(2)])
  qed
  from that [OF d(1) this rs(2,3)] show thesis .
qed

text \<open>C36: Scanning the messages of a request as one document and mapping the detections back agrees with scanning
  the document: \<^verbatim>\<open>RedactNERSegments\<close> returns one result per message and the same error; a byte of a
  message is in a span exactly when its byte of the document is, every detection that covers it is answered
  in the message by a span of at least its rank, and a message is blocked only if the document is.\<close>

theorem segments_agree_with_document:
  assumes "hit_sort srt" and "matches_ok pm" and "join_loop texts 0 [] [] = (doc, offs)"
  shows "\<exists>dres err results. RedactNER u pm srt sha256 doc cfgs = Some (dres, err)
    \<and> RedactNERSegments u pm srt sha256 texts cfgs = Some (results, err)
    \<and> length results = length texts \<and> length offs = length texts
    \<and> (\<forall>k < length texts. sub doc (fst (offs ! k)) (snd (offs ! k)) = texts ! k
         \<and> seg_agrees (all_hits u pm doc cfgs) dres (texts ! k) (offs ! k) (results ! k))"
proof -
  have "list_all2 (is_segment doc) texts offs" using join_loop_segments [OF assms(3)] by simp
  then have "length offs = length texts" "\<forall>k < length texts. sub doc (fst (offs ! k)) (snd (offs ! k)) = texts ! k"
    by (auto simp: list_all2_conv_all_nth is_segment_def)
  then show ?thesis by (metis RedactNERSegments_result [OF assms])
qed

section \<open>The policy knows three actions\<close>

definition known_action :: "Action \<Rightarrow> bool" where
  "known_action a \<longleftrightarrow> a \<in> {ActionMask, ActionBlock, ActionAllow}"

definition policy_known :: "NERConfig \<Rightarrow> bool" where
  "policy_known cfg \<longleftrightarrow> (\<forall>(g, a) \<in> set (EntityActions cfg). known_action a) \<and> (DefaultAction cfg = [] \<or> known_action (DefaultAction cfg))"

lemma validAction_known: "validAction raw \<noteq> [] \<longleftrightarrow> known_action raw" "known_action raw \<Longrightarrow> validAction raw = raw"
  by (auto simp: validAction_def known_action_def action_defs)

lemma validActions_fold:
  "distinct (gm_keys raw) \<Longrightarrow> gm_get (fold (\<lambda>(g, a) out. if validAction a \<noteq> [] then gm_put g (validAction a) out else out) raw m) g =
     (case gm_get raw g of Some a \<Rightarrow> if known_action a then Some a else gm_get m g | None \<Rightarrow> gm_get m g)"
proof (induction raw arbitrary: m)
  case (Cons p raw)
  obtain k a where p: "p = (k, a)" by (cases p)
  have fresh: "gm_get raw k = None" using Cons.prems p by (simp add: gm_get_None_iff)
  show ?case
    using Cons.prems Cons.IH fresh p
    by (cases "g = k") (auto simp: validAction_known gm_get_put split: option.split)
qed simp

lemma validActions_policy: "(g, a) \<in> set (validActions raw) \<Longrightarrow> known_action a"
proof -
  have "\<forall>(g, a) \<in> set (fold (\<lambda>(g, a) out. if validAction a \<noteq> [] then gm_put g (validAction a) out else out) raw []). known_action a"
  proof (rule fold_invariant)
    fix x :: "string \<times> string" and s :: "(string, Action) gomap" assume s: "\<forall>(g, a) \<in> set s. known_action a"
    obtain k b where "x = (k, b)" by (cases x)
    then show "\<forall>(g, a) \<in> set ((case x of (g, a) \<Rightarrow> \<lambda>out. if validAction a \<noteq> [] then gm_put g (validAction a) out else out) s). known_action a"
      using s set_gm_put [of k b s] by (auto simp: validAction_known)
  qed simp
  then show "(g, a) \<in> set (validActions raw) \<Longrightarrow> known_action a" by (auto simp: validActions_def)
qed

lemma ResolveAction_known:
  assumes "policy_known cfg" and "ResolveAction cfg g = Some a"
  shows "known_action a"
proof (cases "gm_get (EntityActions cfg) g")
  case None
  with assms show ?thesis by (auto simp: ResolveAction_def policy_known_def split: if_splits)
next
  case (Some b)
  then have "(g, b) \<in> set (EntityActions cfg)" by (rule gm_entry_in)
  with assms Some show ?thesis by (auto simp: ResolveAction_def policy_known_def)
qed

lemma det_hits_known:
  assumes "policy_known cfg" and "h \<in> set (det_hits u pm tx cfg)"
  shows "known_action (h_action h)"
proof -
  obtain n rs e where "h \<in> set (entity_hits u tx n cfg rs e)"
    using assms(2) by (auto simp: det_hits_def collectNERHits_def split: option.splits if_splits sum.splits)
  with entity_hits_in_accepted [OF this] obtain a where a: "accepted cfg n e a" "h_action h = a"
    by (auto simp: entity_hits_accepted piece_hit_def)
  then show ?thesis using ResolveAction_known [OF assms(1)] by (auto simp: accepted_def)
qed

text \<open>C37: A policy built from raw strings resolves every group: to the action written for it if that is one of
  the three, else to the default written if that is one of them, else to mask. Where all policies
  know only the three actions so do the spans, and the masked ones are exactly those with action mask.\<close>

theorem raw_policy_actions:
  assumes "distinct (gm_keys raw)"
  shows "ResolveAction (NERConfigFromRaw d m da raw src) g =
      Some (case gm_get raw g of
              Some a \<Rightarrow> if known_action a then a else if known_action da then da else ActionMask
            | None \<Rightarrow> if known_action da then da else ActionMask)
    \<and> policy_known (NERConfigFromRaw d m da raw src)
    \<and> (hit_sort srt \<and> matches_ok pm \<and> (\<forall>cfg \<in> set cfgs. policy_known cfg) \<longrightarrow>
         (\<exists>res err. RedactNER u pm srt sha256 tx cfgs = Some (res, err)
            \<and> (\<forall>sp \<in> set (Spans res). known_action (s_action sp) \<and> (masks (s_action sp) \<longleftrightarrow> s_action sp = ActionMask))))"
proof -
  have "ActionMask \<noteq> []" "known_action ActionMask" "\<not> known_action []"
    by (auto simp: known_action_def action_defs)
  then have resolve: "ResolveAction (NERConfigFromRaw d m da raw src) g =
      Some (case gm_get raw g of
              Some a \<Rightarrow> if known_action a then a else if known_action da then da else ActionMask
            | None \<Rightarrow> if known_action da then da else ActionMask)"
    using validActions_fold [OF assms, of "[]" g]
    by (auto simp: ResolveAction_def NERConfigFromRaw_def validActions_def validActionOr_def validAction_known split: option.split)
  have policy: "policy_known (NERConfigFromRaw d m da raw src)"
    using validActions_policy \<open>known_action ActionMask\<close>
    by (fastforce simp: policy_known_def NERConfigFromRaw_def validActionOr_def validAction_known)
  have "\<exists>res err. RedactNER u pm srt sha256 tx cfgs = Some (res, err)
      \<and> (\<forall>sp \<in> set (Spans res). known_action (s_action sp) \<and> (masks (s_action sp) \<longleftrightarrow> s_action sp = ActionMask))"
    if prem: "hit_sort srt" "matches_ok pm" "\<forall>cfg \<in> set cfgs. policy_known cfg"
  proof -
    obtain res ms where r: "RedactNER u pm srt sha256 tx cfgs = Some (res, first_err u pm tx cfgs)"
      and ms: "merges 0 (length tx) (all_hits u pm tx cfgs) ms" and spans: "Spans res = map (span_of sha256 tx) ms"
      by (rule RedactNER_spans [OF prem(1,2)])
    have "known_action (s_action sp)" if "sp \<in> set (Spans res)" for sp
      using merged_source [OF ms all_hits_ok [OF prem(2)] that [unfolded spans]] det_hits_known prem(3) by fastforce
    with r show ?thesis by (auto simp: known_action_def masks_def)
  qed
  with resolve policy show ?thesis by blast
qed

section \<open>Examples\<close>

definition wit_u :: unicode where
  "wit_u = \<lparr>IsSpace = (\<lambda>r. r = 32), IsLetter = (\<lambda>r. 65 \<le> r \<and> r \<le> 122), IsDigit = (\<lambda>r. 48 \<le> r \<and> r \<le> 57), IsMark = (\<lambda>r. False)\<rparr>"

definition wit_pm :: matcher where
  "wit_pm terms = (if terms = [] then None else Some (\<lambda>tx. if take 3 tx = ''Spa'' then [(0, 3)] else []))"

lemma wit_pm_ok: "matches_ok wit_pm"
proof -
  have "3 \<le> length tx" if "take 3 tx = ''Spa''" for tx :: string
    using arg_cong [OF that, of length] by simp
  then show ?thesis by (auto simp: matches_ok_def wit_pm_def split: if_splits)
qed

definition wit_cfg :: NERConfig where
  "wit_cfg =
     (NERConfigFromRaw (Some (\<lambda>tx. Inr [\<lparr>e_group = ''PER'', e_start = 0, e_end = int (length tx), e_score = 1, e_text = tx\<rparr>])) 0 [] [] [])
       \<lparr>ProtectedTerms := [''Spa'']\<rparr>"

lemma wit_protected: "(0, 3) \<in> set (protected_matches wit_u ''Spa Bo'' (wit_pm (ProtectedTerms wit_cfg)))"
  by (simp add: protected_matches_def wit_pm_def wit_cfg_def whole_word_def touchesWordAfter_def DecodeRune_def byte_def
      isWordRune_def isJoiner_def wit_u_def)



definition wit_entity :: NEREntity where
  "wit_entity = \<lparr>e_group = ''PER'', e_start = 0, e_end = 6, e_score = 1, e_text = ''Spa Bo''\<rparr>"

definition wit_plain :: NERConfig where
  "wit_plain = NERConfigFromRaw (Some (\<lambda>tx. Inr [wit_entity])) 0 [] [] []"

lemma wit_accepted: "accepted wit_plain (length ''Spa Bo'') wit_entity ActionMask"
proof -
  have "\<not> f32_less 1 0" by code_simp
  moreover have "ActionMask \<noteq> []" by (simp add: action_defs)
  ultimately show ?thesis
    by (simp add: accepted_def wit_plain_def wit_entity_def NERConfigFromRaw_def ResolveAction_def validActionOr_def
        validAction_def validActions_def)
qed


theorem segments_agree_with_document_witness:
  "\<exists>dres err results.
     RedactNER wit_u wit_pm (go_sort hit_less) (\<lambda>v. v) [CHR ''a'', CHR 0x0A, CHR 0x0A, CHR ''b'', CHR ''c''] [wit_plain] = Some (dres, err)
   \<and> RedactNERSegments wit_u wit_pm (go_sort hit_less) (\<lambda>v. v) [''a'', ''bc''] [wit_plain] = Some (results, err)
   \<and> length results = 2"
proof -
  have "join_loop [''a'', ''bc''] 0 [] [] = ([CHR ''a'', CHR 0x0A, CHR 0x0A, CHR ''b'', CHR ''c''], [(0, 1), (3, 5)])"
    by (simp add: segmentSeparator_def)
  from segments_agree_with_document [OF hit_sort_lib.hit_sort_axioms wit_pm_ok this, of wit_u "\<lambda>v. v" "[wit_plain]"]
  show ?thesis by auto
qed

theorem raw_policy_actions_witness:
  "ResolveAction (NERConfigFromRaw None 0 ''blok'' [(''PER'', ''allow''), (''LOC'', ''hide'')] []) ''LOC'' = Some ActionMask
   \<and> ResolveAction (NERConfigFromRaw None 0 ''blok'' [(''PER'', ''allow''), (''LOC'', ''hide'')] []) ''PER'' = Some ActionAllow"
proof -
  have d: "distinct (gm_keys [(''PER'', ''allow''), (''LOC'', ''hide'')])" by simp
  show ?thesis
    using raw_policy_actions [OF d, of None 0 "''blok''" "[]" "''LOC''"] raw_policy_actions [OF d, of None 0 "''blok''" "[]" "''PER''"]
    by (simp add: known_action_def action_defs)
qed

end
