(* ===== verification/PiiEvents.thy ===== *)
theory PiiEvents
  imports PiiMerge
begin

text \<open>
  The event log of the PII filter, \<open>store.go\<close>: a ring buffer of the last events, read newest first
  through a query. The specification is the list of all events ever recorded. Every operation holds the
  lock of the store from start to end, so the operations are the steps; the Prometheus counter that
  \<open>Record\<close> also bumps is left out.
\<close>

section \<open>Events and the ring\<close>

record PIIEvent =
  ev_ID :: string
  ev_Kind :: string
  ev_Origin :: string
  ev_CorrelationID :: string
  ev_UserID :: string
  ev_Direction :: string
  ev_PatternID :: string
  ev_ByteOffset :: int
  ev_Length :: int
  ev_HashPrefix :: string
  ev_Action :: Action
  ev_Score :: f32
  ev_CreatedAt :: time
  ev_Host :: string
  ev_Intercepted :: "bool option"
  ev_BytesSent :: int
  ev_BytesReceived :: int
  ev_StatusCode :: int
  ev_DurationMS :: int

definition zero_event :: PIIEvent where
  "zero_event =
     \<lparr>ev_ID = [], ev_Kind = [], ev_Origin = [], ev_CorrelationID = [], ev_UserID = [], ev_Direction = [], ev_PatternID = [],
      ev_ByteOffset = 0, ev_Length = 0, ev_HashPrefix = [], ev_Action = [], ev_Score = 0, ev_CreatedAt = 0, ev_Host = [],
      ev_Intercepted = None, ev_BytesSent = 0, ev_BytesReceived = 0, ev_StatusCode = 0, ev_DurationMS = 0\<rparr>"

definition KindPII :: string where "KindPII = ''pii''"

definition ResolvedKind :: "PIIEvent \<Rightarrow> string" where
  "ResolvedKind e = (if ev_Kind e = [] then KindPII else ev_Kind e)"

record ListQuery =
  q_CorrelationID :: string
  q_UserID :: string
  q_PatternID :: string
  q_Kind :: string
  q_Origin :: string
  q_Limit :: int

record memoryEventStore =
  ring :: "PIIEvent list"
  ring_cap :: nat
  ring_cursor :: nat
  ring_full :: bool

definition NewMemoryEventStore :: "int \<Rightarrow> memoryEventStore" where
  "NewMemoryEventStore capacity =
     (let c = nat (if capacity \<le> 0 then 10000 else capacity)
      in \<lparr>ring = replicate c zero_event, ring_cap = c, ring_cursor = 0, ring_full = False\<rparr>)"

definition Record :: "PIIEvent \<Rightarrow> memoryEventStore \<Rightarrow> memoryEventStore option" where
  "Record e s =
     (if ring_cursor s < length (ring s)
      then let s1 = s\<lparr>ring := (ring s)[ring_cursor s := e], ring_cursor := ring_cursor s + 1\<rparr>
           in Some (if ring_cursor s1 = ring_cap s1 then s1\<lparr>ring_cursor := 0, ring_full := True\<rparr> else s1)
      else None)"

definition event_matches :: "ListQuery \<Rightarrow> PIIEvent \<Rightarrow> bool" where
  "event_matches q e \<longleftrightarrow>
     \<not> (ev_ID e = []) \<and> \<not> (q_CorrelationID q \<noteq> [] \<and> ev_CorrelationID e \<noteq> q_CorrelationID q)
     \<and> \<not> (q_UserID q \<noteq> [] \<and> ev_UserID e \<noteq> q_UserID q) \<and> \<not> (q_PatternID q \<noteq> [] \<and> ev_PatternID e \<noteq> q_PatternID q)
     \<and> \<not> (q_Kind q \<noteq> [] \<and> ResolvedKind e \<noteq> q_Kind q) \<and> \<not> (q_Origin q \<noteq> [] \<and> ev_Origin e \<noteq> q_Origin q)"

text \<open>The walk over indices, downwards; \<open>(out, True)\<close> when the limit is reached.\<close>

fun scan_down :: "ListQuery \<Rightarrow> int \<Rightarrow> PIIEvent list \<Rightarrow> nat list \<Rightarrow> PIIEvent list \<Rightarrow> (PIIEvent list \<times> bool) option" where
  "scan_down q limit rg [] out = Some (out, False)"
| "scan_down q limit rg (i # is) out =
     (if i < length rg
      then if event_matches q (rg ! i)
           then if int (length (out @ [rg ! i])) \<ge> limit then Some (out @ [rg ! i], True)
                else scan_down q limit rg is (out @ [rg ! i])
           else scan_down q limit rg is out
      else None)"

definition List_events :: "ListQuery \<Rightarrow> memoryEventStore \<Rightarrow> PIIEvent list option" where
  "List_events q s =
     (let limit = if q_Limit q \<le> 0 then 1000 else q_Limit q
      in case scan_down q limit (ring s) (rev [0..<ring_cursor s]) [] of
        None \<Rightarrow> None
      | Some (out, stop) \<Rightarrow>
          if stop \<or> \<not> ring_full s then Some out
          else map_option fst (scan_down q limit (ring s) (rev [ring_cursor s..<ring_cap s]) out))"

definition Count :: "memoryEventStore \<Rightarrow> nat" where
  "Count s = (if ring_full s then ring_cap s else ring_cursor s)"

section \<open>The last events\<close>

definition newest :: "memoryEventStore \<Rightarrow> PIIEvent list" where
  "newest s = rev (take (ring_cursor s) (ring s)) @ (if ring_full s then rev (drop (ring_cursor s) (ring s)) else [])"

definition ring_ok :: "memoryEventStore \<Rightarrow> PIIEvent list \<Rightarrow> bool" where
  "ring_ok s es \<longleftrightarrow> length (ring s) = ring_cap s \<and> ring_cursor s < ring_cap s
     \<and> newest s = take (ring_cap s) (rev es) \<and> (ring_full s \<longleftrightarrow> ring_cap s \<le> length es)"

lemma ring_ok_new: "ring_ok (NewMemoryEventStore c) []"
  by (auto simp: ring_ok_def NewMemoryEventStore_def newest_def Let_def)

lemma newest_butlast:
  assumes "length (ring s) = ring_cap s" and "ring_cursor s < ring_cap s"
  shows "take (ring_cap s - 1) (newest s) =
    rev (take (ring_cursor s) (ring s)) @ (if ring_full s then rev (drop (ring_cursor s + 1) (ring s)) else [])"
proof (cases "ring_full s")
  case True
  have "drop (ring_cursor s) (ring s) = ring s ! ring_cursor s # drop (ring_cursor s + 1) (ring s)"
    using assms by (simp add: Cons_nth_drop_Suc)
  with True assms show ?thesis by (simp add: newest_def)
next
  case False
  with assms show ?thesis by (simp add: newest_def)
qed

lemma not_full_cursor: "ring_ok s es \<Longrightarrow> \<not> ring_full s \<Longrightarrow> ring_cursor s = length es"
  by (auto simp: ring_ok_def newest_def dest!: arg_cong [where f = length])

lemma Record_ok:
  assumes "ring_ok s es"
  shows "\<exists>s'. Record e s = Some s' \<and> ring_ok s' (es @ [e]) \<and> ring_cap s' = ring_cap s"
proof -
  let ?c = "ring_cursor s" and ?n = "ring_cap s" and ?r = "(ring s)[ring_cursor s := e]"
  have ok: "length (ring s) = ?n" "?c < ?n" "newest s = take ?n (rev es)" "ring_full s \<longleftrightarrow> ?n \<le> length es"
    using assms by (auto simp: ring_ok_def)
  have upd: "take (?c + 1) ?r = take ?c (ring s) @ [e]" "drop (?c + 1) ?r = drop (?c + 1) (ring s)"
    using ok(1,2) by (simp_all add: take_Suc_conv_app_nth drop_update_cancel)
  have last: "take ?n (rev (es @ [e])) = e # take (?n - 1) (newest s)"
    using ok(2,3) by (cases ?n) (simp_all add: min_def)
  note butlast = newest_butlast [OF ok(1,2)]
  show ?thesis
  proof (cases "?c + 1 = ?n")
    case True
    then have whole: "?r = take ?c (ring s) @ [e]" using upd(1) ok(1) by simp
    have "drop (?c + 1) (ring s) = []" using True ok(1) by simp
    moreover have "?n \<le> length (es @ [e])" using not_full_cursor [OF assms] ok(4) True by fastforce
    ultimately show ?thesis
      using True ok(1,2) whole last butlast by (simp add: Record_def Let_def ring_ok_def newest_def)
  next
    case False
    with ok(2) have "?c + 1 < ?n" by simp
    moreover have "ring_full s \<longleftrightarrow> ?n \<le> length (es @ [e])"
      using not_full_cursor [OF assms] ok(4) False \<open>?c + 1 < ?n\<close> by fastforce
    ultimately show ?thesis
      using ok(1,2) upd last butlast by (simp add: Record_def Let_def ring_ok_def newest_def)
  qed
qed

section \<open>Queries\<close>

lemma scan_down_result:
  assumes "\<forall>i \<in> set is. i < length rg" and "int (length out) < limit"
  shows "\<exists>stop. scan_down q limit rg is out = Some (take (nat limit) (out @ filter (event_matches q) (map ((!) rg) is)), stop)
    \<and> (stop \<longrightarrow> int (length (out @ filter (event_matches q) (map ((!) rg) is))) \<ge> limit)
    \<and> (\<not> stop \<longrightarrow> int (length (out @ filter (event_matches q) (map ((!) rg) is))) < limit)"
  using assms
proof (induction "is" arbitrary: out)
  case Nil
  then show ?case by auto
next
  case (Cons i "is")
  show ?case
  proof (cases "event_matches q (rg ! i)")
    case True
    show ?thesis
    proof (cases "int (length (out @ [rg ! i])) \<ge> limit")
      case full: True
      with Cons.prems(2) have "nat limit = length (out @ [rg ! i])" by simp
      with full True Cons.prems(1) show ?thesis by (auto intro!: exI [of _ True])
    next
      case False
      with Cons.IH [of "out @ [rg ! i]"] Cons.prems(1) True show ?thesis by auto
    qed
  next
    case False
    with Cons show ?thesis by auto
  qed
qed

lemma nth_upt: "n \<le> length xs \<Longrightarrow> map ((!) xs) [m..<n] = drop m (take n xs)"
  by (intro nth_equalityI) auto

lemma rev_nth_upt: "n \<le> length xs \<Longrightarrow> map ((!) xs) (rev [m..<n]) = rev (drop m (take n xs))"
  by (simp only: rev_map [symmetric] nth_upt)

lemma List_events_newest:
  assumes "ring_ok s es"
  shows "List_events q s = Some (take (nat (if q_Limit q \<le> 0 then 1000 else q_Limit q)) (filter (event_matches q) (newest s)))"
proof -
  let ?c = "ring_cursor s" and ?r = "ring s"
  define limit where "limit = (if q_Limit q \<le> 0 then 1000 else q_Limit q)"
  have ok: "length ?r = ring_cap s" "?c < ring_cap s" "0 < limit" using assms by (auto simp: ring_ok_def limit_def)
  let ?F1 = "filter (event_matches q) (rev (take ?c ?r))" and ?F2 = "filter (event_matches q) (rev (drop ?c ?r))"
  have m1: "map ((!) ?r) (rev [0..<?c]) = rev (take ?c ?r)" "map ((!) ?r) (rev [?c..<ring_cap s]) = rev (drop ?c ?r)"
    using ok(1,2) by (simp_all only: rev_nth_upt) simp_all
  have "\<forall>i \<in> set (rev [0..<?c]). i < length ?r" "int (length []) < limit" using ok by auto
  from scan_down_result [OF this, of q, unfolded m1] obtain stop where
    s1: "scan_down q limit ?r (rev [0..<?c]) [] = Some (take (nat limit) ?F1, stop)"
    "stop \<Longrightarrow> int (length ?F1) \<ge> limit" "\<not> stop \<Longrightarrow> int (length ?F1) < limit" by auto
  have "List_events q s = Some (take (nat limit) (filter (event_matches q) (newest s)))"
  proof (cases "stop \<or> \<not> ring_full s")
    case True
    have "take (nat limit) ?F1 = take (nat limit) (filter (event_matches q) (newest s))"
    proof (cases stop)
      case True
      with s1(2) have "nat limit \<le> length ?F1" by linarith
      then show ?thesis by (simp add: newest_def)
    next
      case False
      with True show ?thesis by (simp add: newest_def)
    qed
    with True show ?thesis by (simp add: List_events_def Let_def limit_def [symmetric] s1(1))
  next
    case False
    then have F1: "int (length ?F1) < limit" "take (nat limit) ?F1 = ?F1" using s1(3) by auto
    have "\<forall>i \<in> set (rev [?c..<ring_cap s]). i < length ?r" using ok by auto
    from scan_down_result [OF this F1(1), of q, unfolded m1] obtain stop2 where
      "scan_down q limit ?r (rev [?c..<ring_cap s]) ?F1 = Some (take (nat limit) (?F1 @ ?F2), stop2)" by blast
    with False F1(2) s1(1) show ?thesis by (simp add: List_events_def Let_def limit_def [symmetric] newest_def)
  qed
  then show ?thesis by (simp add: limit_def)
qed

section \<open>Sequences\<close>

lemma record_all_ok: "ring_ok s es \<Longrightarrow> \<exists>s'. ofold Record new s = Some s' \<and> ring_ok s' (es @ new) \<and> ring_cap s' = ring_cap s"
proof (induction new arbitrary: s es)
  case Nil
  then show ?case by simp
next
  case (Cons e new)
  from Record_ok [OF Cons.prems] obtain s1 where s1: "Record e s = Some s1" "ring_ok s1 (es @ [e])" "ring_cap s1 = ring_cap s" by blast
  with Cons.IH [OF s1(2)] show ?case by auto
qed

text \<open>C38: The event log is the list of the last events: whatever is recorded in a store of any capacity, \<open>Record\<close> never
  writes out of range, the count is the number of events up to the capacity (10000 for a capacity that is not
  positive), and a query returns the newest matching ones among them, newest first, up to its limit (1000 where none
  is given).\<close>

theorem event_log_keeps_last:
  "\<exists>s. ofold Record es (NewMemoryEventStore c) = Some s
    \<and> Count s = min (length es) (nat (if c \<le> 0 then 10000 else c))
    \<and> List_events q s = Some (take (nat (if q_Limit q \<le> 0 then 1000 else q_Limit q))
        (filter (event_matches q) (take (nat (if c \<le> 0 then 10000 else c)) (rev es))))"
proof -
  obtain s where s: "ofold Record es (NewMemoryEventStore c) = Some s" "ring_ok s es"
    "ring_cap s = ring_cap (NewMemoryEventStore c)"
    using record_all_ok [OF ring_ok_new, of es c] by auto
  have cap: "ring_cap s = nat (if c \<le> 0 then 10000 else c)" by (simp add: s(3) NewMemoryEventStore_def Let_def)
  have "Count s = min (length es) (ring_cap s)"
    using s(2) not_full_cursor [OF s(2)] by (auto simp: Count_def ring_ok_def)
  moreover have "newest s = take (ring_cap s) (rev es)" using s(2) by (simp add: ring_ok_def)
  ultimately show ?thesis using s(1) List_events_newest [OF s(2), of q] cap by metis
qed

end
