(* ===== verification/PiiPseudonym.thy ===== *)
theory PiiPseudonym
  imports PiiMerge
begin

text \<open>
  Reversible redaction, \<open>pseudonymizer.go\<close>: masked values become numbered tokens, one per value, and the
  writer of the response puts the values back while the response is streamed in pieces. \<open>upper\<close> is
  \<^verbatim>\<open>strings.ToUpper\<close> and \<open>enc\<close> the inside of the string that \<^verbatim>\<open>json.Marshal\<close> gives, both arguments. Each loop
  over a Go map has an order of its own, an argument. What the response writer below takes is collected in
  \<open>written\<close>; an error of its, which ends the response, is left out.
\<close>

section \<open>Tokens\<close>

definition defaultReversibleTokenPrefix :: string where
  "defaultReversibleTokenPrefix = ''[REDACTED:''"

definition defaultReversibleTokenSuffix :: string where
  "defaultReversibleTokenSuffix = '']''"

record pseudonymizer =
  byValue :: "(string, string) gomap"
  original :: "(string, string) gomap"
  counts :: "(string, nat) gomap"
  tok_prefix :: string
  tok_suffix :: string

definition newPseudonymizer :: "string \<Rightarrow> string \<Rightarrow> pseudonymizer" where
  "newPseudonymizer pre suf = \<lparr>byValue = [], original = [], counts = [], tok_prefix = pre, tok_suffix = suf\<rparr>"

definition EncodeRune :: "nat \<Rightarrow> string" where
  "EncodeRune r =
     (if r < 0x80 then [char_of r]
      else if r < 0x800 then [char_of (0xC0 + r div 0x40), char_of (0x80 + r mod 0x40)]
      else if 0x10FFFF < r \<or> 0xD800 \<le> r \<and> r \<le> 0xDFFF then [char_of (0xEF :: nat), char_of (0xBF :: nat), char_of (0xBD :: nat)]
      else if r < 0x10000
      then [char_of (0xE0 + r div 0x1000), char_of (0x80 + r div 0x40 mod 0x40), char_of (0x80 + r mod 0x40)]
      else [char_of (0xF0 + r div 0x40000), char_of (0x80 + r div 0x1000 mod 0x40),
            char_of (0x80 + r div 0x40 mod 0x40), char_of (0x80 + r mod 0x40)])"

function group_loop :: "unicode \<Rightarrow> string \<Rightarrow> string" where
  "group_loop u s =
     (if s = [] then []
      else let (r, sz) = DecodeRune s
           in (if IsLetter u r \<or> IsDigit u r then EncodeRune r else ''_'') @ group_loop u (drop sz s))"
  by pat_completeness auto
termination
proof (relation "measure (\<lambda>(u, s). length s)", goal_cases)
  case (2 u s x r sz)
  then have "snd (DecodeRune s) = sz" by (metis snd_conv)
  with 2(1) show ?case using DecodeRune_size [of s] by auto
qed simp

declare group_loop.simps [simp del]

definition pseudonymGroup :: "(string \<Rightarrow> string) \<Rightarrow> unicode \<Rightarrow> string \<Rightarrow> string" where
  "pseudonymGroup upper u pattern =
     (let name = rev (takeWhile (\<lambda>c. c \<noteq> CHR '':'') (rev pattern)); b = group_loop u (upper name)
      in if b = [] then ''PII'' else b)"

definition pad3 :: "nat \<Rightarrow> string" where
  "pad3 n = replicate (3 - length (dec_of n)) (CHR ''0'') @ dec_of n"

definition mk_token :: "string \<Rightarrow> string \<Rightarrow> string \<Rightarrow> nat \<Rightarrow> string" where
  "mk_token pre suf grp n = pre @ grp @ ''_'' @ pad3 n @ suf"

definition token_for :: "(string \<Rightarrow> string) \<Rightarrow> unicode \<Rightarrow> string \<Rightarrow> string \<Rightarrow> pseudonymizer \<Rightarrow> string \<times> pseudonymizer" where
  "token_for upper u pattern v p =
     (case gm_get (byValue p) v of
        Some token \<Rightarrow> (token, p)
      | None \<Rightarrow>
          let grp = pseudonymGroup upper u pattern; n = gm_get0 0 (counts p) grp + 1;
              token = mk_token (tok_prefix p) (tok_suffix p) grp n
          in (token, p\<lparr>counts := gm_put grp n (counts p), byValue := gm_put v token (byValue p),
                       original := gm_put token v (original p)\<rparr>))"

fun replace_loop ::
  "(string \<Rightarrow> string) \<Rightarrow> unicode \<Rightarrow> string \<Rightarrow> Span list \<Rightarrow> nat \<Rightarrow> string \<Rightarrow> pseudonymizer \<Rightarrow> (string \<times> pseudonymizer) option" where
  "replace_loop upper u tx [] l out p = map_option (\<lambda>rest. (out @ rest, p)) (substr tx l (length tx))"
| "replace_loop upper u tx (sp # sps) l out p =
     (if s_action sp \<noteq> ActionMask \<or> s_start sp < l \<or> s_end sp > length tx then replace_loop upper u tx sps l out p
      else case (substr tx l (s_start sp), substr tx (s_start sp) (s_end sp)) of
        (Some before, Some v) \<Rightarrow>
          let (token, p1) = token_for upper u (s_pattern sp) v p
          in replace_loop upper u tx sps (s_end sp) (out @ before @ token) p1
      | _ \<Rightarrow> None)"

definition pn_replace :: "(string \<Rightarrow> string) \<Rightarrow> unicode \<Rightarrow> string \<Rightarrow> Span list \<Rightarrow> pseudonymizer \<Rightarrow> (string \<times> pseudonymizer) option" where
  "pn_replace upper u tx spans p = replace_loop upper u tx spans 0 [] p"

section \<open>The restoring writer\<close>

record restoringWriter =
  written :: string
  pending :: string
  replacements :: "(string, string) gomap"

definition newRestoringWriter :: "(string \<Rightarrow> string) \<Rightarrow> (string, string) gomap \<Rightarrow> restoringWriter" where
  "newRestoringWriter enc originals =
     \<lparr>written = [], pending = [], replacements = map (\<lambda>(token, v). (token, enc v)) originals\<rparr>"

function ReplaceAll :: "string \<Rightarrow> string \<Rightarrow> string \<Rightarrow> string" where
  "ReplaceAll s old new =
     (if s = [] \<or> old = [] then s
      else if take (length old) s = old then new @ ReplaceAll (drop (length old) s) old new
      else hd s # ReplaceAll (tl s) old new)"
  by pat_completeness auto
termination
  by (relation "measure (\<lambda>(s, old, new). length s)") auto

declare ReplaceAll.simps [simp del]

definition rw_replace :: "(string, string) gomap \<Rightarrow> string \<Rightarrow> string" where
  "rw_replace repl s = fold (\<lambda>(token, v) s. ReplaceAll s token v) repl s"

definition HasSuffix :: "string \<Rightarrow> string \<Rightarrow> bool" where
  "HasSuffix s x \<longleftrightarrow> length x \<le> length s \<and> drop (length s - length x) s = x"

definition keep_for :: "string \<Rightarrow> string \<Rightarrow> nat \<Rightarrow> nat" where
  "keep_for s token keep =
     fold (\<lambda>n keep. if HasSuffix s (take n token) \<and> n > keep then n else keep) [1..<min (length token - 1) (length s) + 1] keep"

definition splitReady :: "(string, string) gomap \<Rightarrow> string \<Rightarrow> string \<times> string" where
  "splitReady repl s =
     (let keep = fold (\<lambda>(token, v) keep. keep_for s token keep) repl 0
      in (take (length s - keep) s, drop (length s - keep) s))"

type_synonym iteration = "(string, string) gomap \<Rightarrow> (string, string) gomap"

definition rw_Write :: "iteration \<times> iteration \<times> string \<Rightarrow> restoringWriter \<Rightarrow> restoringWriter" where
  "rw_Write call w =
     (let (it1, it2, data) = call;
          (ready, pend) = splitReady (it2 (replacements w)) (rw_replace (it1 (replacements w)) (pending w @ data))
      in w\<lparr>pending := pend, written := written w @ ready\<rparr>)"

definition rw_Finish :: "iteration \<Rightarrow> restoringWriter \<Rightarrow> restoringWriter" where
  "rw_Finish it w =
     (if pending w = [] then w
      else w\<lparr>written := written w @ rw_replace (it (replacements w)) (pending w), pending := []\<rparr>)"

section \<open>Restoring a stream\<close>

text \<open>
  A response made of plain text and tokens. The first byte of a token occurs only there and no token starts another.
  Text is plain if at every position it differs from every token before it ends, and so do the values that the
  tokens stand for.
\<close>

type_synonym item = "string + string"

definition render :: "item list \<Rightarrow> string" where
  "render its = concat (map (case_sum id id) its)"

definition tokens_ok :: "char \<Rightarrow> string set \<Rightarrow> bool" where
  "tokens_ok b T \<longleftrightarrow> (\<forall>t \<in> T. t \<noteq> [] \<and> hd t = b \<and> b \<notin> set (tl t))
     \<and> (\<forall>t \<in> T. \<forall>t' \<in> T. take (length t) t' = t \<longrightarrow> t = t')"

definition plain :: "string set \<Rightarrow> string \<Rightarrow> bool" where
  "plain T w \<longleftrightarrow> (\<forall>i < length w. \<forall>t \<in> T. take (length t) (drop i w) \<noteq> take (length (drop i w)) t)"

definition items_ok :: "string set \<Rightarrow> item list \<Rightarrow> bool" where
  "items_ok T its \<longleftrightarrow> (\<forall>it \<in> set its. case it of Inl w \<Rightarrow> plain T w | Inr t \<Rightarrow> t \<in> T)"

lemma render_simps [simp]:
  "render [] = []" "render (Inl w # its) = w @ render its" "render (Inr t # its) = t @ render its"
  by (simp_all add: render_def)

lemma items_ok_simps [simp]:
  "items_ok T []" "items_ok T (Inl w # its) \<longleftrightarrow> plain T w \<and> items_ok T its"
  "items_ok T (Inr t # its) \<longleftrightarrow> t \<in> T \<and> items_ok T its"
  by (auto simp: items_ok_def)

lemma take_eq_length: "take n xs = ys \<Longrightarrow> length ys \<le> length xs"
  by auto

lemma plain_Nil [simp]: "plain T []"
  by (simp add: plain_def)

lemma plain_suffix: "plain T (a @ w) \<Longrightarrow> plain T w"
  unfolding plain_def
proof (intro allI impI ballI)
  fix i t
  assume p: "\<forall>i < length (a @ w). \<forall>t \<in> T. take (length t) (drop i (a @ w)) \<noteq> take (length (drop i (a @ w))) t" and i: "i < length w" "t \<in> T"
  from p [rule_format, of "length a + i" t] i show "take (length t) (drop i w) \<noteq> take (length (drop i w)) t" by simp
qed

text \<open>Plain text followed by anything starts no token, and is not the start of one.\<close>

lemma plain_differs:
  assumes "plain T w" and "w \<noteq> []" and "t \<in> T"
  shows "take (length t) (w @ s) \<noteq> t" and "take (length (w @ s)) t \<noteq> w @ s"
proof -
  have d: "take (length t) w \<noteq> take (length w) t" using assms unfolding plain_def by (metis drop0 length_greater_0_conv)
  show "take (length t) (w @ s) \<noteq> t"
  proof
    assume "take (length t) (w @ s) = t"
    from arg_cong [OF this, of "take (length w)"] d show False by (simp add: min_def split: if_splits)
  qed
  show "take (length (w @ s)) t \<noteq> w @ s"
  proof
    assume eq: "take (length (w @ s)) t = w @ s"
    have "take (length w) t = w" using arg_cong [OF eq, of "take (length w)"] by (simp add: min_def)
    moreover from this have "length w \<le> length t" by (rule take_eq_length)
    ultimately show False using d by simp
  qed
qed

lemma ReplaceAll_Nil [simp]: "ReplaceAll [] old new = []"
  by (simp add: ReplaceAll.simps)

lemma ReplaceAll_hit: "t \<noteq> [] \<Longrightarrow> ReplaceAll (t @ s) t v = v @ ReplaceAll s t v"
  by (subst ReplaceAll.simps) simp

lemma ReplaceAll_skip: "take (length t) (c # s) \<noteq> t \<Longrightarrow> ReplaceAll (c # s) t v = c # ReplaceAll s t v"
  by (subst ReplaceAll.simps) (auto simp: ReplaceAll.simps [of s])

lemma ReplaceAll_text: "plain T w \<Longrightarrow> t \<in> T \<Longrightarrow> ReplaceAll (w @ s) t v = w @ ReplaceAll s t v"
proof (induction w)
  case (Cons c w)
  have "plain T w" using plain_suffix [of T "[c]" w] Cons.prems(1) by simp
  moreover have "take (length t) (c # w @ s) \<noteq> t" using plain_differs(1) [OF Cons.prems(1) _ Cons.prems(2), of s] by simp
  ultimately show ?case using Cons.IH Cons.prems(2) by (simp add: ReplaceAll_skip)
qed simp

lemma unmarked_plain: "tokens_ok b T \<Longrightarrow> b \<notin> set w \<Longrightarrow> plain T w"
  unfolding plain_def
proof (intro allI impI ballI notI)
  fix i t
  assume t: "tokens_ok b T" "b \<notin> set w" "i < length w" "t \<in> T" "take (length t) (drop i w) = take (length (drop i w)) t"
  then obtain r where "t = b # r" by (cases t) (auto simp: tokens_ok_def)
  with t(3,5) have "b \<in> set (drop i w)" by (cases "drop i w") auto
  with t(2) show False by (auto dest: in_set_dropD)
qed

lemma token_cases:
  assumes "tokens_ok b T" and "t \<in> T"
  obtains r where "t = b # r" and "plain T r"
proof (cases t)
  case (Cons c r)
  then have "c = b" "b \<notin> set r" using assms by (auto simp: tokens_ok_def)
  with Cons unmarked_plain [OF assms(1)] that show thesis by blast
qed (use assms in \<open>auto simp: tokens_ok_def\<close>)

lemma ReplaceAll_other:
  assumes "tokens_ok b T" and "t \<in> T" "t' \<in> T" "t \<noteq> t'"
  shows "ReplaceAll (t' @ s) t v = t' @ ReplaceAll s t v"
proof -
  have "take (length t) (t' @ s) \<noteq> t"
  proof
    assume eq: "take (length t) (t' @ s) = t"
    show False
    proof (cases "length t \<le> length t'")
      case True
      with eq assms show False by (auto simp: tokens_ok_def)
    next
      case False
      then have "take (length t') t = t'" using arg_cong [OF eq, of "take (length t')"] by (simp add: min_def)
      with assms show False by (auto simp: tokens_ok_def)
    qed
  qed
  moreover obtain r where "t' = b # r" "plain T r" using token_cases [OF assms(1,3)] by blast
  ultimately show ?thesis using ReplaceAll_text [of T r t s v] assms(2) by (simp add: ReplaceAll_skip)
qed

text \<open>The unfinished end of a piece of the response: the start of a token or of plain text. No token occurs in it.\<close>

definition token_start :: "string set \<Rightarrow> string \<Rightarrow> bool" where
  "token_start T x \<longleftrightarrow> (\<exists>t \<in> T. \<exists>n. 0 < n \<and> n < length t \<and> x = take n t)"

definition unfinished :: "string set \<Rightarrow> string \<Rightarrow> bool" where
  "unfinished T x \<longleftrightarrow> token_start T x \<or> (\<exists>z. plain T (x @ z))"

lemma ReplaceAll_plain_start: "plain T (x @ z) \<Longrightarrow> t \<in> T \<Longrightarrow> ReplaceAll x t v = x"
proof (induction x)
  case (Cons c x)
  have "take (length t) (c # x) \<noteq> t"
  proof
    assume eq: "take (length t) (c # x) = t"
    from take_eq_length [OF this] have "length t - length (c # x) = 0" by simp
    with eq have "take (length t) (((c # x) @ z) @ []) = t" unfolding append_Nil2 take_append by simp
    with plain_differs(1) [OF Cons.prems(1) _ Cons.prems(2), of "[]"] show False by simp
  qed
  moreover have "plain T (x @ z)" using plain_suffix [of T "[c]" "x @ z"] Cons.prems(1) by simp
  ultimately show ?case using Cons by (simp add: ReplaceAll_skip)
qed simp

lemma ReplaceAll_token_start:
  assumes "tokens_ok b T" and "t \<in> T" and "token_start T x"
  shows "ReplaceAll x t v = x"
proof -
  obtain t' n where t': "t' \<in> T" "0 < n" "n < length t'" "x = take n t'" using assms(3) by (auto simp: token_start_def)
  obtain r where r: "t' = b # r" "plain T r" using token_cases [OF assms(1) t'(1)] by blast
  have "take (length t) x \<noteq> t"
  proof
    assume eq: "take (length t) x = t"
    then have "length t \<le> n" using take_eq_length [OF eq] t'(3,4) by simp
    with eq t'(4) have "take (length t) t' = t" by (simp add: min_def)
    with assms(1,2) t'(1,3) \<open>length t \<le> n\<close> show False unfolding tokens_ok_def by fastforce
  qed
  moreover obtain m where x: "x = b # take m r" using t'(2,4) r(1) by (cases n) auto
  moreover have "plain T (take m r @ drop m r)" using r(2) by simp
  ultimately show ?thesis using ReplaceAll_plain_start [of T "take m r" "drop m r" t v] assms(2) by (simp add: ReplaceAll_skip)
qed

lemma ReplaceAll_unfinished: "tokens_ok b T \<Longrightarrow> t \<in> T \<Longrightarrow> unfinished T x \<Longrightarrow> ReplaceAll x t v = x"
  unfolding unfinished_def using ReplaceAll_token_start ReplaceAll_plain_start by blast

definition put_item :: "string \<Rightarrow> string \<Rightarrow> item \<Rightarrow> item" where
  "put_item t v it = (if it = Inr t then Inl v else it)"

lemma ReplaceAll_items:
  assumes "tokens_ok b T" and "t \<in> T" and "unfinished T x"
  shows "items_ok T its \<Longrightarrow> ReplaceAll (render its @ x) t v = render (map (put_item t v) its) @ x"
proof (induction its)
  case Nil
  show ?case using ReplaceAll_unfinished [OF assms] by simp
next
  case (Cons it its)
  have t: "t \<noteq> []" using assms(1,2) by (auto simp: tokens_ok_def)
  show ?case
  proof (cases it)
    case (Inl w)
    with Cons ReplaceAll_text [OF _ assms(2)] show ?thesis by (simp add: put_item_def)
  next
    case (Inr t')
    with Cons ReplaceAll_other [OF assms(1,2), of t'] ReplaceAll_hit [OF t] show ?thesis
      by (cases "t' = t") (auto simp: put_item_def)
  qed
qed

fun expand_item :: "(string, string) gomap \<Rightarrow> item \<Rightarrow> item" where
  "expand_item [] it = it"
| "expand_item ((t, v) # repl) it = expand_item repl (put_item t v it)"

lemma expand_item_Inl [simp]: "expand_item repl (Inl w) = Inl w"
  by (induction repl) (auto simp: put_item_def)

lemma expand_item_Inr:
  "expand_item repl (Inr t) = (case gm_get repl t of Some v \<Rightarrow> Inl v | None \<Rightarrow> Inr t)"
  by (induction repl) (auto simp: put_item_def)

lemma rw_replace_items:
  assumes "tokens_ok b T" and "unfinished T x"
  shows "fst ` set repl \<subseteq> T \<Longrightarrow> \<forall>v \<in> snd ` set repl. plain T v \<Longrightarrow> items_ok T its
    \<Longrightarrow> rw_replace repl (render its @ x) = render (map (expand_item repl) its) @ x"
proof (induction repl arbitrary: its)
  case Nil
  have "map (expand_item []) its = its" by (induction its) auto
  then show ?case by (simp add: rw_replace_def)
next
  case (Cons tv repl)
  obtain t v where tv: "tv = (t, v)" by (cases tv)
  have ok: "items_ok T (map (put_item t v) its)"
    using Cons.prems(2,3) tv by (auto simp: items_ok_def put_item_def split: sum.splits)
  have "rw_replace (tv # repl) (render its @ x) = rw_replace repl (render (map (put_item t v) its) @ x)"
    using ReplaceAll_items [OF assms(1) _ assms(2) Cons.prems(3), of t v] Cons.prems(1) tv by (simp add: rw_replace_def)
  with Cons.IH [OF _ _ ok] Cons.prems(1,2) tv show ?case by (simp add: comp_def)
qed


abbreviation keys_of :: "(string, string) gomap \<Rightarrow> string set" where
  "keys_of repl \<equiv> fst ` set repl"

definition repl_ok :: "char \<Rightarrow> (string, string) gomap \<Rightarrow> bool" where
  "repl_ok b repl \<longleftrightarrow> distinct (gm_keys repl) \<and> tokens_ok b (keys_of repl) \<and> (\<forall>v \<in> snd ` set repl. plain (keys_of repl) v)"

definition expand :: "(string, string) gomap \<Rightarrow> item list \<Rightarrow> string" where
  "expand repl its = render (map (expand_item repl) its)"

definition any_order :: "iteration \<Rightarrow> bool" where
  "any_order it \<longleftrightarrow> (\<forall>m. mset (it m) = mset m)"

lemma any_order_set: "any_order it \<Longrightarrow> set (it m) = set m"
  by (metis any_order_def set_mset_mset)

lemma any_order_expand:
  assumes "any_order it" and "distinct (gm_keys repl)"
  shows "expand_item (it repl) = expand_item repl"
proof -
  have "mset (gm_keys (it repl)) = mset (gm_keys repl)" using assms(1) by (simp add: any_order_def)
  then have "distinct (gm_keys (it repl))" using assms(2) by (metis mset_eq_imp_distinct_iff)
  then have "gm_get (it repl) = gm_get repl"
    using assms(2) any_order_set [OF assms(1), of repl] by (simp add: map_of_inject_set)
  then have "expand_item (it repl) i = expand_item repl i" for i by (cases i) (simp_all add: expand_item_Inr)
  then show ?thesis by blast
qed

lemma expand_Cons: "expand repl (it # its) = render [expand_item repl it] @ expand repl its"
  by (simp add: expand_def render_def)

lemma expand_simps [simp]:
  "expand repl [] = []" "expand repl (Inl w # its) = w @ expand repl its"
  by (simp_all add: expand_def)

lemma expand_plain:
  assumes "repl_ok b repl" and "items_ok (keys_of repl) its"
  obtains ws where "expand repl its = concat ws" and "\<forall>w \<in> set ws. plain (keys_of repl) w"
proof -
  have "plain (keys_of repl) (case_sum id id (expand_item repl it))" if "it \<in> set its" for it
  proof (cases it)
    case (Inl w)
    with that assms(2) show ?thesis by (auto simp: items_ok_def)
  next
    case (Inr t)
    with that assms(2) have "t \<in> set (gm_keys repl)" by (auto simp: items_ok_def)
    then obtain v where v: "gm_get repl t = Some v" using gm_get_None_iff [of repl t] by auto
    with Inr assms(1) gm_entry_in [OF v] show ?thesis by (force simp: repl_ok_def expand_item_Inr)
  qed
  then show thesis by (intro that [of "map (case_sum id id \<circ> expand_item repl) its"]) (auto simp: expand_def render_def)
qed

lemma drop_concat:
  "m < length (concat ws) \<Longrightarrow> \<exists>w \<in> set ws. \<exists>j < length w. \<exists>rest. drop m (concat ws) = drop j w @ rest"
proof (induction ws arbitrary: m)
  case (Cons w ws)
  show ?case
  proof (cases "m < length w")
    case True
    then show ?thesis by auto
  next
    case False
    with Cons.IH [of "m - length w"] Cons.prems show ?thesis by auto
  qed
qed simp

lemma suffix_in_tail:
  assumes "\<forall>w \<in> set ws. plain T w" and "t \<in> T" and "n \<le> length t" and "HasSuffix (concat ws @ x) (take n t)"
  shows "n \<le> length x"
proof (rule ccontr)
  assume n: "\<not> n \<le> length x"
  let ?m = "length (concat ws @ x) - n"
  have "length (take n t) = n" using assms(3) by simp
  then have y: "take n t = drop ?m (concat ws @ x)" and le: "n \<le> length (concat ws @ x)"
    using assms(4) unfolding HasSuffix_def by metis+
  then have "?m < length (concat ws)" using n by auto
  from drop_concat [OF this] obtain w j rest where w: "w \<in> set ws" "j < length w" "drop ?m (concat ws) = drop j w @ rest" by blast
  have "take n t = drop j w @ rest @ x" using y w(3) \<open>?m < length (concat ws)\<close> by (simp add: drop_append)
  moreover have "plain T (drop j w)" using assms(1) w(1) plain_suffix [of T "take j w" "drop j w"] by simp
  moreover have "n = length (take n t)" using assms(3) by simp
  ultimately show False using plain_differs(2) [of T "drop j w" t "rest @ x"] w(2) assms(2) by simp
qed

lemma keep_fold:
  fixes k :: nat
  assumes "r = fold (\<lambda>n keep. if P n \<and> n > keep then n else keep) ns k"
  shows "k \<le> r" and "r = k \<or> r \<in> set ns \<and> P r" and "\<forall>n \<in> set ns. P n \<longrightarrow> n \<le> r"
proof -
  have "k \<le> r \<and> (r = k \<or> r \<in> set ns \<and> P r) \<and> (\<forall>n \<in> set ns. P n \<longrightarrow> n \<le> r)"
    using assms
  proof (induction ns arbitrary: k)
    case (Cons n ns)
    show ?case
    proof (cases "P n \<and> n > k")
      case True
      have "r = fold (\<lambda>n keep. if P n \<and> n > keep then n else keep) ns n" using Cons.prems True by simp
      note ih = Cons.IH [OF this]
      from ih True have "k \<le> r" by (meson less_imp_le order_trans)
      with ih True show ?thesis by (auto simp del: fold.simps)
    next
      case False
      have "r = fold (\<lambda>n keep. if P n \<and> n > keep then n else keep) ns k" using Cons.prems False by simp
      note ih = Cons.IH [OF this]
      from False ih have "P n \<longrightarrow> n \<le> r" by auto
      with ih show ?thesis by auto
    qed
  qed simp
  then show "k \<le> r" and "r = k \<or> r \<in> set ns \<and> P r" and "\<forall>n \<in> set ns. P n \<longrightarrow> n \<le> r" by auto
qed

definition kept :: "string set \<Rightarrow> string \<Rightarrow> nat \<Rightarrow> bool" where
  "kept T s n \<longleftrightarrow> (\<exists>t \<in> T. 0 < n \<and> n < length t \<and> n \<le> length s \<and> HasSuffix s (take n t))"

lemma kept_one: "kept {t} s n \<longleftrightarrow> n \<in> set [1..<min (length t - 1) (length s) + 1] \<and> HasSuffix s (take n t)"
  by (auto simp: kept_def)

lemma keep_loop:
  "r = fold (\<lambda>(token, v) keep. keep_for s token keep) repl k \<Longrightarrow>
     k \<le> r \<and> (r = k \<or> kept (keys_of repl) s r) \<and> (\<forall>n. kept (keys_of repl) s n \<longrightarrow> n \<le> r)"
proof (induction repl arbitrary: k)
  case (Cons tv repl)
  obtain t v where tv: "tv = (t, v)" by (cases tv)
  let ?k = "keep_for s t k"
  have one: "k \<le> ?k" "?k = k \<or> kept {t} s ?k" "\<forall>n. kept {t} s n \<longrightarrow> n \<le> ?k"
    using keep_fold [OF keep_for_def [of s t k]] by (auto simp: kept_one)
  have split: "kept (keys_of (tv # repl)) s n \<longleftrightarrow> kept {t} s n \<or> kept (keys_of repl) s n" for n
    using tv by (auto simp: kept_def)
  have "r = fold (\<lambda>(token, v) keep. keep_for s token keep) repl ?k" using Cons.prems tv by simp
  from Cons.IH [OF this] one show ?case unfolding split by fastforce
qed (simp add: kept_def)

lemma splitReady_tail:
  assumes "\<forall>w \<in> set ws. plain (keys_of repl) w"
  obtains q q' where "splitReady repl (concat ws @ x) = (concat ws @ q, q')" and "x = q @ q'"
    and "token_start (keys_of repl) x \<Longrightarrow> q = []"
proof -
  define r where "r = fold (\<lambda>(token, v) keep. keep_for (concat ws @ x) token keep) repl 0"
  note loop = keep_loop [OF r_def]
  have r: "r \<le> length x"
  proof (cases "r = 0")
    case False
    with loop obtain t where "t \<in> keys_of repl" "r \<le> length t" "HasSuffix (concat ws @ x) (take r t)"
      unfolding kept_def by (metis less_imp_le)
    then show ?thesis by (rule suffix_in_tail [OF assms])
  qed simp
  have "length x \<le> r" if start: "token_start (keys_of repl) x"
  proof -
    obtain t n where "t \<in> keys_of repl" "0 < n" "n < length t" "x = take n t" using start by (auto simp: token_start_def)
    then have "kept (keys_of repl) (concat ws @ x) (length x)"
      unfolding kept_def by (intro bexI [of _ t]) (auto simp: HasSuffix_def)
    with loop show ?thesis by blast
  qed
  with r show thesis
    by (intro that [of "take (length x - r) x" "drop (length x - r) x"]) (auto simp: splitReady_def r_def [symmetric])
qed


text \<open>A piece of the response ends in an item: the items before, the part of the item, and the items still to come.\<close>

lemma split_items:
  assumes "items_ok T its" and "render its = x @ y"
  shows "\<exists>its1 p its2. x = render its1 @ p \<and> unfinished T p \<and> items_ok T its1 \<and> items_ok T its2
    \<and> expand repl its = expand repl its1 @ expand repl its2 \<and> p @ y = render its2
    \<and> (token_start T p \<or> (\<exists>z rest. its2 = Inl (p @ z) # rest))"
  using assms
proof (induction its arbitrary: x)
  case Nil
  then show ?case
    by (intro exI [of _ "[]"] exI [of _ "[Inl []]"]) (auto simp: unfinished_def intro: exI [of _ "[]"])
next
  case (Cons it its)
  let ?w = "case_sum id id it"
  have eq: "?w @ render its = x @ y" using Cons.prems(2) by (simp add: render_def)
  have tail: "items_ok T its" using Cons.prems(1) by (simp add: items_ok_def)
  show ?case
  proof (cases "length ?w \<le> length x")
    case True
    then obtain x' where x': "x = ?w @ x'" "render its = x' @ y" using eq by (auto simp: append_eq_append_conv2)
    then obtain its1 p its2 where ih: "x' = render its1 @ p" "unfinished T p" "items_ok T its1" "items_ok T its2"
      "expand repl its = expand repl its1 @ expand repl its2" "p @ y = render its2"
      "token_start T p \<or> (\<exists>z rest. its2 = Inl (p @ z) # rest)"
      using Cons.IH [OF _ x'(2)] tail by blast
    have "x = render (it # its1) @ p" using x'(1) ih(1) by (simp add: render_def)
    moreover have "items_ok T (it # its1)" using ih(3) Cons.prems(1) by (simp add: items_ok_def)
    ultimately show ?thesis using ih(2,4-7) expand_Cons by (metis append_assoc)
  next
    case False
    show ?thesis
    proof (cases it)
      case (Inl w)
      then obtain z where z: "w = x @ z" "z @ render its = y" using eq False by (auto simp: append_eq_append_conv2)
      with Inl Cons.prems(1) show ?thesis
        by (intro exI [of _ "[]"] exI [of _ x] exI [of _ "it # its"]) (auto simp: unfinished_def)
    next
      case (Inr t)
      show ?thesis
      proof (cases "x = []")
        case True
        with Cons.prems show ?thesis
          by (intro exI [of _ "[]"] exI [of _ "Inl [] # it # its"]) (auto simp: unfinished_def intro: exI [of _ "[]"])
      next
        case nonempty: False
        from Inr eq False have "x = take (length x) t" "length x < length t" by (auto simp: append_eq_append_conv2)
        then have "token_start T x" using Inr Cons.prems(1) nonempty by (auto simp: token_start_def)
        with Inr Cons.prems eq show ?thesis
          by (intro exI [of _ "[]"] exI [of _ x] exI [of _ "it # its"]) (auto simp: unfinished_def)
      qed
    qed
  qed
qed

lemma rw_Write_items:
  assumes "repl_ok b (replacements w)" and "items_ok (keys_of (replacements w)) its" and "pending w @ data @ y = render its"
    and "any_order it1" and "any_order it2"
  shows "\<exists>its2 out. items_ok (keys_of (replacements w)) its2 \<and> pending (rw_Write (it1, it2, data) w) @ y = render its2
    \<and> written (rw_Write (it1, it2, data) w) = written w @ out \<and> out @ expand (replacements w) its2 = expand (replacements w) its
    \<and> replacements (rw_Write (it1, it2, data) w) = replacements w"
proof -
  let ?repl = "replacements w" and ?T = "keys_of (replacements w)"
  have "render its = (pending w @ data) @ y" using assms(3) by simp
  from split_items [OF assms(2) this, of ?repl] obtain its1 p its2 where
    s: "pending w @ data = render its1 @ p" "unfinished ?T p" "items_ok ?T its1" "items_ok ?T its2"
    "expand ?repl its = expand ?repl its1 @ expand ?repl its2" "p @ y = render its2"
    and kind: "token_start ?T p \<or> (\<exists>z rest. its2 = Inl (p @ z) # rest)" by blast
  have "rw_replace (it1 ?repl) (pending w @ data) = expand ?repl its1 @ p"
    using rw_replace_items [of b ?T p "it1 ?repl" its1] assms(1) s(1-3) any_order_expand [OF assms(4)] any_order_set [OF assms(4)]
    by (simp add: repl_ok_def expand_def)
  moreover obtain ws where ws: "expand ?repl its1 = concat ws" "\<forall>v \<in> set ws. plain ?T v"
    using expand_plain [OF assms(1) s(3)] .
  have "\<forall>v \<in> set ws. plain (keys_of (it2 ?repl)) v" using ws(2) any_order_set [OF assms(5)] by simp
  moreover from splitReady_tail [OF this, of p] obtain q q' where
    q: "splitReady (it2 ?repl) (concat ws @ p) = (concat ws @ q, q')" "p = q @ q'" "token_start ?T p \<Longrightarrow> q = []"
    using any_order_set [OF assms(5)] by metis
  ultimately have W: "rw_Write (it1, it2, data) w = w\<lparr>pending := q', written := written w @ expand ?repl its1 @ q\<rparr>"
    using ws(1) by (simp add: rw_Write_def)
  from kind show ?thesis
  proof
    assume "token_start ?T p"
    with q s(4-6) W show ?thesis by (intro exI [of _ its2] exI [of _ "expand ?repl its1 @ q"]) simp
  next
    assume "\<exists>z rest. its2 = Inl (p @ z) # rest"
    then obtain z rest where its2: "its2 = Inl (p @ z) # rest" by blast
    have "plain ?T (q' @ z)" using s(4) its2 q(2) plain_suffix [of ?T q "q' @ z"] by simp
    with its2 q(2) s(4-6) W show ?thesis
      by (intro exI [of _ "Inl (q' @ z) # rest"] exI [of _ "expand ?repl its1 @ q"]) simp
  qed
qed

lemma rw_replace_Nil: "rw_replace repl [] = []"
  unfolding rw_replace_def by (induction repl) auto

lemma rw_Finish_items:
  assumes "repl_ok b (replacements w)" and "items_ok (keys_of (replacements w)) its" and "pending w = render its" and "any_order it"
  shows "written (rw_Finish it w) = written w @ expand (replacements w) its"
proof -
  have "unfinished (keys_of (replacements w)) []" by (auto simp: unfinished_def intro: exI [of _ "[]"])
  then have "rw_replace (it (replacements w)) (render its @ []) = expand (replacements w) its @ []"
    using rw_replace_items [of b "keys_of (replacements w)" "[]" "it (replacements w)" its] assms(1,2)
      any_order_expand [OF assms(4)] any_order_set [OF assms(4)]
    by (simp add: repl_ok_def expand_def)
  then show ?thesis using assms(3) rw_replace_Nil by (auto simp: rw_Finish_def)
qed

lemma stream_restored:
  "repl_ok b (replacements w) \<Longrightarrow> items_ok (keys_of (replacements w)) its \<Longrightarrow> pending w @ concat (map (snd \<circ> snd) calls) = render its
     \<Longrightarrow> \<forall>(it1, it2, data) \<in> set calls. any_order it1 \<and> any_order it2 \<Longrightarrow> any_order it
     \<Longrightarrow> written (rw_Finish it (fold rw_Write calls w)) = written w @ expand (replacements w) its"
proof (induction calls arbitrary: w its)
  case Nil
  then show ?case using rw_Finish_items by simp
next
  case (Cons call calls)
  obtain it1 it2 data where call: "call = (it1, it2, data)" by (cases call)
  have "pending w @ data @ concat (map (snd \<circ> snd) calls) = render its" "any_order it1" "any_order it2"
    using Cons.prems(3,4) call by (simp_all add: comp_def)
  from rw_Write_items [OF Cons.prems(1,2) this] obtain its2 out where
    s: "items_ok (keys_of (replacements w)) its2" "pending (rw_Write call w) @ concat (map (snd \<circ> snd) calls) = render its2"
    "written (rw_Write call w) = written w @ out" "out @ expand (replacements w) its2 = expand (replacements w) its"
    "replacements (rw_Write call w) = replacements w" unfolding call by blast
  from Cons.IH [of "rw_Write call w" its2] Cons.prems(1,4,5) s show ?case by (simp add: comp_def)
qed

end
