(* ===== verification/PiiPseudonymProps.thy ===== *)
theory PiiPseudonymProps
  imports PiiPseudonym
begin

text \<open>
  Reversible redaction end to end: with the default prefix and suffix the tokens of a pseudonymizer differ
  for different values and cannot be confused in a stream, and a response is restored exactly.
\<close>

section \<open>Numbers and groups in tokens\<close>

definition dec_value :: "string \<Rightarrow> nat" where
  "dec_value s = foldl (\<lambda>a c. 10 * a + (of_char c - 48)) 0 s"

lemma dec_value_dec_of: "dec_value (dec_of n) = n"
proof (induction n rule: dec_of.induct)
  case (1 n)
  have digit: "of_char (digit_char d) - 48 = d" if "d < 10" for d
    using that by (simp add: digit_char_def)
  show ?case
  proof (cases "n < 10")
    case True
    with digit [of n] show ?thesis by (subst dec_of.simps) (simp add: dec_value_def)
  next
    case False
    with 1 digit [of "n mod 10"] show ?thesis by (subst dec_of.simps) (simp add: dec_value_def)
  qed
qed

lemma pad3_value: "dec_value (pad3 n) = n"
proof -
  have "foldl (\<lambda>a c. 10 * a + (of_char c - 48)) 0 (replicate k (CHR ''0'')) = (0 :: nat)" for k
    by (induction k) auto
  then show ?thesis using dec_value_dec_of [of n] by (simp add: pad3_def dec_value_def)
qed

lemma pad3_digits:
  assumes "c \<in> set (pad3 n)"
  shows "\<exists>d < 10. c = digit_char d"
proof -
  have "CHR ''0'' = digit_char 0" by code_simp
  with assms have "c = digit_char 0 \<or> c \<in> set (dec_of n)" by (auto simp: pad3_def)
  with dec_of_digits [of c n] show ?thesis by (metis zero_less_numeral)
qed

lemma digit_no_delimiter: "d < 10 \<Longrightarrow> digit_char d \<notin> {CHR ''['', CHR '']'', CHR ''_''}"
  by (auto simp: digit_char_def dest!: arg_cong [where f = "of_char :: char \<Rightarrow> nat"])

lemma pad3_no_delimiter: "{CHR ''['', CHR '']'', CHR ''_''} \<inter> set (pad3 n) = {}"
  using pad3_digits [of _ n] digit_no_delimiter by (metis disjoint_iff)

abbreviation token :: "string \<Rightarrow> nat \<Rightarrow> string" where
  "token g n \<equiv> mk_token defaultReversibleTokenPrefix defaultReversibleTokenSuffix g n"

lemma mk_token_inj:
  assumes "mk_token pre suf g n = mk_token pre suf g' n'"
  shows "g = g' \<and> n = n'"
proof -
  have eq: "g @ ''_'' @ pad3 n = g' @ ''_'' @ pad3 n'" using assms by (simp add: mk_token_def)
  have last: "takeWhile (\<lambda>c. c \<noteq> CHR ''_'') (rev (g @ ''_'' @ pad3 n)) = rev (pad3 n)" for g n
  proof -
    have "takeWhile (\<lambda>c. c \<noteq> CHR ''_'') (rev (pad3 n) @ CHR ''_'' # rev g) = rev (pad3 n) @ takeWhile (\<lambda>c. c \<noteq> CHR ''_'') (CHR ''_'' # rev g)"
      using pad3_no_delimiter [of n] by (intro takeWhile_append2) auto
    then show ?thesis by simp
  qed
  have "pad3 n = pad3 n'" using last [of g n] last [of g' n'] unfolding eq by simp
  with eq pad3_value show ?thesis by (metis append_same_eq)
qed

text \<open>A group has no brackets if letters and digits do not include them.\<close>

definition brackets_plain :: "unicode \<Rightarrow> bool" where
  "brackets_plain u \<longleftrightarrow> (\<forall>r \<in> {91, 93}. \<not> IsLetter u r \<and> \<not> IsDigit u r)"

definition group_ok :: "string \<Rightarrow> bool" where
  "group_ok g \<longleftrightarrow> CHR ''['' \<notin> set g \<and> CHR '']'' \<notin> set g"

lemma EncodeRune_bytes:
  assumes "c \<in> set (EncodeRune r)"
  shows "r < 0x80 \<and> c = char_of r \<or> 0x80 \<le> (of_char c :: nat)"
proof -
  have "r div 0x40 < 0x40" if "r < 0x800" using that by auto
  moreover have "r div 0x40000 < 0x10" if "r \<le> 0x10FFFF" using that by auto
  moreover have "r div 0x1000 < 0x10" if "r < 0x10000" using that by auto
  ultimately show ?thesis
    using assms by (auto simp: EncodeRune_def split: if_splits)
qed

lemma EncodeRune_group: "r \<notin> {91, 93} \<Longrightarrow> group_ok (EncodeRune r)"
proof -
  assume r: "r \<notin> {91, 93}"
  have "c \<notin> {CHR ''['', CHR '']''}" if "c \<in> set (EncodeRune r)" for c
    using EncodeRune_bytes [OF that] r by (auto dest!: arg_cong [where f = "of_char :: char \<Rightarrow> nat"])
  then show ?thesis by (auto simp: group_ok_def)
qed

lemma group_ok_append [simp]: "group_ok (a @ b) \<longleftrightarrow> group_ok a \<and> group_ok b"
  by (auto simp: group_ok_def)

lemma group_loop_ok: "brackets_plain u \<Longrightarrow> group_ok (group_loop u s)"
proof (induction u s rule: group_loop.induct)
  case (1 u s)
  show ?case
  proof (cases "s = []")
    case False
    obtain r sz where d: "DecodeRune s = (r, sz)" by fastforce
    have "group_ok (group_loop u (drop sz s))" using 1 False d by simp
    moreover have "group_ok (if IsLetter u r \<or> IsDigit u r then EncodeRune r else ''_'')"
      using EncodeRune_group [of r] 1(2) by (auto simp: brackets_plain_def group_ok_def)
    ultimately show ?thesis using False d by (subst group_loop.simps) simp
  qed (simp add: group_loop.simps [of u "[]"] group_ok_def)
qed

lemma pseudonymGroup_ok: "brackets_plain u \<Longrightarrow> group_ok (pseudonymGroup upper u pattern)"
proof -
  assume "brackets_plain u"
  moreover have "group_ok ''PII''" by (simp add: group_ok_def)
  ultimately show ?thesis using group_loop_ok by (simp add: pseudonymGroup_def Let_def)
qed

lemma tokens_distinct:
  "\<forall>t \<in> T. \<exists>g n. t = token g n \<and> group_ok g \<Longrightarrow> tokens_ok (CHR ''['') T"
  unfolding tokens_ok_def
proof (intro conjI ballI impI)
  assume T: "\<forall>t \<in> T. \<exists>g n. t = token g n \<and> group_ok g"
  fix t assume "t \<in> T"
  with T obtain g n where t: "t = token g n" "group_ok g" by blast
  then have "t = CHR ''['' # ''REDACTED:'' @ g @ ''_'' @ pad3 n @ '']''"
    by (simp add: mk_token_def defaultReversibleTokenPrefix_def defaultReversibleTokenSuffix_def)
  then show "t \<noteq> []" "hd t = CHR ''[''" "CHR ''['' \<notin> set (tl t)"
    using t(2) pad3_no_delimiter [of n] by (auto simp: group_ok_def)
next
  assume T: "\<forall>t \<in> T. \<exists>g n. t = token g n \<and> group_ok g"
  fix t t' assume t: "t \<in> T" "t' \<in> T" "take (length t) t' = t"
  have shape: "\<exists>y. t = y @ '']'' \<and> CHR '']'' \<notin> set y" if "t \<in> T" for t
  proof -
    from T that obtain g n where "t = token g n" "group_ok g" by blast
    then show ?thesis
      using pad3_no_delimiter [of n]
      by (intro exI [of _ "''[REDACTED:'' @ g @ ''_'' @ pad3 n"])
        (auto simp: mk_token_def defaultReversibleTokenPrefix_def defaultReversibleTokenSuffix_def group_ok_def)
  qed
  from shape [OF t(1)] obtain y where y: "t = y @ '']''" by blast
  from shape [OF t(2)] obtain y' where y': "t' = y' @ '']''" "CHR '']'' \<notin> set y'" by blast
  show "t = t'"
  proof (cases "length t < length t'")
    case True
    then have "t = take (length t) y'" using t(3) y'(1) by simp
    with y have "CHR '']'' \<in> set y'" by (metis in_set_conv_decomp in_set_takeD)
    with y'(2) show ?thesis by simp
  next
    case False
    with t(3) show ?thesis by simp
  qed
qed

section \<open>The pseudonymizer\<close>

definition pn_ok :: "pseudonymizer \<Rightarrow> bool" where
  "pn_ok p \<longleftrightarrow> tok_prefix p = defaultReversibleTokenPrefix \<and> tok_suffix p = defaultReversibleTokenSuffix
     \<and> distinct (gm_keys (original p))
     \<and> (\<forall>v t. gm_get (byValue p) v = Some t \<longleftrightarrow> gm_get (original p) t = Some v)
     \<and> (\<forall>t \<in> set (gm_keys (original p)). \<exists>g n. t = token g n \<and> group_ok g \<and> n \<le> gm_get0 0 (counts p) g)"

lemma pn_ok_new: "pn_ok (newPseudonymizer defaultReversibleTokenPrefix defaultReversibleTokenSuffix)"
  by (simp add: pn_ok_def newPseudonymizer_def)

definition grows :: "pseudonymizer \<Rightarrow> pseudonymizer \<Rightarrow> bool" where
  "grows p p' \<longleftrightarrow> (\<forall>t v. gm_get (original p) t = Some v \<longrightarrow> gm_get (original p') t = Some v)"

lemma token_for_ok:
  assumes "brackets_plain u" and "pn_ok p" and "token_for upper u pattern v p = (t, p')"
  shows "pn_ok p' \<and> grows p p' \<and> gm_get (original p') t = Some v"
proof (cases "gm_get (byValue p) v")
  case (Some t0)
  with assms show ?thesis by (auto simp: token_for_def pn_ok_def grows_def)
next
  case None
  define g where "g = pseudonymGroup upper u pattern"
  define n where "n = gm_get0 0 (counts p) g + 1"
  have t: "t = token g n" and p': "p' = p\<lparr>counts := gm_put g n (counts p), byValue := gm_put v t (byValue p), original := gm_put t v (original p)\<rparr>"
    using assms(2,3) None by (auto simp: token_for_def Let_def g_def n_def pn_ok_def)
  have old: "\<exists>g' n'. t' = token g' n' \<and> group_ok g' \<and> n' \<le> gm_get0 0 (counts p) g'" if "t' \<in> set (gm_keys (original p))" for t'
    using assms(2) that by (auto simp: pn_ok_def)
  have fresh: "gm_get (original p) t = None"
  proof (rule ccontr)
    assume "gm_get (original p) t \<noteq> None"
    then have "t \<in> set (gm_keys (original p))" using gm_get_None_iff by metis
    from old [OF this] obtain g' n' where "t = token g' n'" "n' \<le> gm_get0 0 (counts p) g'" by blast
    with t mk_token_inj show False by (fastforce simp: n_def)
  qed
  have count: "gm_get0 0 (counts p') g' = (if g' = g then n else gm_get0 0 (counts p) g')" for g'
    using p' by (simp add: gm_get0_def gm_get_put)
  have "\<forall>t' \<in> set (gm_keys (original p')). \<exists>g' n'. t' = token g' n' \<and> group_ok g' \<and> n' \<le> gm_get0 0 (counts p') g'"
  proof
    fix t' assume "t' \<in> set (gm_keys (original p'))"
    moreover have "set (gm_keys (original p')) = insert t (set (gm_keys (original p)))"
      using p' gm_put_keys [of t v "original p"] by simp
    ultimately consider "t' = t" | "t' \<in> set (gm_keys (original p))" by blast
    then show "\<exists>g' n'. t' = token g' n' \<and> group_ok g' \<and> n' \<le> gm_get0 0 (counts p') g'"
    proof cases
      case 1
      with t count [of g] pseudonymGroup_ok [OF assms(1)] show ?thesis unfolding g_def by fastforce
    next
      case 2
      from old [OF 2] obtain g' n' where "t' = token g' n'" "group_ok g'" "n' \<le> gm_get0 0 (counts p) g'" by blast
      then show ?thesis using count [of g'] by (intro exI [of _ g'] exI [of _ n']) (auto simp: n_def)
    qed
  qed
  moreover have "gm_get (byValue p') v' = Some t' \<longleftrightarrow> gm_get (original p') t' = Some v'" for v' t'
  proof -
    have inv: "gm_get (byValue p) v' = Some t' \<longleftrightarrow> gm_get (original p) t' = Some v'" using assms(2) by (simp add: pn_ok_def)
    show ?thesis using inv None fresh p' by (auto simp: gm_get_put)
  qed
  ultimately have "pn_ok p'" using assms(2) p' unfolding pn_ok_def by simp
  moreover have "grows p p'" "gm_get (original p') t = Some v" using p' fresh by (auto simp: grows_def gm_get_put)
  ultimately show ?thesis by blast
qed


text \<open>A redacted text as items, and what the tokens stand for.\<close>

definition decode :: "(string, string) gomap \<Rightarrow> item list \<Rightarrow> string" where
  "decode orig its = concat (map (case_sum id (\<lambda>t. the (gm_get orig t))) its)"

definition redaction_of :: "pseudonymizer \<Rightarrow> string \<Rightarrow> string \<Rightarrow> bool" where
  "redaction_of p out tx \<longleftrightarrow> (\<exists>its. out = render its \<and> decode (original p) its = tx
     \<and> (\<forall>it \<in> set its. case it of Inl w \<Rightarrow> CHR ''['' \<notin> set w | Inr t \<Rightarrow> gm_get (original p) t \<noteq> None))"

lemma redaction_of_grows:
  assumes "redaction_of p out tx" and "grows p p'"
  shows "redaction_of p' out tx"
proof -
  obtain its where its: "out = render its" "decode (original p) its = tx"
    "\<forall>it \<in> set its. case it of Inl w \<Rightarrow> CHR ''['' \<notin> set w | Inr t \<Rightarrow> gm_get (original p) t \<noteq> None"
    using assms(1) by (auto simp: redaction_of_def)
  have same: "gm_get (original p') t = gm_get (original p) t" if "Inr t \<in> set its" for t
    using its(3) that assms(2) unfolding grows_def by fastforce
  have "decode (original p') its = decode (original p) its"
    unfolding decode_def using same by (intro arg_cong [where f = concat] map_cong refl) (auto split: sum.split)
  moreover have "\<forall>it \<in> set its. case it of Inl w \<Rightarrow> CHR ''['' \<notin> set w | Inr t \<Rightarrow> gm_get (original p') t \<noteq> None"
    using its(3) same by (auto split: sum.splits)
  ultimately show ?thesis using its(1,2) unfolding redaction_of_def by blast
qed

definition values_ok :: "(string \<Rightarrow> bool) \<Rightarrow> pseudonymizer \<Rightarrow> bool" where
  "values_ok Q p \<longleftrightarrow> (\<forall>t v. gm_get (original p) t = Some v \<longrightarrow> Q v)"

lemma token_for_values:
  "values_ok Q p \<Longrightarrow> Q v \<Longrightarrow> token_for upper u pattern v p = (t, p') \<Longrightarrow> values_ok Q p'"
  by (auto simp: token_for_def values_ok_def Let_def gm_get_put split: option.splits if_splits)

lemma redaction_of_append:
  "redaction_of p a x \<Longrightarrow> redaction_of p b y \<Longrightarrow> redaction_of p (a @ b) (x @ y)"
  unfolding redaction_of_def by (elim exE conjE, rule_tac x = "its @ itsa" in exI) (auto simp: render_def decode_def)

lemma redaction_of_text: "CHR ''['' \<notin> set w \<Longrightarrow> redaction_of p w w"
  unfolding redaction_of_def by (rule exI [of _ "[Inl w]"]) (simp add: decode_def)

lemma redaction_of_token: "gm_get (original p) t = Some v \<Longrightarrow> redaction_of p t v"
  unfolding redaction_of_def by (rule exI [of _ "[Inr t]"]) (simp add: decode_def)

lemma grows_refl [simp]: "grows p p"
  by (simp add: grows_def)

lemma grows_trans: "grows p q \<Longrightarrow> grows q r \<Longrightarrow> grows p r"
  by (simp add: grows_def)

lemma sub_split: "a \<le> b \<Longrightarrow> b \<le> c \<Longrightarrow> c \<le> length tx \<Longrightarrow> sub tx a b @ sub tx b c = sub tx a c"
proof -
  assume le: "a \<le> b" "b \<le> c" "c \<le> length tx"
  then have "[a..<b] @ [b..<c] = [a..<c]" by (metis le_add_diff_inverse upt_add_eq_append)
  then have "map ((!) tx) [a..<b] @ map ((!) tx) [b..<c] = map ((!) tx) [a..<c]" by (metis map_append)
  with le show ?thesis by (simp add: map_nth_sub)
qed

lemma sub_unmarked: "c \<notin> set tx \<Longrightarrow> c \<notin> set (sub tx a b)"
  by (auto simp: sub_def dest: in_set_takeD in_set_dropD)

lemma replace_loop_ok:
  assumes "brackets_plain u" and "CHR ''['' \<notin> set tx" and "\<forall>sp \<in> set spans. Q (sub tx (s_start sp) (s_end sp))"
  shows "pn_ok p \<Longrightarrow> values_ok Q p \<Longrightarrow> intervals l (length tx) (map span_iv spans) \<Longrightarrow> l \<le> length tx
    \<Longrightarrow> \<exists>r p'. replace_loop upper u tx spans l out p = Some (out @ r, p') \<and> pn_ok p' \<and> values_ok Q p' \<and> grows p p'
      \<and> redaction_of p' r (sub tx l (length tx))"
  using assms(3)
proof (induction spans arbitrary: l out p)
  case Nil
  then show ?case using sub_unmarked [OF assms(2)] by (simp add: substr_def redaction_of_text)
next
  case (Cons sp sps)
  have iv: "l \<le> s_start sp" "s_start sp < s_end sp" "s_end sp \<le> length tx" "intervals (s_end sp) (length tx) (map span_iv sps)"
    using Cons.prems(3) by simp_all
  show ?case
  proof (cases "s_action sp = ActionMask")
    case True
    let ?v = "sub tx (s_start sp) (s_end sp)"
    obtain t p1 where t: "token_for upper u (s_pattern sp) ?v p = (t, p1)" by fastforce
    note ok = token_for_ok [OF assms(1) Cons.prems(1) t] token_for_values [OF Cons.prems(2) _ t]
    from Cons.IH [of p1 "s_end sp" "out @ sub tx l (s_start sp) @ t"] ok iv Cons.prems(5) obtain r p' where
      r: "replace_loop upper u tx sps (s_end sp) (out @ sub tx l (s_start sp) @ t) p1 = Some ((out @ sub tx l (s_start sp) @ t) @ r, p')"
      "pn_ok p'" "values_ok Q p'" "grows p1 p'" "redaction_of p' r (sub tx (s_end sp) (length tx))" by auto
    have "replace_loop upper u tx (sp # sps) l out p = Some (out @ (sub tx l (s_start sp) @ t @ r), p')"
      using True iv t r(1) by (simp add: substr_def)
    moreover have "gm_get (original p') t = Some ?v" using ok r(4) by (simp add: grows_def)
    then have "redaction_of p' (sub tx l (s_start sp) @ t @ r) (sub tx l (s_start sp) @ ?v @ sub tx (s_end sp) (length tx))"
      using redaction_of_append [OF redaction_of_text redaction_of_append [OF redaction_of_token r(5)]] sub_unmarked [OF assms(2)] by blast
    then have "redaction_of p' (sub tx l (s_start sp) @ t @ r) (sub tx l (length tx))"
      using iv by (simp add: sub_split)
    ultimately show ?thesis using r(2-4) ok grows_trans by blast
  next
    case False
    have "intervals l (length tx) (map span_iv sps)" using iv by (auto intro: intervals_mono)
    with False Cons show ?thesis by simp
  qed
qed


section \<open>Round trip\<close>

text \<open>The messages of a request one after the other, with one pseudonymizer.\<close>

fun redact_messages ::
  "(string \<Rightarrow> string) \<Rightarrow> unicode \<Rightarrow> (string \<times> Span list) list \<Rightarrow> pseudonymizer \<Rightarrow> (string list \<times> pseudonymizer) option" where
  "redact_messages upper u [] p = Some ([], p)"
| "redact_messages upper u ((tx, spans) # msgs) p =
     (case pn_replace upper u tx spans p of
        None \<Rightarrow> None
      | Some (out, p1) \<Rightarrow> map_option (\<lambda>(outs, p2). (out # outs, p2)) (redact_messages upper u msgs p1))"

definition message_ok :: "(string \<Rightarrow> bool) \<Rightarrow> string \<times> Span list \<Rightarrow> bool" where
  "message_ok Q m \<longleftrightarrow> CHR ''['' \<notin> set (fst m) \<and> intervals 0 (length (fst m)) (map span_iv (snd m))
     \<and> (\<forall>sp \<in> set (snd m). Q (sub (fst m) (s_start sp) (s_end sp)))"

lemma redact_messages_ok:
  "brackets_plain u \<Longrightarrow> pn_ok p \<Longrightarrow> values_ok Q p \<Longrightarrow> \<forall>m \<in> set msgs. message_ok Q m \<Longrightarrow>
     \<exists>outs p'. redact_messages upper u msgs p = Some (outs, p') \<and> pn_ok p' \<and> values_ok Q p' \<and> grows p p'
       \<and> list_all2 (\<lambda>out m. redaction_of p' out (fst m)) outs msgs"
proof (induction msgs arbitrary: p)
  case (Cons m msgs)
  obtain tx spans where m: "m = (tx, spans)" by (cases m)
  from replace_loop_ok [of u tx spans Q p 0 upper "[]"] Cons.prems m obtain r p1 where
    r: "pn_replace upper u tx spans p = Some (r, p1)" "pn_ok p1" "values_ok Q p1" "grows p p1" "redaction_of p1 r tx"
    by (auto simp: message_ok_def pn_replace_def sub_def)
  from Cons.IH [OF Cons.prems(1) r(2,3)] Cons.prems(4) obtain outs p' where
    o: "redact_messages upper u msgs p1 = Some (outs, p')" "pn_ok p'" "values_ok Q p'" "grows p1 p'"
    "list_all2 (\<lambda>out m. redaction_of p' out (fst m)) outs msgs" by auto
  with r m redaction_of_grows [OF r(5) o(4)] grows_trans [OF r(4) o(4)] show ?case by auto
qed simp

lemma pn_tokens_ok: "pn_ok p \<Longrightarrow> tokens_ok (CHR ''['') (set (gm_keys (original p)))"
  by (rule tokens_distinct) (unfold pn_ok_def, blast)

lemma writer_repl:
  "replacements (newRestoringWriter enc orig) = map (\<lambda>(t, v). (t, enc v)) orig"
  "gm_keys (map (\<lambda>(t, v). (t, enc v)) orig) = gm_keys orig"
  "gm_get (map (\<lambda>(t, v). (t, enc v)) orig) t = map_option enc (gm_get orig t)"
  by (simp_all add: newRestoringWriter_def comp_def case_prod_beta map_of_map)

text \<open>Values that JSON leaves as they are and that have no bracket.\<close>

definition json_plain :: "(string \<Rightarrow> string) \<Rightarrow> string \<Rightarrow> bool" where
  "json_plain enc v \<longleftrightarrow> enc v = v \<and> CHR ''['' \<notin> set v"

abbreviation repl_of :: "(string \<Rightarrow> string) \<Rightarrow> pseudonymizer \<Rightarrow> (string, string) gomap" where
  "repl_of enc p \<equiv> map (\<lambda>(t, v). (t, enc v)) (original p)"

lemma writer_keys: "keys_of (repl_of enc p) = set (gm_keys (original p))"
  by (simp add: image_image case_prod_beta)

lemma writer_repl_ok:
  assumes "pn_ok p" and "values_ok (json_plain enc) p"
  shows "repl_ok (CHR ''['') (repl_of enc p)"
proof -
  have d: "distinct (gm_keys (original p))" using assms(1) by (simp only: pn_ok_def)
  have "CHR ''['' \<notin> set (enc v)" if "(t, v) \<in> set (original p)" for t v
    using assms(2) gm_get_entry [OF d that] by (simp add: values_ok_def json_plain_def)
  then have "CHR ''['' \<notin> set v" if "v \<in> snd ` set (repl_of enc p)" for v
    using that by auto
  then have "\<forall>v \<in> snd ` set (repl_of enc p). plain (keys_of (repl_of enc p)) v"
    using unmarked_plain [OF pn_tokens_ok [OF assms(1)]] unfolding writer_keys by blast
  then show ?thesis
    using d pn_tokens_ok [OF assms(1)] unfolding repl_ok_def writer_keys writer_repl(2) by blast
qed

lemma writer_expand:
  assumes "values_ok (json_plain enc) p" and "\<forall>t. Inr t \<in> set its \<longrightarrow> gm_get (original p) t \<noteq> None"
  shows "expand (repl_of enc p) its = decode (original p) its"
proof -
  have "case_sum id id (expand_item (repl_of enc p) it) = case_sum id (\<lambda>t. the (gm_get (original p) t)) it" if i: "it \<in> set its" for it
  proof (cases it)
    case (Inr t)
    then obtain v where "gm_get (original p) t = Some v" using assms(2) i by auto
    with Inr assms(1) show ?thesis by (simp add: expand_item_Inr writer_repl values_ok_def json_plain_def)
  qed simp
  then show ?thesis
    unfolding expand_def render_def decode_def map_map by (intro arg_cong [where f = concat] map_cong) auto
qed

lemma redaction_items:
  assumes "pn_ok p" and "values_ok (json_plain enc) p" and "redaction_of p out tx"
  shows "\<exists>its. out = render its \<and> items_ok (set (gm_keys (original p))) its \<and> decode (original p) its = tx"
proof -
  obtain its where its: "out = render its" "decode (original p) its = tx"
    "\<forall>it \<in> set its. case it of Inl w \<Rightarrow> CHR ''['' \<notin> set w | Inr t \<Rightarrow> gm_get (original p) t \<noteq> None"
    using assms(3) by (auto simp: redaction_of_def)
  have "case it of Inl w \<Rightarrow> plain (set (gm_keys (original p))) w | Inr t \<Rightarrow> t \<in> set (gm_keys (original p))" if "it \<in> set its" for it
  proof (cases it)
    case (Inl w)
    with its(3) that have "CHR ''['' \<notin> set w" by fastforce
    with Inl show ?thesis using unmarked_plain [OF pn_tokens_ok [OF assms(1)]] by simp
  next
    case (Inr t)
    with its(3) that have "gm_get (original p) t \<noteq> None" by fastforce
    with Inr show ?thesis using gm_get_None_iff [of "original p" t] by simp
  qed
  then have "items_ok (set (gm_keys (original p))) its" unfolding items_ok_def by blast
  with its(1,2) show ?thesis by blast
qed

lemma writer_stream:
  assumes "pn_ok p" and "values_ok (json_plain enc) p" and "items_ok (set (gm_keys (original p))) its"
    and "concat (map (snd \<circ> snd) calls) = render its"
    and "\<forall>(it1, it2, data) \<in> set calls. any_order it1 \<and> any_order it2" and "any_order it"
  shows "written (rw_Finish it (fold rw_Write calls (newRestoringWriter enc (original p)))) = decode (original p) its"
proof -
  let ?w = "newRestoringWriter enc (original p)"
  have w: "replacements ?w = repl_of enc p" "pending ?w = []" "written ?w = []" by (simp_all add: newRestoringWriter_def)
  have "\<forall>t. Inr t \<in> set its \<longrightarrow> gm_get (original p) t \<noteq> None"
    using assms(3) gm_get_None_iff [of "original p"] by (fastforce simp: items_ok_def)
  note expand = writer_expand [OF assms(2) this]
  have ok: "items_ok (keys_of (repl_of enc p)) its" using assms(3) unfolding writer_keys .
  have "pending ?w @ concat (map (snd \<circ> snd) calls) = render its" using assms(4) w(2) by simp
  from stream_restored [OF _ _ this assms(5,6), of "CHR ''[''", unfolded w, OF writer_repl_ok [OF assms(1,2)] ok]
  show ?thesis by (simp add: expand)
qed



definition wit_class :: unicode where
  "wit_class = \<lparr>IsSpace = (\<lambda>r. r = 32), IsLetter = (\<lambda>r. 65 \<le> r \<and> r \<le> 90), IsDigit = (\<lambda>r. False), IsMark = (\<lambda>r. False)\<rparr>"

definition wit_messages :: "(string \<times> Span list) list" where
  "wit_messages = [(''hi Bob'', [\<lparr>s_start = 3, s_end = 6, s_pattern = ''ner:PER'', s_hash = [], s_action = ActionMask, s_score = 0\<rparr>])]"


end
