(* ===== verification/PiiMiddleware.thy ===== *)
theory PiiMiddleware
  imports PiiRedactorProps PiiEvents PiiPseudonymProps
begin

text \<open>
  The request middleware of the PII filter, \<open>middleware.go\<close>: the whole handler, from the gates to the call of the
  next handler. What it reads from the request context, from its options and through the adapter is the
  record \<open>mw_env\<close>; the random event identifiers and the clock are functions of a counter. The answer is an
  \<open>outcome\<close>: the handler is passed through (\<open>PassThrough\<close>), or the next handler runs with updates applied to the request,
  the event identifier put in the context and the table of the restoring writer (\<open>Next\<close>), or the request is refused
  with a status, an error type, the event identifier of the answer and the one put in the context
  (\<open>Rejected\<close>). Log lines, error messages and the check of \<open>contract.Invariant\<close> on the pattern, which only logs and
  counts outside builds tagged \<open>routing_strict\<close>, are left out.
\<close>

section \<open>Environment and outcome\<close>

record mw_env =
  hasRedactor :: bool
  hasScan :: bool
  policyResolver :: "(bool \<times> string list) option"
  modelPIIConfig :: "(bool \<times> string list) option"
  hasParsed :: bool
  blockUnscannedMedia_on :: bool
  adapterUnscanned :: "string list option"
  nerResolver :: "(string \<Rightarrow> NERConfig option) option"
  mw_userID :: string
  mw_correlationID :: string
  scannedTexts :: "(int \<times> string) list"
  responsePII :: "(bool \<times> string \<times> string) option"
  hasApply :: bool

record mw_state =
  mw_store :: "memoryEventStore option"
  drawn :: nat

datatype outcome =
    PassThrough
  | Next "(int \<times> string) list" "string option" "(string, string) gomap"
  | Rejected int string string "string option"

text \<open>The libraries and tables the handler works with.\<close>

record mw_lib =
  lib_unicode :: unicode
  lib_matcher :: matcher
  lib_sort :: "rawHit list \<Rightarrow> rawHit list"
  lib_sha256 :: "string \<Rightarrow> string"
  lib_upper :: "string \<Rightarrow> string"
  lib_ids :: "nat \<Rightarrow> string"
  lib_clock :: "nat \<Rightarrow> time"

definition OriginMiddleware :: string where "OriginMiddleware = ''middleware''"

definition DirectionIn :: string where "DirectionIn = ''in''"

definition nerUnavailablePattern :: string where "nerUnavailablePattern = ''__ner_unavailable__''"

definition unscannedMediaPattern :: string where "unscannedMediaPattern = ''__unscanned_media__''"

section \<open>Events\<close>

definition newEventID :: "mw_lib \<Rightarrow> mw_state \<Rightarrow> string \<times> mw_state" where
  "newEventID lib st = (lib_ids lib (drawn st), st\<lparr>drawn := drawn st + 1\<rparr>)"

definition record_event :: "PIIEvent \<Rightarrow> mw_state \<Rightarrow> mw_state option" where
  "record_event e st =
     (case mw_store st of
        None \<Rightarrow> Some st
      | Some s \<Rightarrow> map_option (\<lambda>s1. st\<lparr>mw_store := Some s1\<rparr>) (Record e s))"

definition span_event :: "mw_lib \<Rightarrow> mw_env \<Rightarrow> string \<Rightarrow> nat \<Rightarrow> Span \<Rightarrow> PIIEvent" where
  "span_event lib env i k sp =
     zero_event\<lparr>ev_ID := i, ev_Origin := OriginMiddleware, ev_CorrelationID := mw_correlationID env, ev_UserID := mw_userID env,
       ev_Direction := DirectionIn, ev_PatternID := s_pattern sp, ev_ByteOffset := int (s_start sp),
       ev_Length := int (s_end sp) - int (s_start sp), ev_HashPrefix := s_hash sp, ev_Action := s_action sp,
       ev_Score := s_score sp, ev_CreatedAt := lib_clock lib k\<rparr>"

definition block_event :: "mw_lib \<Rightarrow> mw_env \<Rightarrow> string \<Rightarrow> nat \<Rightarrow> string \<Rightarrow> PIIEvent" where
  "block_event lib env i k pattern =
     zero_event\<lparr>ev_ID := i, ev_Kind := KindPII, ev_Origin := OriginMiddleware, ev_CorrelationID := mw_correlationID env,
       ev_UserID := mw_userID env, ev_Direction := DirectionIn, ev_PatternID := pattern, ev_Action := ActionBlock,
       ev_CreatedAt := lib_clock lib k\<rparr>"

definition blockUnscannedMedia :: "mw_lib \<Rightarrow> mw_env \<Rightarrow> mw_state \<Rightarrow> (outcome \<times> mw_state) option" where
  "blockUnscannedMedia lib env st =
     (let (i, st1) = newEventID lib st
      in map_option (\<lambda>st2. (Rejected 400 ''pii_blocked'' i None, st2))
           (record_event (block_event lib env i (drawn st) unscannedMediaPattern) st1))"

definition blockNERUnavailable :: "mw_lib \<Rightarrow> mw_env \<Rightarrow> mw_state \<Rightarrow> (outcome \<times> mw_state) option" where
  "blockNERUnavailable lib env st =
     (let (i, st1) = newEventID lib st
      in map_option (\<lambda>st2. (Rejected 503 ''pii_ner_unavailable'' i (Some i), st2))
           (record_event (block_event lib env i (drawn st) nerUnavailablePattern) st1))"

section \<open>The handler\<close>

fun record_spans :: "mw_lib \<Rightarrow> mw_env \<Rightarrow> Span list \<Rightarrow> string \<Rightarrow> mw_state \<Rightarrow> (string \<times> mw_state) option" where
  "record_spans lib env [] firstEventID st = Some (firstEventID, st)"
| "record_spans lib env (sp # sps) firstEventID st =
     (let (i, st1) = newEventID lib st;
          first1 = if firstEventID = [] then i else firstEventID
      in case record_event (span_event lib env i (drawn st) sp) st1 of
        None \<Rightarrow> None
      | Some st2 \<Rightarrow> record_spans lib env sps first1 st2)"

record seg_acc =
  sa_blocked :: bool
  sa_first :: string
  sa_updates :: "(int \<times> string) list"
  sa_pseudonyms :: pseudonymizer

definition reversible :: "mw_env \<Rightarrow> bool" where
  "reversible env = (case responsePII env of Some (on, _) \<Rightarrow> on | None \<Rightarrow> False)"

definition handle_segment ::
  "mw_lib \<Rightarrow> mw_env \<Rightarrow> (int \<times> string) \<times> Result \<Rightarrow> seg_acc \<times> mw_state \<Rightarrow> (seg_acc \<times> mw_state) option" where
  "handle_segment lib env seg accst =
     (case (seg, accst) of
        (((idx, tx), res), (acc, st)) \<Rightarrow>
          if Spans res = [] then Some (acc, st)
          else case record_spans lib env (Spans res) (sa_first acc) st of
            None \<Rightarrow> None
          | Some (first1, st1) \<Rightarrow>
              let acc1 = acc\<lparr>sa_first := first1, sa_blocked := sa_blocked acc \<or> Blocked res\<rparr>
              in if reversible env
                 then case pn_replace (lib_upper lib) (lib_unicode lib) tx (Spans res) (sa_pseudonyms acc1) of
                     None \<Rightarrow> None
                   | Some (redacted, p1) \<Rightarrow>
                       Some (acc1\<lparr>sa_updates := sa_updates acc1 @ [(idx, redacted)], sa_pseudonyms := p1\<rparr>, st1)
                 else Some (acc1\<lparr>sa_updates := sa_updates acc1 @ [(idx, Redacted res)]\<rparr>, st1))"

fun resolve_all :: "(string \<Rightarrow> NERConfig option) \<Rightarrow> string list \<Rightarrow> NERConfig list option" where
  "resolve_all r [] = Some []"
| "resolve_all r (n # ns) =
     (case r n of None \<Rightarrow> None | Some c \<Rightarrow> map_option ((#) c) (resolve_all r ns))"

definition mw_policy :: "mw_env \<Rightarrow> bool \<times> string list" where
  "mw_policy env =
     (case policyResolver env of
        Some p \<Rightarrow> p
      | None \<Rightarrow> (case modelPIIConfig env of Some p \<Rightarrow> p | None \<Rightarrow> (False, [])))"

definition start_pseudonyms :: "mw_env \<Rightarrow> pseudonymizer" where
  "start_pseudonyms env =
     (case responsePII env of
        None \<Rightarrow> newPseudonymizer defaultReversibleTokenPrefix defaultReversibleTokenSuffix
      | Some (_, pre, suf) \<Rightarrow>
          newPseudonymizer (if pre \<noteq> [] then pre else defaultReversibleTokenPrefix)
            (if suf \<noteq> [] then suf else defaultReversibleTokenSuffix))"

definition redact_request :: "mw_lib \<Rightarrow> mw_env \<Rightarrow> NERConfig list \<Rightarrow> mw_state \<Rightarrow> (outcome \<times> mw_state) option" where
  "redact_request lib env cfgs st =
     (case RedactNERSegments (lib_unicode lib) (lib_matcher lib) (lib_sort lib) (lib_sha256 lib) (map snd (scannedTexts env)) cfgs of
        None \<Rightarrow> None
      | Some (_, Some err) \<Rightarrow> blockNERUnavailable lib env st
      | Some (results, None) \<Rightarrow>
          (case ofold (handle_segment lib env) (zip (scannedTexts env) results)
                  (\<lparr>sa_blocked = False, sa_first = [], sa_updates = [], sa_pseudonyms = start_pseudonyms env\<rparr>, st) of
             None \<Rightarrow> None
           | Some (acc, st1) \<Rightarrow>
               Some (if sa_blocked acc then Rejected 400 ''pii_blocked'' (sa_first acc) None
                     else Next (if sa_updates acc \<noteq> [] \<and> hasApply env then sa_updates acc else [])
                            (if sa_first acc \<noteq> [] then Some (sa_first acc) else None) (original (sa_pseudonyms acc)), st1)))"

definition RequestMiddleware :: "mw_lib \<Rightarrow> mw_env \<Rightarrow> mw_state \<Rightarrow> (outcome \<times> mw_state) option" where
  "RequestMiddleware lib env st =
     (if \<not> hasRedactor env \<or> \<not> hasScan env then Some (PassThrough, st)
      else let (enabled, detectors) = mw_policy env
           in if \<not> enabled then Some (PassThrough, st)
              else if \<not> hasParsed env then Some (PassThrough, st)
              else if blockUnscannedMedia_on env \<and> adapterUnscanned env \<noteq> None \<and> the (adapterUnscanned env) \<noteq> []
              then blockUnscannedMedia lib env st
              else case nerResolver env of
                None \<Rightarrow> Some (PassThrough, st)
              | Some r \<Rightarrow>
                  if detectors = [] then Some (PassThrough, st)
                  else case resolve_all r detectors of
                    None \<Rightarrow> blockNERUnavailable lib env st
                  | Some cfgs \<Rightarrow> redact_request lib env cfgs st)"


section \<open>One event per span, one update per text\<close>

definition logged :: "mw_state \<Rightarrow> PIIEvent list \<Rightarrow> bool" where
  "logged st es \<longleftrightarrow> (case mw_store st of None \<Rightarrow> True | Some s \<Rightarrow> ring_ok s es)"

lemma record_event_ok: "logged st es \<Longrightarrow> \<exists>st'. record_event e st = Some st' \<and> logged st' (es @ [e])"
  using Record_ok by (fastforce simp: logged_def record_event_def split: option.splits)

lemma logged_drawn [simp]: "logged (st\<lparr>drawn := n\<rparr>) es = logged st es"
  by (simp add: logged_def)

definition events_for :: "PIIEvent list \<Rightarrow> Span list \<Rightarrow> bool" where
  "events_for evs sps \<longleftrightarrow> list_all2 (\<lambda>e sp. ev_PatternID e = s_pattern sp \<and> ev_Action e = s_action sp \<and> ev_HashPrefix e = s_hash sp
     \<and> ev_ByteOffset e = int (s_start sp) \<and> ev_Length e = int (s_end sp) - int (s_start sp) \<and> ev_Score e = s_score sp) evs sps"

lemma events_for_append: "events_for a x \<Longrightarrow> events_for b y \<Longrightarrow> events_for (a @ b) (x @ y)"
  by (simp add: events_for_def list_all2_appendI)

lemma record_spans_ok:
  "logged st es \<Longrightarrow> \<exists>first st' new. record_spans lib env sps f st = Some (first, st') \<and> logged st' (es @ new) \<and> events_for new sps"
proof (induction sps arbitrary: f st es)
  case Nil
  then show ?case by (auto simp: events_for_def intro!: exI [of _ "[]"])
next
  case (Cons sp sps)
  let ?i = "lib_ids lib (drawn st)" let ?e = "span_event lib env ?i (drawn st) sp"
  obtain st2 where st2: "record_event ?e (st\<lparr>drawn := drawn st + 1\<rparr>) = Some st2" "logged st2 (es @ [?e])"
    using record_event_ok [of "st\<lparr>drawn := drawn st + 1\<rparr>" es ?e] Cons.prems by auto
  from Cons.IH [OF st2(2), of "if f = [] then ?i else f"] obtain first st' new where
    r: "record_spans lib env sps (if f = [] then ?i else f) st2 = Some (first, st')" "logged st' ((es @ [?e]) @ new)" "events_for new sps"
    by blast
  have "events_for (?e # new) (sp # sps)" using r(3) by (simp add: events_for_def span_event_def zero_event_def)
  with st2(1) r(1,2) show ?case by (intro exI [of _ first] exI [of _ st'] exI [of _ "?e # new"]) (simp add: newEventID_def)
qed

lemma replace_loop_returns:
  "intervals l (length tx) (map span_iv sps) \<Longrightarrow> l \<le> length tx \<Longrightarrow> \<exists>r p'. replace_loop upper u tx sps l out p = Some (r, p')"
proof (induction sps arbitrary: l out p)
  case Nil
  then show ?case by (simp add: substr_def)
next
  case (Cons sp sps)
  then have iv: "l \<le> s_start sp" "s_start sp < s_end sp" "s_end sp \<le> length tx" "intervals (s_end sp) (length tx) (map span_iv sps)"
    by simp_all
  then have "intervals l (length tx) (map span_iv sps)" by (auto intro: intervals_mono)
  then show ?case
    using iv Cons.IH [of "s_end sp"] Cons.IH [of l] Cons.prems(2) by (simp add: substr_def split: prod.split)
qed

type_synonym segment = "(int \<times> string) \<times> Result"

definition seg_ok :: "segment \<Rightarrow> bool" where
  "seg_ok seg \<longleftrightarrow> intervals 0 (length (snd (fst seg))) (map span_iv (Spans (snd seg))) \<and> (Blocked (snd seg) \<longrightarrow> Spans (snd seg) \<noteq> [])"

abbreviation found :: "segment list \<Rightarrow> segment list" where
  "found segs \<equiv> filter (\<lambda>seg. Spans (snd seg) \<noteq> []) segs"

text \<open>What the texts with detections become, from a pseudonymizer to the next.\<close>

definition rewritten :: "mw_lib \<Rightarrow> mw_env \<Rightarrow> segment list \<Rightarrow> pseudonymizer \<Rightarrow> string list \<Rightarrow> pseudonymizer \<Rightarrow> bool" where
  "rewritten lib env segs p outs p' \<longleftrightarrow>
     (if reversible env
      then redact_messages (lib_upper lib) (lib_unicode lib) (map (\<lambda>seg. (snd (fst seg), Spans (snd seg))) (found segs)) p = Some (outs, p')
      else outs = map (\<lambda>seg. Redacted (snd seg)) (found segs) \<and> p' = p)"

lemma handle_segment_ok:
  assumes "seg_ok seg" and "logged st es"
  shows "\<exists>acc' st' new outs. handle_segment lib env seg (acc, st) = Some (acc', st') \<and> logged st' (es @ new)
    \<and> events_for new (Spans (snd seg)) \<and> (sa_blocked acc' \<longleftrightarrow> sa_blocked acc \<or> Blocked (snd seg))
    \<and> sa_updates acc' = sa_updates acc @ zip (map (fst \<circ> fst) (found [seg])) outs
    \<and> rewritten lib env [seg] (sa_pseudonyms acc) outs (sa_pseudonyms acc')"
proof -
  obtain idx tx res where seg: "seg = ((idx, tx), res)" by (metis prod.collapse)
  show ?thesis
  proof (cases "Spans res = []")
    case True
    with assms seg show ?thesis
      by (intro exI [of _ acc] exI [of _ st] exI [of _ "[]"]) (simp add: handle_segment_def seg_ok_def rewritten_def events_for_def)
  next
    case False
    obtain first st' new where r: "record_spans lib env (Spans res) (sa_first acc) st = Some (first, st')" "logged st' (es @ new)"
      "events_for new (Spans res)" using record_spans_ok [OF assms(2)] by blast
    have "intervals 0 (length tx) (map span_iv (Spans res))" using assms(1) seg by (simp add: seg_ok_def)
    then obtain out p' where p: "pn_replace (lib_upper lib) (lib_unicode lib) tx (Spans res) (sa_pseudonyms acc) = Some (out, p')"
      using replace_loop_returns [of 0 tx "Spans res"] unfolding pn_replace_def by blast
    let ?acc = "acc\<lparr>sa_first := first, sa_blocked := sa_blocked acc \<or> Blocked res\<rparr>"
    show ?thesis
    proof (cases "reversible env")
      case True
      with False r p seg show ?thesis
        by (intro exI [of _ "?acc\<lparr>sa_updates := sa_updates acc @ [(idx, out)], sa_pseudonyms := p'\<rparr>"] exI [of _ st'] exI [of _ new] exI [of _ "[out]"])
          (simp add: handle_segment_def rewritten_def)
    next
      case not_rev: False
      with False r seg show ?thesis
        by (intro exI [of _ "?acc\<lparr>sa_updates := sa_updates acc @ [(idx, Redacted res)]\<rparr>"] exI [of _ st'] exI [of _ new] exI [of _ "[Redacted res]"])
          (simp add: handle_segment_def rewritten_def)
    qed
  qed
qed

lemma rewritten_length: "rewritten lib env [seg] p outs p' \<Longrightarrow> length outs = length (found [seg])"
  by (auto simp: rewritten_def split: if_splits option.splits)

lemma rewritten_Cons:
  "rewritten lib env [seg] p outs1 p1 \<Longrightarrow> rewritten lib env segs p1 outs2 p2 \<Longrightarrow> rewritten lib env (seg # segs) p (outs1 @ outs2) p2"
  by (auto simp: rewritten_def split: if_splits option.splits)

lemma handle_segments_ok:
  "\<forall>seg \<in> set segs. seg_ok seg \<Longrightarrow> logged st es \<Longrightarrow>
     \<exists>acc' st' new outs. ofold (handle_segment lib env) segs (acc, st) = Some (acc', st') \<and> logged st' (es @ new)
       \<and> events_for new (concat (map (\<lambda>seg. Spans (snd seg)) segs)) \<and> (sa_blocked acc' \<longleftrightarrow> sa_blocked acc \<or> (\<exists>seg \<in> set segs. Blocked (snd seg)))
       \<and> sa_updates acc' = sa_updates acc @ zip (map (fst \<circ> fst) (found segs)) outs
       \<and> rewritten lib env segs (sa_pseudonyms acc) outs (sa_pseudonyms acc')"
proof (induction segs arbitrary: acc st es)
  case Nil
  then show ?case
    by (intro exI [of _ acc] exI [of _ st] exI [of _ "[]"]) (simp add: events_for_def rewritten_def)
next
  case (Cons seg segs)
  have ok: "\<forall>seg \<in> set segs. seg_ok seg" and ok1: "seg_ok seg" using Cons.prems(1) by simp_all
  obtain acc1 st1 new1 outs1 where s: "handle_segment lib env seg (acc, st) = Some (acc1, st1)" "logged st1 (es @ new1)"
    "events_for new1 (Spans (snd seg))" "sa_blocked acc1 \<longleftrightarrow> sa_blocked acc \<or> Blocked (snd seg)"
    "sa_updates acc1 = sa_updates acc @ zip (map (fst \<circ> fst) (found [seg])) outs1"
    "rewritten lib env [seg] (sa_pseudonyms acc) outs1 (sa_pseudonyms acc1)"
    using handle_segment_ok [OF ok1 Cons.prems(2), of lib env acc] by blast
  obtain acc' st' new2 outs2 where r: "ofold (handle_segment lib env) segs (acc1, st1) = Some (acc', st')" "logged st' ((es @ new1) @ new2)"
    "events_for new2 (concat (map (\<lambda>seg. Spans (snd seg)) segs))" "sa_blocked acc' \<longleftrightarrow> sa_blocked acc1 \<or> (\<exists>seg \<in> set segs. Blocked (snd seg))"
    "sa_updates acc' = sa_updates acc1 @ zip (map (fst \<circ> fst) (found segs)) outs2"
    "rewritten lib env segs (sa_pseudonyms acc1) outs2 (sa_pseudonyms acc')"
    using Cons.IH [OF ok s(2), of acc1] by blast
  have split: "found (seg # segs) = found [seg] @ found segs" by simp
  have zips: "length (map (fst \<circ> fst) (found [seg])) = length outs1" using rewritten_length [OF s(6)] by simp
  have upd: "sa_updates acc' = sa_updates acc @ zip (map (fst \<circ> fst) (found (seg # segs))) (outs1 @ outs2)"
    unfolding split map_append zip_append [OF zips] r(5) s(5) append_assoc ..
  have "ofold (handle_segment lib env) (seg # segs) (acc, st) = Some (acc', st')" "logged st' (es @ new1 @ new2)"
    "events_for (new1 @ new2) (concat (map (\<lambda>seg. Spans (snd seg)) (seg # segs)))"
    "sa_blocked acc' \<longleftrightarrow> sa_blocked acc \<or> (\<exists>seg \<in> set (seg # segs). Blocked (snd seg))"
    using s(1,4) r(1,2,4) events_for_append [OF s(3) r(3)] by simp_all
  with upd rewritten_Cons [OF s(6) r(6)] show ?case by blast
qed

lemma blockNERUnavailable_ok:
  assumes "logged st es"
  shows "\<exists>st' e. blockNERUnavailable lib env st = Some (Rejected 503 ''pii_ner_unavailable'' (ev_ID e) (Some (ev_ID e)), st') \<and> logged st' (es @ [e])
    \<and> ev_PatternID e = nerUnavailablePattern \<and> ev_Action e = ActionBlock"
proof -
  let ?e = "block_event lib env (lib_ids lib (drawn st)) (drawn st) nerUnavailablePattern"
  obtain st' where "record_event ?e (st\<lparr>drawn := drawn st + 1\<rparr>) = Some st'" "logged st' (es @ [?e])"
    using record_event_ok [of "st\<lparr>drawn := drawn st + 1\<rparr>" es ?e] assms by auto
  then show ?thesis
    by (intro exI [of _ st'] exI [of _ ?e]) (simp add: blockNERUnavailable_def newEventID_def block_event_def zero_event_def)
qed

lemma resolve_all_eq:
  "resolve_all r ns = (if \<exists>n \<in> set ns. r n = None then None else Some (map (\<lambda>n. the (r n)) ns))"
  by (induction ns) (auto split: option.split)

text \<open>The refusal of a request whose detectors cannot answer, and what becomes of one whose detectors can.\<close>

definition ner_refused :: "outcome \<Rightarrow> PIIEvent list \<Rightarrow> bool" where
  "ner_refused out new \<longleftrightarrow> (\<exists>e. out = Rejected 503 ''pii_ner_unavailable'' (ev_ID e) (Some (ev_ID e)) \<and> new = [e]
     \<and> ev_PatternID e = nerUnavailablePattern \<and> ev_Action e = ActionBlock)"

definition filtered :: "mw_lib \<Rightarrow> mw_env \<Rightarrow> segment list \<Rightarrow> outcome \<Rightarrow> bool" where
  "filtered lib env segs out \<longleftrightarrow>
     (if \<exists>seg \<in> set segs. \<exists>sp \<in> set (Spans (snd seg)). s_action sp = ActionBlock
      then \<exists>i. out = Rejected 400 ''pii_blocked'' i None
      else \<exists>outs p ev. rewritten lib env segs (start_pseudonyms env) outs p
             \<and> out = Next (if hasApply env then zip (map (fst \<circ> fst) (found segs)) outs else []) ev (original p))"

lemma redact_request_ok:
  assumes "hit_sort (lib_sort lib)" and "matches_ok (lib_matcher lib)" and "logged st es"
    and "join_loop (map snd (scannedTexts env)) 0 [] [] = (doc, offs)"
    and err: "first_err (lib_unicode lib) (lib_matcher lib) doc cfgs = None"
  shows "\<exists>out st' new results. redact_request lib env cfgs st = Some (out, st') \<and> logged st' (es @ new)
    \<and> RedactNERSegments (lib_unicode lib) (lib_matcher lib) (lib_sort lib) (lib_sha256 lib) (map snd (scannedTexts env)) cfgs = Some (results, None)
    \<and> length results = length (scannedTexts env) \<and> events_for new (concat (map Spans results))
    \<and> filtered lib env (zip (scannedTexts env) results) out"
proof -
  let ?ts = "scannedTexts env" and ?acc = "\<lparr>sa_blocked = False, sa_first = [], sa_updates = [], sa_pseudonyms = start_pseudonyms env\<rparr>"
  obtain dres results where
    rs: "RedactNERSegments (lib_unicode lib) (lib_matcher lib) (lib_sort lib) (lib_sha256 lib) (map snd ?ts) cfgs = Some (results, None)"
    and len: "length results = length ?ts"
    and agree: "\<forall>k < length ?ts. seg_agrees (all_hits (lib_unicode lib) (lib_matcher lib) doc cfgs) dres (map snd ?ts ! k) (offs ! k) (results ! k)"
    using RedactNERSegments_result [OF assms(1,2,4), of "lib_unicode lib" "lib_sha256 lib" cfgs] unfolding err by (metis length_map)
  let ?segs = "zip ?ts results"
  have seg: "seg_ok seg \<and> (Blocked (snd seg) \<longleftrightarrow> (\<exists>sp \<in> set (Spans (snd seg)). s_action sp = ActionBlock))" if in_segs: "seg \<in> set ?segs" for seg
  proof -
    obtain k where "k < length ?ts" "seg = (?ts ! k, results ! k)" using in_segs len by (auto simp: set_zip)
    with agree show ?thesis by (auto simp: seg_agrees_def seg_ok_def)
  qed
  obtain acc st' new outs where h: "ofold (handle_segment lib env) ?segs (?acc, st) = Some (acc, st')" "logged st' (es @ new)"
    "events_for new (concat (map (\<lambda>seg. Spans (snd seg)) ?segs))" "sa_blocked acc \<longleftrightarrow> (\<exists>seg \<in> set ?segs. Blocked (snd seg))"
    "sa_updates acc = zip (map (fst \<circ> fst) (found ?segs)) outs" "rewritten lib env ?segs (start_pseudonyms env) outs (sa_pseudonyms acc)"
    using handle_segments_ok [OF _ assms(3), of ?segs lib env ?acc] seg unfolding seg_acc.simps append_Nil simp_thms by blast
  have "map (\<lambda>seg. Spans (snd seg)) ?segs = map Spans results"
    by (rule nth_equalityI) (simp_all add: len)
  moreover have "sa_blocked acc \<longleftrightarrow> (\<exists>seg \<in> set ?segs. \<exists>sp \<in> set (Spans (snd seg)). s_action sp = ActionBlock)"
    using h(4) seg by blast
  ultimately show ?thesis
    using rs len h(1-3,5,6) by (fastforce simp: redact_request_def filtered_def)
qed


definition wit_lib :: mw_lib where
  "wit_lib = \<lparr>lib_unicode = wit_u, lib_matcher = wit_pm, lib_sort = go_sort hit_less, lib_sha256 = id, lib_upper = id,
     lib_ids = (\<lambda>_. ''pii_0''), lib_clock = (\<lambda>k. int k)\<rparr>"

definition wit_env :: mw_env where
  "wit_env = \<lparr>hasRedactor = True, hasScan = True, policyResolver = Some (True, [''ner'', ''gone'']), modelPIIConfig = None,
     hasParsed = True, blockUnscannedMedia_on = True, adapterUnscanned = Some [],
     nerResolver = Some (\<lambda>n. if n = ''ner'' then Some wit_plain else None), mw_userID = ''u'', mw_correlationID = ''c'',
     scannedTexts = [(0, ''Spa Bo'')], responsePII = None, hasApply = True\<rparr>"


end
